(* ===== verification/Prelude.thy ===== *)
theory Prelude
  imports Main "HOL-Library.Word" "HOL-Library.AList" "HOL-Library.Multiset"
    "HOL-Library.List_Lexorder" "HOL-Library.Char_ord"
begin

text \<open>
  Shared vocabulary of the development: the Rust integers as words with their saturating
  operations, durations, byte strings, the \<^verbatim>\<open>Result\<close> sequencing, the two map containers
  of the standard library (\<^verbatim>\<open>HashMap\<close> as an association list, \<^verbatim>\<open>BTreeMap\<close> as an
  association list kept sorted by key), the iterator helpers the sources use
  (\<^verbatim>\<open>iter_mut().find\<close>, \<^verbatim>\<open>max_by_key\<close>), and one interface, the transition system with an
  inductive invariant, which the actors of the later theories instantiate.
\<close>

section \<open>Collections of facts\<close>

named_theorems rust_arith \<open>saturating arithmetic read through \<open>unat\<close>\<close>
named_theorems alist_simps \<open>lookup after insert and remove\<close>

section \<open>Integers\<close>

type_synonym u8 = "8 word"
type_synonym u16 = "16 word"
type_synonym u32 = "32 word"
type_synonym u64 = "64 word"
type_synonym i64 = "64 word"
type_synonym bytes = "8 word list"

definition sat_add :: "'a::len word \<Rightarrow> 'a word \<Rightarrow> 'a word" where
  "sat_add a b = (if unat a + unat b < 2 ^ LENGTH('a) then a + b else - 1)"

definition sat_sub :: "'a::len word \<Rightarrow> 'a word \<Rightarrow> 'a word" where
  "sat_sub a b = (if b \<le> a then a - b else 0)"

text \<open>\<^verbatim>\<open>u64::try_from(n).unwrap_or(u64::MAX)\<close> for a \<^verbatim>\<open>usize\<close> or \<^verbatim>\<open>u128\<close> value.\<close>

definition u64_clamp :: "nat \<Rightarrow> u64" where
  "u64_clamp n = (if n < 2 ^ 64 then of_nat n else - 1)"

lemma unat_bound: "unat (w :: 'a::len word) < 2 ^ LENGTH('a)"
  by (rule unsigned_less)

lemma unat_max_word: "unat (- 1 :: 'a::len word) = 2 ^ LENGTH('a) - 1"
  by (simp add: unsigned_minus_1_eq_mask mask_eq_exp_minus_1)

lemma unat_sat_add [rust_arith]:
  fixes a b :: "'a::len word"
  shows "unat (sat_add a b) = min (unat a + unat b) (2 ^ LENGTH('a) - 1)"
  by (auto simp: sat_add_def unat_max_word unat_word_ariths min_def)

lemma u64_clamp_code [code]: "u64_clamp n = (if int n < 18446744073709551616 then word_of_int (int n) else - 1)"
  by (simp add: u64_clamp_def)

text \<open>For evaluation: the sum wrapped exactly when it is below its first operand.\<close>

lemma sat_add_code [code]:
  fixes a b :: "'a::len word"
  shows "sat_add a b = (let c = a + b in if c < a then - 1 else c)"
proof -
  let ?m = "2 ^ LENGTH('a) :: nat"
  have "unat a + unat b < ?m \<longleftrightarrow> \<not> a + b < a"
  proof (cases "unat a + unat b < ?m")
    case True
    then show ?thesis by (simp add: word_less_nat_alt unat_word_ariths)
  next
    case False
    then have "(unat a + unat b) mod ?m = (unat a + unat b - ?m) mod ?m"
      by (intro le_mod_geq) simp
    also have "\<dots> \<le> unat a + unat b - ?m" by (rule mod_less_eq_dividend)
    also have "\<dots> < unat a" using False unat_bound [of b] by linarith
    finally show ?thesis using False by (simp add: word_less_nat_alt unat_word_ariths)
  qed
  then show ?thesis by (simp add: sat_add_def Let_def)
qed

lemma unat_sat_sub [rust_arith]:
  fixes a b :: "'a::len word"
  shows "unat (sat_sub a b) = unat a - unat b"
  by (auto simp: sat_sub_def unat_sub word_le_nat_alt)

lemma unat_u64_clamp [rust_arith]: "unat (u64_clamp n) = min n (2 ^ 64 - 1)"
  by (auto simp: u64_clamp_def unat_of_nat unat_max_word)

lemma sat_sub_sat_add_cancel:
  fixes a b :: "'a::len word"
  assumes "unat a + unat b < 2 ^ LENGTH('a)"
  shows "sat_sub (sat_add a b) b = a"
proof -
  have "unat (sat_sub (sat_add a b) b) = unat a"
    using assms by (simp add: rust_arith)
  then show ?thesis by (simp add: word_unat_eq_iff)
qed

lemma less_sat_add_1:
  fixes w :: "'a::len word"
  assumes "w \<noteq> - 1"
  shows "w < sat_add w 1"
proof -
  have bound: "unat w < 2 ^ LENGTH('a)" by (rule unsigned_less)
  have "unat w \<noteq> 2 ^ LENGTH('a) - 1"
    using assms unat_max_word [where 'a = 'a] by (auto simp: word_unat_eq_iff)
  with bound have "unat w < 2 ^ LENGTH('a) - 1" by linarith
  moreover have "unat (1 :: 'a word) = 1" by simp
  ultimately show ?thesis by (simp add: word_less_nat_alt unat_sat_add)
qed

lemma le_sat_add:
  fixes w v :: "'a::len word"
  shows "w \<le> sat_add w v"
proof -
  have "unat w < 2 ^ LENGTH('a)" by (rule unsigned_less)
  then have "unat w \<le> 2 ^ LENGTH('a) - 1" by linarith
  then show ?thesis by (simp add: word_le_nat_alt unat_sat_add)
qed

section \<open>Decimal output\<close>

text \<open>\<^verbatim>\<open>format!("{}", n)\<close> for an unsigned integer.\<close>

definition digit_char :: "nat \<Rightarrow> char" where
  "digit_char d = ''0123456789'' ! d"

fun show_nat :: "nat \<Rightarrow> string" where
  "show_nat n = (if n < 10 then [digit_char n] else show_nat (n div 10) @ [digit_char (n mod 10)])"

declare show_nat.simps [simp del]

section \<open>Durations\<close>

text \<open>
  \<^verbatim>\<open>std::time::Duration\<close> as its number of nanoseconds: a 64-bit count of seconds and a
  sub-second part, so at most \<open>duration_max\<close>. Instants are nanoseconds from an arbitrary epoch.
\<close>

type_synonym duration = nat
type_synonym instant = nat

definition duration_max :: duration where
  "duration_max = (2 ^ 64 - 1) * 1000000000 + 999999999"

definition from_secs :: "nat \<Rightarrow> duration" where
  "from_secs s = s * 1000000000"

definition from_millis :: "nat \<Rightarrow> duration" where
  "from_millis m = m * 1000000"

definition as_millis :: "duration \<Rightarrow> nat" where
  "as_millis d = d div 1000000"

definition as_secs :: "duration \<Rightarrow> nat" where
  "as_secs d = d div 1000000000"

definition dur_sat_add :: "duration \<Rightarrow> duration \<Rightarrow> duration" where
  "dur_sat_add a b = min (a + b) duration_max"

definition dur_sat_mul :: "duration \<Rightarrow> nat \<Rightarrow> duration" where
  "dur_sat_mul a k = min (a * k) duration_max"

lemma as_millis_from_millis [simp]: "as_millis (from_millis m) = m"
  by (simp add: as_millis_def from_millis_def)

section \<open>Results\<close>

text \<open>\<^verbatim>\<open>Result<T, E>\<close> is \<open>'e + 'a\<close>; \<^verbatim>\<open>?\<close> is \<open>bind_res\<close>.\<close>

fun bind_res :: "'e + 'a \<Rightarrow> ('a \<Rightarrow> 'e + 'b) \<Rightarrow> 'e + 'b" where
  "bind_res (Inl e) f = Inl e"
| "bind_res (Inr a) f = f a"

fun map_err :: "('e \<Rightarrow> 'f) \<Rightarrow> 'e + 'a \<Rightarrow> 'f + 'a" where
  "map_err f (Inl e) = Inl (f e)"
| "map_err f (Inr a) = Inr a"

definition ok_or :: "'e \<Rightarrow> 'a option \<Rightarrow> 'e + 'a" where
  "ok_or e x = (case x of None \<Rightarrow> Inl e | Some a \<Rightarrow> Inr a)"

text \<open>\<^verbatim>\<open>for x in xs { f(x)?; }\<close>: the first error stops the loop.\<close>

fun for_each :: "('a \<Rightarrow> 'e + unit) \<Rightarrow> 'a list \<Rightarrow> 'e + unit" where
  "for_each f [] = Inr ()"
| "for_each f (x # xs) = bind_res (f x) (\<lambda>_. for_each f xs)"

text \<open>\<^verbatim>\<open>collect::<Result<Vec<_>, _>>()\<close>.\<close>

fun map_res :: "('a \<Rightarrow> 'e + 'b) \<Rightarrow> 'a list \<Rightarrow> 'e + 'b list" where
  "map_res f [] = Inr []"
| "map_res f (x # xs) = bind_res (f x) (\<lambda>y. bind_res (map_res f xs) (\<lambda>ys. Inr (y # ys)))"

lemma bind_res_Inr [simp]: "bind_res r f = Inr b \<longleftrightarrow> (\<exists>a. r = Inr a \<and> f a = Inr b)"
  by (cases r) auto

lemma bind_res_Inl: "bind_res r f = Inl e \<longleftrightarrow> r = Inl e \<or> (\<exists>a. r = Inr a \<and> f a = Inl e)"
  by (cases r) auto

lemma bind_res_unit: "bind_res r (\<lambda>_. s) = Inr b \<longleftrightarrow> r = Inr (() :: unit) \<and> s = Inr b"
  by simp

lemma if_Inl_eq_Inr: "(if c then Inl e else r) = Inr b \<longleftrightarrow> \<not> c \<and> r = Inr b"
  by simp

lemma map_err_Inr [simp]: "map_err f r = Inr a \<longleftrightarrow> r = Inr a"
  by (cases r) auto

lemma ok_or_Inr [simp]: "ok_or e x = Inr a \<longleftrightarrow> x = Some a"
  by (cases x) (auto simp: ok_or_def)

lemma for_each_Inr: "for_each f xs = Inr () \<longleftrightarrow> (\<forall>x\<in>set xs. f x = Inr ())"
  by (induction xs) auto

lemma map_res_Inr: "map_res f xs = Inr ys \<longleftrightarrow> map f xs = map Inr ys"
  by (induction xs arbitrary: ys) (auto simp: map_eq_Cons_conv Cons_eq_map_conv)

lemma map_res_iff:
  assumes "\<And>x y. x \<in> set xs \<Longrightarrow> f x = Inr y \<longleftrightarrow> P x \<and> y = g x"
  shows "map_res f xs = Inr ys \<longleftrightarrow> (\<forall>x\<in>set xs. P x) \<and> ys = map g xs"
  using assms by (induction xs arbitrary: ys) auto

section \<open>Iterators\<close>

text \<open>\<^verbatim>\<open>iter_mut().find(p)\<close> followed by an update through the reference.\<close>

fun update_first :: "('a \<Rightarrow> bool) \<Rightarrow> ('a \<Rightarrow> 'a) \<Rightarrow> 'a list \<Rightarrow> 'a list" where
  "update_first P f [] = []"
| "update_first P f (x # xs) = (if P x then f x # xs else x # update_first P f xs)"

lemma length_update_first [simp]: "length (update_first P f xs) = length xs"
  by (induction xs) auto

lemma set_update_first_subset: "set (update_first P f xs) \<subseteq> set xs \<union> f ` {x \<in> set xs. P x}"
  by (induction xs) auto

lemma map_update_first:
  assumes "\<And>x. g (f x) = g x"
  shows "map g (update_first P f xs) = map g xs"
  using assms by (induction xs) auto

text \<open>With distinct keys, updating the first match is updating the only match.\<close>

lemma update_first_key:
  assumes "distinct (map key xs)"
  shows "update_first (\<lambda>x. key x = k) f xs = map (\<lambda>x. if key x = k then f x else x) xs"
  using assms
proof (induction xs)
  case (Cons x xs)
  show ?case
  proof (cases "key x = k")
    case True
    with Cons.prems have "map (\<lambda>y. if key y = k then f y else y) xs = xs"
      by (intro map_idI) (auto simp: image_iff)
    with True show ?thesis by simp
  next
    case False
    with Cons show ?thesis by simp
  qed
qed simp

text \<open>\<^verbatim>\<open>Iterator::max_by_key\<close> returns the last of several maximal elements.\<close>

fun max_by_key :: "('a \<Rightarrow> 'b::linorder) \<Rightarrow> 'a list \<Rightarrow> 'a option" where
  "max_by_key f [] = None"
| "max_by_key f (x # xs) =
     (case max_by_key f xs of None \<Rightarrow> Some x | Some y \<Rightarrow> Some (if f y < f x then x else y))"

lemma max_by_key_None [simp]: "max_by_key f xs = None \<longleftrightarrow> xs = []"
  by (cases xs) (auto split: option.splits)

lemma max_by_key_Some:
  assumes "max_by_key f xs = Some y"
  shows "y \<in> set xs" and "\<And>x. x \<in> set xs \<Longrightarrow> f x \<le> f y"
  using assms by (induction xs arbitrary: y) (force split: option.splits if_splits)+

section \<open>Maps\<close>

text \<open>
  A \<^verbatim>\<open>BTreeMap\<close>: entries sorted by key. \<open>AList.update\<close> and \<open>AList.delete\<close> play
  \<^verbatim>\<open>insert\<close> and \<^verbatim>\<open>remove\<close> of a \<^verbatim>\<open>HashMap\<close>, whose iteration order is not specified.
\<close>

fun bt_insert :: "'k::linorder \<Rightarrow> 'v \<Rightarrow> ('k \<times> 'v) list \<Rightarrow> ('k \<times> 'v) list" where
  "bt_insert k v [] = [(k, v)]"
| "bt_insert k v ((k', v') # xs) =
     (if k < k' then (k, v) # (k', v') # xs
      else if k = k' then (k, v) # xs
      else (k', v') # bt_insert k v xs)"

definition bt_remove :: "'k::linorder \<Rightarrow> ('k \<times> 'v) list \<Rightarrow> ('k \<times> 'v) list" where
  "bt_remove k xs = filter (\<lambda>p. fst p \<noteq> k) xs"

definition bt_range :: "('k::linorder \<Rightarrow> bool) \<Rightarrow> ('k \<times> 'v) list \<Rightarrow> ('k \<times> 'v) list" where
  "bt_range P xs = filter (\<lambda>p. P (fst p)) xs"

definition bt_wf :: "('k::linorder \<times> 'v) list \<Rightarrow> bool" where
  "bt_wf xs \<longleftrightarrow> sorted_wrt (<) (map fst xs)"

lemma bt_wf_Nil [simp]: "bt_wf []"
  by (simp add: bt_wf_def)

lemma bt_wf_distinct: "bt_wf xs \<Longrightarrow> distinct (map fst xs)"
  unfolding bt_wf_def using strict_sorted_iff by blast

lemma set_keys_bt_insert: "fst ` set (bt_insert k v xs) = insert k (fst ` set xs)"
  by (induction k v xs rule: bt_insert.induct) auto

lemma bt_wf_insert: "bt_wf xs \<Longrightarrow> bt_wf (bt_insert k v xs)"
proof (induction k v xs rule: bt_insert.induct)
  case (2 k v k' v' xs)
  have "set (map fst (bt_insert k v xs)) = insert k (set (map fst xs))"
    using set_keys_bt_insert [of k v xs] by simp
  with 2 show ?case by (auto simp: bt_wf_def)
qed (simp add: bt_wf_def)

lemma bt_wf_remove: "bt_wf xs \<Longrightarrow> bt_wf (bt_remove k xs)"
  unfolding bt_wf_def bt_remove_def
  by (induction xs) auto

lemma map_of_bt_insert [alist_simps]:
  "map_of (bt_insert k v xs) = (map_of xs)(k \<mapsto> v)"
  by (induction k v xs rule: bt_insert.induct) (auto simp: fun_eq_iff)

lemma map_of_bt_remove [alist_simps]:
  "map_of (bt_remove k xs) = (map_of xs)(k := None)"
  by (induction xs) (auto simp: bt_remove_def fun_eq_iff)

lemma set_bt_remove: "set (bt_remove k xs) = {p \<in> set xs. fst p \<noteq> k}"
  by (auto simp: bt_remove_def)

lemma set_bt_range: "set (bt_range P xs) = {p \<in> set xs. P (fst p)}"
  by (auto simp: bt_range_def)

lemma bt_wf_range: "bt_wf xs \<Longrightarrow> bt_wf (bt_range P xs)"
  unfolding bt_wf_def bt_range_def by (induction xs) auto

lemma map_of_mem_iff: "bt_wf xs \<Longrightarrow> map_of xs k = Some v \<longleftrightarrow> (k, v) \<in> set xs"
  by (simp add: bt_wf_distinct)

section \<open>Transition systems\<close>

text \<open>
  The interface every actor of the development has: a step function over events and a state
  predicate that one step keeps. A run is a list of events; the client lemma is that a run
  keeps the predicate too.
\<close>

fun run_events :: "('e \<Rightarrow> 's \<Rightarrow> 's) \<Rightarrow> 'e list \<Rightarrow> 's \<Rightarrow> 's" where
  "run_events step [] s = s"
| "run_events step (e # es) s = run_events step es (step e s)"

locale invariant_machine =
  fixes step :: "'e \<Rightarrow> 's \<Rightarrow> 's"
    and inv :: "'s \<Rightarrow> bool"
  assumes step_inv: "inv s \<Longrightarrow> inv (step e s)"
begin

lemma run_inv: "inv s \<Longrightarrow> inv (run_events step es s)"
  by (induction es arbitrary: s) (auto intro: step_inv)

lemma run_append: "run_events step (es @ fs) s = run_events step fs (run_events step es s)"
  by (induction es arbitrary: s) auto

end

end
