(* ===== verification/Scheduler.thy ===== *)
theory Scheduler
  imports Prelude
begin

text \<open>
  The weighted-fair scheduler of \<^verbatim>\<open>consumer/scheduler.rs\<close>: registered subscriptions with a
  weight, a ready flag and a credit, and a rotating cursor that breaks ties. The credit is an
  \<^verbatim>\<open>i64\<close> in the source; it is an unbounded integer here, and the share theorem bounds it by
  the number of ready subscriptions times their total weight (16-bit weights), far inside
  64 bits. The interface \<open>ready_scheduler\<close> is what the consumer actor relies on.
\<close>

section \<open>Model\<close>

record subscription_policy =
  weight :: u16

text \<open>\<^verbatim>\<open>SubscriptionPolicy::new\<close> panics on a zero weight (\<open>None\<close>).\<close>

definition subscription_policy_new :: "u16 \<Rightarrow> subscription_policy option" where
  "subscription_policy_new w = (if w > 0 then Some \<lparr>weight = w\<rparr> else None)"

record entry =
  ent_id :: string
  policy :: subscription_policy
  ready :: bool
  credit :: int

record scheduler =
  entries :: "entry list"
  cursor :: nat

definition scheduler_default :: scheduler where
  "scheduler_default = \<lparr>entries = [], cursor = 0\<rparr>"

definition register :: "string \<Rightarrow> subscription_policy \<Rightarrow> scheduler \<Rightarrow> scheduler" where
  "register i p s =
     (if \<exists>e\<in>set (entries s). ent_id e = i
      then s\<lparr>entries := update_first (\<lambda>e. ent_id e = i) (\<lambda>e. e\<lparr>policy := p\<rparr>) (entries s)\<rparr>
      else s\<lparr>entries := entries s @ [\<lparr>ent_id = i, policy = p, ready = False, credit = 0\<rparr>]\<rparr>)"

definition mark_ready :: "string \<Rightarrow> scheduler \<Rightarrow> scheduler" where
  "mark_ready i s = s\<lparr>entries := update_first (\<lambda>e. ent_id e = i)
     (\<lambda>e. if ready e then e else e\<lparr>ready := True, credit := 0\<rparr>) (entries s)\<rparr>"

definition mark_empty :: "string \<Rightarrow> scheduler \<Rightarrow> scheduler" where
  "mark_empty i s = s\<lparr>entries := update_first (\<lambda>e. ent_id e = i)
     (\<lambda>e. e\<lparr>ready := False, credit := 0\<rparr>) (entries s)\<rparr>"

definition weight_of :: "entry \<Rightarrow> int" where
  "weight_of e = uint (weight (policy e))"

definition eligible :: "scheduler \<Rightarrow> nat list" where
  "eligible s = filter (\<lambda>i. ready (entries s ! i)) [0..<length (entries s)]"

definition total_weight :: "scheduler \<Rightarrow> int" where
  "total_weight s = sum_list (map (\<lambda>i. weight_of (entries s ! i)) (eligible s))"

text \<open>The loop that credits every eligible entry with its weight.\<close>

definition charge :: "scheduler \<Rightarrow> scheduler" where
  "charge s = s\<lparr>entries := map (\<lambda>e. if ready e then e\<lparr>credit := credit e + weight_of e\<rparr> else e)
     (entries s)\<rparr>"

text \<open>Indices in rotation order from the cursor.\<close>

definition rotation :: "scheduler \<Rightarrow> nat list" where
  "rotation s = map (\<lambda>off. (cursor s + off) mod length (entries s)) [0..<length (entries s)]"

definition pick_index :: "scheduler \<Rightarrow> nat option" where
  "pick_index s = max_by_key (\<lambda>i. credit (entries (charge s) ! i))
     (filter (\<lambda>i. i \<in> set (eligible s)) (rotation s))"

definition pick :: "scheduler \<Rightarrow> string option \<times> scheduler" where
  "pick s =
     (let total = total_weight s; s1 = charge s in
      case pick_index s of
        None \<Rightarrow> (None, s1)
      | Some i \<Rightarrow>
          (let e = entries s1 ! i in
           (Some (ent_id e),
            s1\<lparr>entries := (entries s1)[i := e\<lparr>credit := credit e - total\<rparr>],
               cursor := (i + 1) mod length (entries s1)\<rparr>)))"

text \<open>The subscriptions served by \<open>n\<close> consecutive picks.\<close>

fun pick_n :: "nat \<Rightarrow> scheduler \<Rightarrow> string list \<times> scheduler" where
  "pick_n 0 s = ([], s)"
| "pick_n (Suc n) s =
     (case pick s of
        (None, s') \<Rightarrow> ([], s')
      | (Some i, s') \<Rightarrow> (let (ids, s'') = pick_n n s' in (i # ids, s'')))"

definition sched_wf :: "scheduler \<Rightarrow> bool" where
  "sched_wf s \<longleftrightarrow> distinct (map ent_id (entries s)) \<and>
     (\<forall>e\<in>set (entries s). 0 < weight_of e) \<and>
     (cursor s = 0 \<or> cursor s < length (entries s))"

definition ready_ids :: "scheduler \<Rightarrow> string set" where
  "ready_ids s = ent_id ` {e \<in> set (entries s). ready e}"

definition all_ids :: "scheduler \<Rightarrow> string set" where
  "all_ids s = ent_id ` set (entries s)"

section \<open>One pick\<close>

lemma weight_of_nonneg [simp]: "0 \<le> weight_of e"
  by (simp add: weight_of_def)

lemma entries_charge [simp]: "length (entries (charge s)) = length (entries s)"
  and cursor_charge [simp]: "cursor (charge s) = cursor s"
  by (simp_all add: charge_def)

lemma entries_charge_Nil [simp]: "entries (charge s) = [] \<longleftrightarrow> entries s = []"
  by (simp add: charge_def)

lemma charge_nth:
  "i < length (entries s) \<Longrightarrow> entries (charge s) ! i =
     (let e = entries s ! i in if ready e then e\<lparr>credit := credit e + weight_of e\<rparr> else e)"
  by (simp add: charge_def Let_def)

lemma set_rotation:
  assumes "entries s \<noteq> []" shows "set (rotation s) = {0..<length (entries s)}"
proof -
  let ?n = "length (entries s)"
  have n: "0 < ?n" using assms by simp
  have "i \<in> (\<lambda>off. (cursor s + off) mod ?n) ` {0..<?n}" if i: "i < ?n" for i
  proof (rule image_eqI)
    let ?c = "cursor s mod ?n"
    show "(i + (?n - ?c)) mod ?n \<in> {0..<?n}" using n by simp
    have "?c + (i + (?n - ?c)) = i + ?n" using mod_less_divisor [OF n, of "cursor s"] by linarith
    then have "(?c + (i + (?n - ?c)) mod ?n) mod ?n = i"
      using i by (simp only: mod_add_right_eq) simp
    then show "i = (cursor s + (i + (?n - ?c)) mod ?n) mod ?n"
      by (simp only: mod_add_left_eq)
  qed
  then show ?thesis using n by (auto simp: rotation_def)
qed

lemma mem_eligible: "i \<in> set (eligible s) \<longleftrightarrow> i < length (entries s) \<and> ready (entries s ! i)"
  by (auto simp: eligible_def)

lemma pick_index_Some:
  assumes "pick_index s = Some i"
  shows "i < length (entries s)" and "ready (entries s ! i)"
    and "\<And>j. j < length (entries s) \<Longrightarrow> ready (entries s ! j) \<Longrightarrow>
           credit (entries (charge s) ! j) \<le> credit (entries (charge s) ! i)"
proof -
  have mem: "i \<in> set (filter (\<lambda>i. i \<in> set (eligible s)) (rotation s))"
    using assms unfolding pick_index_def by (rule max_by_key_Some)
  then show i: "i < length (entries s)" and "ready (entries s ! i)"
    by (auto simp: mem_eligible)
  fix j assume "j < length (entries s)" and "ready (entries s ! j)"
  moreover from i have "entries s \<noteq> []" by auto
  ultimately have "j \<in> set (filter (\<lambda>i. i \<in> set (eligible s)) (rotation s))"
    by (simp add: mem_eligible set_rotation)
  with assms show "credit (entries (charge s) ! j) \<le> credit (entries (charge s) ! i)"
    unfolding pick_index_def using max_by_key_Some(2) by fastforce
qed

lemma pick_index_None: "pick_index s = None \<longleftrightarrow> (\<forall>e\<in>set (entries s). \<not> ready e)"
proof (cases "entries s = []")
  case True
  then show ?thesis by (simp add: pick_index_def rotation_def)
next
  case False
  then have "pick_index s = None \<longleftrightarrow> (\<forall>i<length (entries s). \<not> ready (entries s ! i))"
    by (auto simp: pick_index_def filter_empty_conv set_rotation mem_eligible)
  then show ?thesis by (auto simp: all_set_conv_all_nth)
qed

text \<open>What one successful pick does to every entry, by position.\<close>

lemma pick_nth:
  assumes "pick s = (Some k, s')"
  obtains i where "pick_index s = Some i" "i < length (entries s)" "ent_id (entries s ! i) = k"
    "ready (entries s ! i)" "length (entries s') = length (entries s)"
    "cursor s' = (i + 1) mod length (entries s)"
    "\<And>j. j < length (entries s) \<Longrightarrow> entries s' ! j = (entries s ! j)
       \<lparr>credit := credit (entries s ! j) + (if ready (entries s ! j) then weight_of (entries s ! j) else 0)
          - (if j = i then total_weight s else 0)\<rparr>"
proof -
  from assms obtain i where i: "pick_index s = Some i"
    by (auto simp: pick_def Let_def split: option.splits)
  note pi = pick_index_Some [OF i]
  have s': "s' = (charge s)\<lparr>entries := (entries (charge s))
       [i := (entries (charge s) ! i)\<lparr>credit := credit (entries (charge s) ! i) - total_weight s\<rparr>],
       cursor := (i + 1) mod length (entries (charge s))\<rparr>"
    and k: "k = ent_id (entries (charge s) ! i)"
    using assms i by (auto simp: pick_def Let_def)
  show thesis
  proof (rule that [OF i pi(1)])
    show "ent_id (entries s ! i) = k" using k pi(1) by (simp add: charge_nth Let_def)
    show "ready (entries s ! i)" by (rule pi)
    show "length (entries s') = length (entries s)" "cursor s' = (i + 1) mod length (entries s)"
      by (simp_all add: s')
    fix j assume "j < length (entries s)"
    then show "entries s' ! j = (entries s ! j)
       \<lparr>credit := credit (entries s ! j) + (if ready (entries s ! j) then weight_of (entries s ! j) else 0)
          - (if j = i then total_weight s else 0)\<rparr>"
      by (auto simp: s' nth_list_update charge_nth Let_def)
  qed
qed

lemma charge_frame:
  "map ent_id (entries (charge s)) = map ent_id (entries s)"
  "map policy (entries (charge s)) = map policy (entries s)"
  "map ready (entries (charge s)) = map ready (entries s)"
  by (simp_all add: charge_def)

lemma pick_None: "pick s = (None, s') \<Longrightarrow> pick_index s = None \<and> s' = charge s"
  by (auto simp: pick_def Let_def split: option.splits)

lemma pick_frame:
  assumes "pick s = (r, s')"
  shows "map ent_id (entries s') = map ent_id (entries s)"
    and "map policy (entries s') = map policy (entries s)"
    and "map ready (entries s') = map ready (entries s)"
proof -
  have "map ent_id (entries s') = map ent_id (entries s) \<and>
    map policy (entries s') = map policy (entries s) \<and>
    map ready (entries s') = map ready (entries s)"
  proof (cases r)
    case None
    then have "s' = charge s" using assms pick_None by blast
    then show ?thesis by (simp add: charge_frame)
  next
    case (Some k)
    show ?thesis using assms unfolding Some
    proof (rule pick_nth)
      fix i
      assume *: "length (entries s') = length (entries s)"
        "\<And>j. j < length (entries s) \<Longrightarrow> entries s' ! j = (entries s ! j)
         \<lparr>credit := credit (entries s ! j) + (if ready (entries s ! j) then weight_of (entries s ! j) else 0)
          - (if j = i then total_weight s else 0)\<rparr>"
      show ?thesis by (intro conjI map_equality_iff [THEN iffD2]) (simp_all add: *)
    qed
  qed
  then show "map ent_id (entries s') = map ent_id (entries s)"
    and "map policy (entries s') = map policy (entries s)"
    and "map ready (entries s') = map ready (entries s)" by simp_all
qed

lemma pick_wf: "sched_wf s \<Longrightarrow> pick s = (r, s') \<Longrightarrow> sched_wf s'"
proof -
  assume wf: "sched_wf s" and p: "pick s = (r, s')"
  note f = pick_frame [OF p]
  have len: "length (entries s') = length (entries s)" using f(1) by (metis length_map)
  have "map weight_of (entries s') = map weight_of (entries s)"
    using arg_cong [OF f(2), of "map (\<lambda>p. uint (weight p))"]
    by (simp add: weight_of_def [abs_def] comp_def)
  then have "weight_of ` set (entries s') = weight_of ` set (entries s)"
    by (simp flip: set_map)
  then have "\<forall>w\<in>weight_of ` set (entries s'). 0 < w" using wf by (simp add: sched_wf_def)
  then have w: "\<forall>e\<in>set (entries s'). 0 < weight_of e" by blast
  have "cursor s' = 0 \<or> cursor s' < length (entries s')"
  proof (cases r)
    case None
    then have "s' = charge s" using p pick_None by blast
    then show ?thesis using wf by (simp add: sched_wf_def)
  next
    case (Some k)
    obtain i where i: "i < length (entries s)" "cursor s' = (i + 1) mod length (entries s)"
      using p unfolding Some by (rule pick_nth)
    then have "0 < length (entries s)" by auto
    with i show ?thesis by (simp add: len)
  qed
  with wf w f(1) show "sched_wf s'" by (simp add: sched_wf_def)
qed

section \<open>Shares over consecutive picks\<close>

text \<open>
  Quantities that a pick keeps: the weights, the ready set and hence the total weight. The credit
  sum over the ready entries is also kept, and no ready credit falls to minus the total.
\<close>

definition credit_sum :: "scheduler \<Rightarrow> int" where
  "credit_sum s = (\<Sum>i\<in>set (eligible s). credit (entries s ! i))"

definition credits_balanced :: "scheduler \<Rightarrow> bool" where
  "credits_balanced s \<longleftrightarrow> credit_sum s = 0 \<and>
     (\<forall>i\<in>set (eligible s). - total_weight s < credit (entries s ! i))"

lemma distinct_eligible [simp]: "distinct (eligible s)"
  by (simp add: eligible_def)

lemma total_weight_sum: "total_weight s = (\<Sum>i\<in>set (eligible s). weight_of (entries s ! i))"
  by (simp add: total_weight_def sum_list_distinct_conv_sum_set)

lemma frame_nth:
  assumes "pick s = (r, s')" "j < length (entries s)"
  shows "ent_id (entries s' ! j) = ent_id (entries s ! j)"
    "weight_of (entries s' ! j) = weight_of (entries s ! j)"
    "ready (entries s' ! j) = ready (entries s ! j)" "length (entries s') = length (entries s)"
proof -
  note f = pick_frame [OF assms(1)]
  show len: "length (entries s') = length (entries s)" using f(1) by (metis length_map)
  show "ent_id (entries s' ! j) = ent_id (entries s ! j)"
    "weight_of (entries s' ! j) = weight_of (entries s ! j)"
    "ready (entries s' ! j) = ready (entries s ! j)"
    using f assms(2) len by (simp_all add: map_equality_iff weight_of_def)
qed

lemma eligible_pick: "pick s = (r, s') \<Longrightarrow> eligible s' = eligible s"
proof -
  assume p: "pick s = (r, s')"
  have len: "length (entries s') = length (entries s)"
    using pick_frame(1) [OF p] by (metis length_map)
  show ?thesis unfolding eligible_def len by (rule filter_cong) (simp_all add: frame_nth(3) [OF p])
qed

lemma total_weight_pick: "pick s = (r, s') \<Longrightarrow> total_weight s' = total_weight s"
  unfolding total_weight_sum eligible_pick
  by (rule sum.cong) (auto simp: eligible_pick mem_eligible dest: frame_nth(2))

lemma total_weight_pos:
  assumes "sched_wf s" "i \<in> set (eligible s)" shows "0 < total_weight s"
proof -
  have "0 < weight_of (entries s ! j)" if "j \<in> set (eligible s)" for j
    using assms(1) that by (auto simp: sched_wf_def mem_eligible)
  then show ?thesis unfolding total_weight_sum using assms(2) by (intro sum_pos) auto
qed

lemma balanced_pick:
  assumes wf: "sched_wf s" and bal: "credits_balanced s" and p: "pick s = (Some k, s')"
  shows "credits_balanced s'"
proof -
  let ?E = "set (eligible s)" and ?c = "\<lambda>i. credit (entries s ! i)"
  let ?w = "\<lambda>i. weight_of (entries s ! i)" and ?W = "total_weight s"
  obtain i where i: "pick_index s = Some i" "i < length (entries s)" "ready (entries s ! i)"
    and upd: "\<And>j. j < length (entries s) \<Longrightarrow> entries s' ! j = (entries s ! j)
       \<lparr>credit := ?c j + (if ready (entries s ! j) then ?w j else 0) - (if j = i then ?W else 0)\<rparr>"
    using p by (rule pick_nth) blast
  have new: "credit (entries s' ! j) = ?c j + ?w j - (if j = i then ?W else 0)" if "j \<in> ?E" for j
    using that upd by (simp add: mem_eligible)
  have iE: "i \<in> ?E" using i by (simp add: mem_eligible)
  have "credit_sum s' = (\<Sum>j\<in>?E. ?c j + ?w j - (if j = i then ?W else 0))"
    unfolding credit_sum_def eligible_pick [OF p] by (rule sum.cong) (simp_all add: new)
  also have "\<dots> = credit_sum s + ?W - ?W"
    using iE by (simp add: credit_sum_def sum.distrib sum_subtractf sum.delta total_weight_sum)
  finally have sum: "credit_sum s' = 0" using bal by (simp add: credits_balanced_def)
  have max: "?c j + ?w j \<le> ?c i + ?w i" if "j \<in> ?E" for j
    using pick_index_Some(3) [OF i(1), of j] that i by (auto simp: mem_eligible charge_nth Let_def)
  have "0 < ?c i + ?w i"
  proof (rule ccontr)
    assume "\<not> 0 < ?c i + ?w i"
    then have "(\<Sum>j\<in>?E. ?c j + ?w j) \<le> 0" using max by (intro sum_nonpos) force
    moreover have "(\<Sum>j\<in>?E. ?c j + ?w j) = ?W"
      using bal by (simp add: sum.distrib credits_balanced_def credit_sum_def total_weight_sum)
    ultimately show False using total_weight_pos [OF wf iE] by simp
  qed
  moreover have "- ?W < ?c j + ?w j" if "j \<in> ?E" for j
  proof -
    have "- ?W < ?c j" using bal that by (simp add: credits_balanced_def)
    then show ?thesis using weight_of_nonneg [of "entries s ! j"] by linarith
  qed
  ultimately have "\<forall>j\<in>?E. - ?W < credit (entries s' ! j)" by (simp add: new)
  with sum show ?thesis
    by (simp add: credits_balanced_def eligible_pick [OF p] total_weight_pick [OF p])
qed

text \<open>Exact accounting: the credit of a ready entry is what it earned minus what it was charged.\<close>

lemma pick_n_account:
  assumes "sched_wf s" "credits_balanced s" "j \<in> set (eligible s)" "pick_n n s = (ids, s')"
  shows "sched_wf s' \<and> credits_balanced s' \<and> eligible s' = eligible s \<and> total_weight s' = total_weight s
    \<and> length ids = n
    \<and> credit (entries s' ! j) = credit (entries s ! j) + int n * weight_of (entries s ! j)
        - total_weight s * int (count_list ids (ent_id (entries s ! j)))"
  using assms
proof (induction n arbitrary: s ids)
  case 0
  then show ?case by simp
next
  case (Suc n)
  obtain r s1 where p: "pick s = (r, s1)" by (cases "pick s")
  obtain k where r: "r = Some k"
  proof (cases r)
    case None
    with p pick_None have "pick_index s = None" by blast
    then show ?thesis using Suc.prems(3) by (auto simp: pick_index_None mem_eligible)
  qed
  obtain ids1 where n1: "pick_n n s1 = (ids1, s')" and ids: "ids = k # ids1"
    using Suc.prems(4) p r by (auto split: prod.splits)
  obtain i where i: "i < length (entries s)" "ent_id (entries s ! i) = k"
    and upd: "\<And>j. j < length (entries s) \<Longrightarrow> entries s1 ! j = (entries s ! j)
       \<lparr>credit := credit (entries s ! j) + (if ready (entries s ! j) then weight_of (entries s ! j) else 0)
          - (if j = i then total_weight s else 0)\<rparr>"
    using p unfolding r by (rule pick_nth) blast
  have j: "j < length (entries s)" "ready (entries s ! j)" using Suc.prems(3) by (auto simp: mem_eligible)
  have "distinct (map ent_id (entries s))" using Suc.prems(1) by (simp add: sched_wf_def)
  then have ji: "j = i \<longleftrightarrow> k = ent_id (entries s ! j)"
    using i j by (metis length_map nth_eq_iff_index_eq nth_map)
  have IH: "sched_wf s' \<and> credits_balanced s' \<and> eligible s' = eligible s1 \<and>
      total_weight s' = total_weight s1 \<and> length ids1 = n \<and>
      credit (entries s' ! j) = credit (entries s1 ! j) + int n * weight_of (entries s1 ! j)
        - total_weight s1 * int (count_list ids1 (ent_id (entries s1 ! j)))"
    using Suc.prems n1 p r
    by (intro Suc.IH) (auto simp: eligible_pick intro: pick_wf balanced_pick)
  show ?case using IH ji frame_nth(1,2) [OF p j(1)] upd [OF j(1)] j(2)
    by (auto simp: ids eligible_pick [OF p] total_weight_pick [OF p] algebra_simps)
qed

lemma balanced_upper:
  assumes bal: "credits_balanced s" and j: "j \<in> set (eligible s)"
  shows "credit (entries s ! j) \<le> (int (length (eligible s)) - 1) * (total_weight s - 1)"
proof -
  let ?E = "set (eligible s)" and ?c = "\<lambda>i. credit (entries s ! i)"
  have card: "card (?E - {j}) = length (eligible s) - 1" and "0 < length (eligible s)"
    using j by (auto simp: distinct_card intro: length_pos_if_in_set)
  have "- (total_weight s - 1) \<le> ?c i" if "i \<in> ?E" for i
  proof -
    have "- total_weight s < ?c i" using bal that by (simp add: credits_balanced_def)
    then show ?thesis by linarith
  qed
  then have "(\<Sum>i\<in>?E - {j}. - (total_weight s - 1)) \<le> (\<Sum>i\<in>?E - {j}. ?c i)"
    by (intro sum_mono) simp
  moreover have "?c j + (\<Sum>i\<in>?E - {j}. ?c i) = 0"
    using bal sum.remove [OF _ j, of ?c] by (simp add: credits_balanced_def credit_sum_def)
  ultimately show ?thesis using card \<open>0 < length (eligible s)\<close>
    by (simp add: of_nat_diff algebra_simps)
qed

lemma balanced_fresh: "sched_wf s \<Longrightarrow> \<forall>e\<in>set (entries s). credit e = 0 \<Longrightarrow> credits_balanced s"
  using total_weight_pos [of s]
  by (auto simp: credits_balanced_def credit_sum_def mem_eligible intro!: sum.neutral)

lemma pick_n_share:
  assumes wf: "sched_wf s" and bal: "credits_balanced s" and j: "j \<in> set (eligible s)"
    and n: "pick_n n s = (ids, s')"
  shows "length ids = n \<and>
      int n * weight_of (entries s ! j) + credit (entries s ! j)
        - (int (length (eligible s)) - 1) * (total_weight s - 1)
           \<le> total_weight s * int (count_list ids (ent_id (entries s ! j)))
       \<and> total_weight s * int (count_list ids (ent_id (entries s ! j)))
           < int n * weight_of (entries s ! j) + credit (entries s ! j) + total_weight s"
proof -
  note acc = pick_n_account [OF wf bal j n]
  have bal': "credits_balanced s'" and j': "j \<in> set (eligible s')" using acc j by simp_all
  have "- total_weight s' < credit (entries s' ! j)"
    using bal' j' by (simp add: credits_balanced_def)
  moreover have "credit (entries s' ! j) \<le> (int (length (eligible s')) - 1) * (total_weight s' - 1)"
    by (rule balanced_upper [OF bal' j'])
  moreover have "eligible s' = eligible s" "total_weight s' = total_weight s" using acc by simp_all
  ultimately show ?thesis using acc by auto
qed

section \<open>The interface the dispatcher relies on\<close>

text \<open>
  A ready scheduler offers registration, the two readiness transitions and a pick over an
  observable set of registered and of ready keys.
\<close>

locale ready_scheduler =
  fixes reg :: "'k \<Rightarrow> 'p \<Rightarrow> 's \<Rightarrow> 's" and up :: "'k \<Rightarrow> 's \<Rightarrow> 's" and down :: "'k \<Rightarrow> 's \<Rightarrow> 's"
    and next_key :: "'s \<Rightarrow> 'k option \<times> 's" and keys_of :: "'s \<Rightarrow> 'k set" and ready_of :: "'s \<Rightarrow> 'k set"
    and ok :: "'s \<Rightarrow> bool" and ok_policy :: "'p \<Rightarrow> bool"
  assumes reg_ok: "ok s \<Longrightarrow> ok_policy p \<Longrightarrow> ok (reg k p s)"
    and up_ok: "ok s \<Longrightarrow> ok (up k s)"
    and down_ok: "ok s \<Longrightarrow> ok (down k s)"
    and next_ok: "ok s \<Longrightarrow> next_key s = (r, s') \<Longrightarrow> ok s'"
    and reg_keys: "ok s \<Longrightarrow> keys_of (reg k p s) = insert k (keys_of s)"
    and up_keys: "ok s \<Longrightarrow> keys_of (up k s) = keys_of s"
    and down_keys: "ok s \<Longrightarrow> keys_of (down k s) = keys_of s"
    and next_keys: "ok s \<Longrightarrow> next_key s = (r, s') \<Longrightarrow> keys_of s' = keys_of s"
    and reg_ready: "ok s \<Longrightarrow> ready_of (reg k p s) = ready_of s"
    and up_ready: "ok s \<Longrightarrow> ready_of (up k s) = ready_of s \<union> ({k} \<inter> keys_of s)"
    and down_ready: "ok s \<Longrightarrow> ready_of (down k s) = ready_of s - {k}"
    and next_ready: "ok s \<Longrightarrow> next_key s = (r, s') \<Longrightarrow> ready_of s' = ready_of s"
    and next_Some: "ok s \<Longrightarrow> next_key s = (Some k, s') \<Longrightarrow> k \<in> ready_of s"
    and next_None: "ok s \<Longrightarrow> next_key s = (None, s') \<Longrightarrow> ready_of s = {}"
begin

lemma next_iff: "ok s \<Longrightarrow> (fst (next_key s) = None) = (ready_of s = {})"
  using next_None [of s] next_Some [of s]
  by (cases "next_key s"; cases "fst (next_key s)") auto

lemma next_after_up: "ok s \<Longrightarrow> k \<in> keys_of s \<Longrightarrow> fst (next_key (up k s)) \<noteq> None"
  using next_iff [of "up k s"] by (simp add: up_ok up_ready)

text \<open>Serving the picked key and marking it empty removes exactly that key from the ready set.\<close>

lemma next_down_ready:
  "ok s \<Longrightarrow> next_key s = (Some k, s') \<Longrightarrow> ready_of (down k s') = ready_of s - {k} \<and> k \<in> ready_of s"
  using down_ready [of s' k] next_ok [of s] next_ready [of s] next_Some [of s] by auto

end

text \<open>The readiness transitions touch the one entry of that id.\<close>

lemma mark_entries:
  assumes "sched_wf s"
  shows "entries (mark_ready k s) = map (\<lambda>e. if ent_id e = k \<and> \<not> ready e
           then e\<lparr>ready := True, credit := 0\<rparr> else e) (entries s)"
    and "entries (mark_empty k s) = map (\<lambda>e. if ent_id e = k
           then e\<lparr>ready := False, credit := 0\<rparr> else e) (entries s)"
    and "k \<in> all_ids s \<Longrightarrow> entries (register k p s) = map (\<lambda>e. if ent_id e = k
           then e\<lparr>policy := p\<rparr> else e) (entries s)"
    and "k \<notin> all_ids s \<Longrightarrow> entries (register k p s) = entries s @
           [\<lparr>ent_id = k, policy = p, ready = False, credit = 0\<rparr>]"
proof -
  have d: "distinct (map ent_id (entries s))" using assms by (simp add: sched_wf_def)
  show "entries (mark_ready k s) = map (\<lambda>e. if ent_id e = k \<and> \<not> ready e
      then e\<lparr>ready := True, credit := 0\<rparr> else e) (entries s)"
    by (simp add: mark_ready_def update_first_key [OF d] cong: if_cong)
  show "entries (mark_empty k s) = map (\<lambda>e. if ent_id e = k
      then e\<lparr>ready := False, credit := 0\<rparr> else e) (entries s)"
    by (simp add: mark_empty_def update_first_key [OF d])
  show "entries (register k p s) = map (\<lambda>e. if ent_id e = k then e\<lparr>policy := p\<rparr> else e) (entries s)"
    if "k \<in> all_ids s"
    using that by (auto simp: register_def update_first_key [OF d] all_ids_def)
  show "entries (register k p s) = entries s @ [\<lparr>ent_id = k, policy = p, ready = False, credit = 0\<rparr>]"
    if "k \<notin> all_ids s"
    using that by (auto simp: register_def all_ids_def)
qed

lemma ids_mark [simp]:
  "map ent_id (entries (mark_ready k s)) = map ent_id (entries s)"
  "map ent_id (entries (mark_empty k s)) = map ent_id (entries s)"
  by (simp_all add: mark_ready_def mark_empty_def map_update_first)

lemma policies_mark [simp]:
  "map policy (entries (mark_ready k s)) = map policy (entries s)"
  "map policy (entries (mark_empty k s)) = map policy (entries s)"
  by (simp_all add: mark_ready_def mark_empty_def map_update_first)

lemma cursor_mark [simp]:
  "cursor (mark_ready k s) = cursor s" "cursor (mark_empty k s) = cursor s"
  "cursor (register k p s) = cursor s"
  by (simp_all add: mark_ready_def mark_empty_def register_def)

lemma sched_wf_alt:
  "sched_wf s \<longleftrightarrow> distinct (map ent_id (entries s)) \<and>
     (\<forall>p\<in>set (map policy (entries s)). 0 < uint (weight p)) \<and>
     (cursor s = 0 \<or> cursor s < length (map ent_id (entries s)))"
  by (simp add: sched_wf_def weight_of_def)

lemma mark_wf: "sched_wf s \<Longrightarrow> sched_wf (mark_ready k s)" "sched_wf s \<Longrightarrow> sched_wf (mark_empty k s)"
  by (unfold sched_wf_alt ids_mark policies_mark cursor_mark)

lemma all_ids_alt: "all_ids s = set (map ent_id (entries s))"
  by (simp add: all_ids_def)

lemma ids_register:
  "map ent_id (entries (register k p s)) =
     (if k \<in> all_ids s then map ent_id (entries s) else map ent_id (entries s) @ [k])"
  by (auto simp: register_def all_ids_def map_update_first)

lemma register_wf:
  assumes "sched_wf s" "0 < weight p" shows "sched_wf (register k p s)"
proof -
  have "distinct (map ent_id (entries (register k p s)))"
    using assms by (simp only: ids_register) (auto simp: sched_wf_def all_ids_def)
  moreover have "\<forall>e\<in>set (entries (register k p s)). 0 < weight_of e"
    using assms by (cases "k \<in> all_ids s") (auto simp: mark_entries sched_wf_def weight_of_def word_less_def)
  moreover have "length (entries s) \<le> length (entries (register k p s))"
    by (simp add: register_def)
  ultimately show ?thesis using assms(1) unfolding sched_wf_def by fastforce
qed

lemma ready_ids_frame:
  assumes "map ent_id (entries s') = map ent_id (entries s)" "map ready (entries s') = map ready (entries s)"
  shows "ready_ids s' = ready_ids s"
proof -
  have alt: "ready_ids s = {k. (k, True) \<in> set (zip (map ent_id (entries s)) (map ready (entries s)))}" for s
    by (auto simp: ready_ids_def zip_map_map zip_same_conv_map)
  show ?thesis unfolding alt assms ..
qed

lemma ready_ids_map:
  "entries s' = map f (entries s) \<Longrightarrow> ready_ids s' = (\<lambda>e. ent_id (f e)) ` {e \<in> set (entries s). ready (f e)}"
  by (auto simp: ready_ids_def)

lemma ready_ids_ops:
  assumes wf: "sched_wf s"
  shows "ready_ids (register k p s) = ready_ids s"
    and "ready_ids (mark_ready k s) = ready_ids s \<union> ({k} \<inter> all_ids s)"
    and "ready_ids (mark_empty k s) = ready_ids s - {k}"
proof -
  show "ready_ids (register k p s) = ready_ids s"
  proof (cases "k \<in> all_ids s")
    case True
    have "map ready (entries (register k p s)) = map ready (entries s)"
      by (auto simp: mark_entries(3) [OF wf True])
    then show ?thesis by (intro ready_ids_frame) (simp_all only: ids_register True if_True)
  next
    case False
    then show ?thesis by (auto simp: ready_ids_def mark_entries(4) [OF wf])
  qed
  show "ready_ids (mark_ready k s) = ready_ids s \<union> ({k} \<inter> all_ids s)"
  proof -
    have "ent_id (if ent_id e = k \<and> \<not> ready e then e\<lparr>ready := True, credit := 0\<rparr> else e) = ent_id e"
      "ready (if ent_id e = k \<and> \<not> ready e then e\<lparr>ready := True, credit := 0\<rparr> else e) \<longleftrightarrow>
        ready e \<or> ent_id e = k" for e :: entry by auto
    then have "ready_ids (mark_ready k s) = ent_id ` {e \<in> set (entries s). ready e \<or> ent_id e = k}"
      by (simp only: ready_ids_map [OF mark_entries(1) [OF wf]])
    then show ?thesis by (auto simp: ready_ids_def all_ids_def)
  qed
  show "ready_ids (mark_empty k s) = ready_ids s - {k}"
  proof -
    have "ent_id (if ent_id e = k then e\<lparr>ready := False, credit := 0\<rparr> else e) = ent_id e"
      "ready (if ent_id e = k then e\<lparr>ready := False, credit := 0\<rparr> else e) \<longleftrightarrow>
        ready e \<and> ent_id e \<noteq> k" for e :: entry by simp_all
    then have "ready_ids (mark_empty k s) = ent_id ` {e \<in> set (entries s). ready e \<and> ent_id e \<noteq> k}"
      by (simp only: ready_ids_map [OF mark_entries(2) [OF wf]])
    then show ?thesis by (auto simp: ready_ids_def)
  qed
qed

interpretation wfs: ready_scheduler register mark_ready mark_empty pick all_ids ready_ids sched_wf
  "\<lambda>p. 0 < weight p"
proof
  fix s :: scheduler and k :: string and p :: subscription_policy and r s'
  assume wf: "sched_wf s"
  show "0 < weight p \<Longrightarrow> sched_wf (register k p s)" using wf by (rule register_wf)
  show "sched_wf (mark_ready k s)" "sched_wf (mark_empty k s)" using wf by (simp_all add: mark_wf)
  show "all_ids (mark_ready k s) = all_ids s" "all_ids (mark_empty k s) = all_ids s"
    by (simp_all only: all_ids_alt ids_mark)
  show "all_ids (register k p s) = insert k (all_ids s)"
    by (simp only: all_ids_alt ids_register) (auto simp: all_ids_alt)
  show "ready_ids (register k p s) = ready_ids s"
    "ready_ids (mark_ready k s) = ready_ids s \<union> ({k} \<inter> all_ids s)"
    "ready_ids (mark_empty k s) = ready_ids s - {k}"
    by (rule ready_ids_ops [OF wf])+
  assume p: "pick s = (r, s')"
  show "sched_wf s'" using wf p by (rule pick_wf)
  show "all_ids s' = all_ids s" by (simp only: all_ids_alt pick_frame [OF p])
  show "ready_ids s' = ready_ids s" by (rule ready_ids_frame) (rule pick_frame [OF p])+
next
  fix s k s'
  show "pick s = (Some k, s') \<Longrightarrow> k \<in> ready_ids s"
    by (erule pick_nth) (auto simp: ready_ids_def)
next
  fix s s'
  assume "pick s = (None, s')"
  then show "ready_ids s = {}" using pick_None pick_index_None by (fastforce simp: ready_ids_def)
qed

section \<open>No starvation while the others come and go\<close>

text \<open>What the consumer does with a scheduler once the subscriptions are registered: any sequence of
  readiness changes and picks. The run collects the subscriptions that were served.\<close>

datatype sched_event = BecomesReady string | BecomesEmpty string | Picks

fun sched_run :: "sched_event list \<Rightarrow> scheduler \<Rightarrow> string list" where
  "sched_run [] s = []"
| "sched_run (BecomesReady k # es) s = sched_run es (mark_ready k s)"
| "sched_run (BecomesEmpty k # es) s = sched_run es (mark_empty k s)"
| "sched_run (Picks # es) s =
     (case pick s of (None, s') \<Rightarrow> sched_run es s' | (Some k, s') \<Rightarrow> k # sched_run es s')"

text \<open>The credit that the other subscriptions could spend before the one at position \<open>j\<close>, and the weight of
  all registered subscriptions, ready or not.\<close>

definition others_credit :: "nat \<Rightarrow> scheduler \<Rightarrow> int" where
  "others_credit j s = (\<Sum>i\<in>{0..<length (entries s)} - {j}. max 0 (credit (entries s ! i)))"

definition registered_weight :: "scheduler \<Rightarrow> int" where
  "registered_weight s = (\<Sum>i\<in>{0..<length (entries s)}. weight_of (entries s ! i))"

lemma others_credit_nonneg [simp]: "0 \<le> others_credit j s"
  unfolding others_credit_def by (intro sum_nonneg) simp

lemma registered_weight_nonneg [simp]: "0 \<le> registered_weight s"
  unfolding registered_weight_def by (intro sum_nonneg) simp

lemma registered_weight_alt: "registered_weight s = sum_list (map (\<lambda>p. uint (weight p)) (map policy (entries s)))"
  by (simp add: registered_weight_def sum_list_sum_nth weight_of_def)

lemma total_le_registered: "total_weight s \<le> registered_weight s"
  unfolding total_weight_sum registered_weight_def by (rule sum_mono2) (auto simp: mem_eligible)

text \<open>A pick that serves another subscription earns the waiting one its weight. It costs the others as much in
  total once the waiting one has a full round of credit, and never gives them more than a round.\<close>

lemma pick_waiting:
  assumes wf: "sched_wf s" and j: "j < length (entries s)" "ready (entries s ! j)"
    and p: "pick s = (Some k, s')" and other: "k \<noteq> ent_id (entries s ! j)"
  defines "w \<equiv> weight_of (entries s ! j)" and "c \<equiv> credit (entries s ! j)" and "T \<equiv> registered_weight s"
  shows "credit (entries s' ! j) = c + w"
    and "T \<le> c + w \<Longrightarrow> others_credit j s' \<le> others_credit j s - w"
    and "others_credit j s' \<le> others_credit j s + T - w"
proof -
  let ?O = "{0..<length (entries s)} - {j}" and ?W = "total_weight s" and ?c = "\<lambda>m. credit (entries s ! m)"
  let ?r = "\<lambda>m. if ready (entries s ! m) then weight_of (entries s ! m) else 0"
  obtain i where i: "pick_index s = Some i" "i < length (entries s)" "ent_id (entries s ! i) = k" "ready (entries s ! i)"
    and len: "length (entries s') = length (entries s)"
    and upd: "\<And>m. m < length (entries s) \<Longrightarrow> entries s' ! m = (entries s ! m)
       \<lparr>credit := ?c m + ?r m - (if m = i then ?W else 0)\<rparr>"
    using p by (rule pick_nth) blast
  have ij: "i \<noteq> j" using i(3) other by blast
  show "credit (entries s' ! j) = c + w" using upd [OF j(1)] ij j by (simp add: c_def w_def)
  have P': "others_credit j s' = (\<Sum>m\<in>?O. max 0 (?c m + ?r m - (if m = i then ?W else 0)))"
    unfolding others_credit_def len by (rule sum.cong) (simp_all add: upd)
  have "(\<Sum>m\<in>{0..<length (entries s)}. ?r m) = ?W"
    unfolding total_weight_sum by (rule sum.mono_neutral_cong_right) (auto simp: mem_eligible)
  moreover have "(\<Sum>m\<in>{0..<length (entries s)}. ?r m) = w + (\<Sum>m\<in>?O. ?r m)"
    using j by (simp add: w_def sum.remove)
  ultimately have rest: "(\<Sum>m\<in>?O. ?r m) = ?W - w" by simp
  have "0 \<le> ?W" unfolding total_weight_sum by (intro sum_nonneg) simp
  then have "others_credit j s' \<le> (\<Sum>m\<in>?O. max 0 (?c m) + ?r m)"
    unfolding P' by (intro sum_mono) auto
  also have "\<dots> = others_credit j s + (?W - w)" by (simp only: sum.distrib rest others_credit_def)
  finally show "others_credit j s' \<le> others_credit j s + T - w"
    using total_le_registered [of s] by (simp add: T_def)
  show "others_credit j s' \<le> others_credit j s - w" if full: "T \<le> c + w"
  proof -
    have "?c j + ?r j \<le> ?c i + ?r i"
      using pick_index_Some(3) [OF i(1), of j] j i by (auto simp: charge_nth Let_def)
    then have "?W \<le> ?c i + ?r i" using full j total_le_registered [of s] by (simp add: T_def c_def w_def)
    then have "others_credit j s' \<le> (\<Sum>m\<in>?O. max 0 (?c m) + ?r m - (if m = i then ?W else 0))"
      unfolding P' by (intro sum_mono) auto
    also have "\<dots> = others_credit j s + (?W - w) - ?W"
      using i(2) ij by (simp only: sum.distrib sum_subtractf rest others_credit_def) simp
    finally show ?thesis by simp
  qed
qed

text \<open>What the readiness changes of the others leave as it is, and what they can only lower.\<close>

lemma mark_nth:
  assumes "sched_wf s" and "m < length (entries s)"
  shows "entries (mark_ready k s) ! m = (let e = entries s ! m in if ent_id e = k \<and> \<not> ready e then e\<lparr>ready := True, credit := 0\<rparr> else e)"
    and "entries (mark_empty k s) ! m = (let e = entries s ! m in if ent_id e = k then e\<lparr>ready := False, credit := 0\<rparr> else e)"
  using assms by (simp_all add: mark_entries Let_def)

lemma mark_others_credit:
  assumes "sched_wf s"
  shows "others_credit j (mark_ready k s) \<le> others_credit j s" "others_credit j (mark_empty k s) \<le> others_credit j s"
proof -
  have len: "length (entries (mark_ready k s)) = length (entries s)" "length (entries (mark_empty k s)) = length (entries s)"
    using assms by (simp_all add: mark_entries)
  show "others_credit j (mark_ready k s) \<le> others_credit j s" "others_credit j (mark_empty k s) \<le> others_credit j s"
    unfolding others_credit_def len using assms by (intro sum_mono; auto simp: mark_nth Let_def)+
qed

lemma registered_weight_ops:
  "registered_weight (mark_ready k s) = registered_weight s" "registered_weight (mark_empty k s) = registered_weight s"
  "pick s = (r, s') \<Longrightarrow> registered_weight s' = registered_weight s"
  unfolding registered_weight_alt by (simp_all only: policies_mark pick_frame(2))

lemma unserved_bound:
  assumes "sched_wf s" "j < length (entries s)" "ready (entries s ! j)" "k = ent_id (entries s ! j)" "w = weight_of (entries s ! j)"
    and "BecomesEmpty k \<notin> set es" "k \<notin> set (sched_run es s)"
  shows "int (count_list es Picks) * w * w \<le>
    others_credit j s * w + registered_weight s * max 0 (registered_weight s - credit (entries s ! j))"
  using assms
proof (induction es arbitrary: s)
  case Nil
  then show ?case by simp
next
  case (Cons e es)
  note wf = Cons.prems(1) and j = Cons.prems(2,3) and w = Cons.prems(5)
  have w0: "0 \<le> w" using w by simp
  show ?case
  proof (cases e)
    case (BecomesReady k')
    let ?s = "mark_ready k' s"
    have "int (count_list es Picks) * w * w \<le>
        others_credit j ?s * w + registered_weight ?s * max 0 (registered_weight ?s - credit (entries ?s ! j))"
      using Cons BecomesReady
      by (intro Cons.IH) (auto simp: mark_wf mark_nth Let_def mark_entries weight_of_def)
    moreover have "others_credit j ?s * w \<le> others_credit j s * w"
      by (rule mult_right_mono [OF mark_others_credit(1) [OF wf] w0])
    moreover have "credit (entries ?s ! j) = credit (entries s ! j)" using wf j by (simp add: mark_nth Let_def)
    ultimately show ?thesis by (simp add: BecomesReady registered_weight_ops)
  next
    case (BecomesEmpty k')
    let ?s = "mark_empty k' s"
    have ne: "k' \<noteq> k" using Cons.prems(6) BecomesEmpty by auto
    have "int (count_list es Picks) * w * w \<le>
        others_credit j ?s * w + registered_weight ?s * max 0 (registered_weight ?s - credit (entries ?s ! j))"
      using Cons BecomesEmpty ne
      by (intro Cons.IH) (auto simp: mark_wf mark_nth Let_def mark_entries weight_of_def)
    moreover have "others_credit j ?s * w \<le> others_credit j s * w"
      by (rule mult_right_mono [OF mark_others_credit(2) [OF wf] w0])
    moreover have "credit (entries ?s ! j) = credit (entries s ! j)" using wf j ne Cons.prems(4) by (simp add: mark_nth Let_def)
    ultimately show ?thesis by (simp add: BecomesEmpty registered_weight_ops)
  next
    case Picks
    obtain r s' where p: "pick s = (r, s')" by (cases "pick s")
    obtain k' where r: "r = Some k'"
    proof (cases r)
      case None
      with p pick_None have "pick_index s = None" by blast
      then show ?thesis using j by (auto simp: pick_index_None)
    qed
    have ne: "k' \<noteq> ent_id (entries s ! j)" using Cons.prems(4,7) p r Picks by auto
    note frame = frame_nth [OF p j(1)]
    let ?T = "registered_weight s" and ?P = "others_credit j s" and ?P' = "others_credit j s'" and ?c = "credit (entries s ! j)"
    note wait = pick_waiting [OF wf j p [unfolded r] ne, folded w]
    have IH: "int (count_list es Picks) * w * w \<le> ?P' * w + ?T * max 0 (?T - (?c + w))"
      using Cons.IH [of s'] Cons.prems p r Picks frame pick_wf [OF wf p] registered_weight_ops(3) [OF p] wait(1) by simp
    have "?P' * w + ?T * max 0 (?T - (?c + w)) + w * w \<le> ?P * w + ?T * max 0 (?T - ?c)"
    proof (cases "?T \<le> ?c + w")
      case True
      have "?P' * w \<le> (?P - w) * w" by (rule mult_right_mono [OF wait(2) [OF True] w0])
      moreover have "0 \<le> ?T * max 0 (?T - ?c)" "?T * max 0 (?T - (?c + w)) = 0"
        using True by simp_all
      ultimately show ?thesis unfolding left_diff_distrib by linarith
    next
      case False
      have "?P' * w \<le> (?P + ?T - w) * w" by (rule mult_right_mono [OF wait(3) w0])
      moreover have "max 0 (?T - (?c + w)) = ?T - ?c - w" "max 0 (?T - ?c) = ?T - ?c" using False w0 by auto
      ultimately show ?thesis by (simp add: algebra_simps)
    qed
    with IH show ?thesis by (simp add: Picks algebra_simps)
  qed
qed

section \<open>Properties\<close>

definition demo_sched :: scheduler where
  "demo_sched = mark_ready ''b'' (mark_ready ''a''
     (register ''c'' \<lparr>weight = 5\<rparr> (register ''b'' \<lparr>weight = 1\<rparr>
       (register ''a'' \<lparr>weight = 2\<rparr> scheduler_default))))"

text \<open>(C16) Weighted fairness. Starting from zero credits, while the ready set does not change, after
  \<open>n\<close> picks exactly \<open>n\<close> subscriptions were served, and a ready subscription of weight \<open>w\<close> among \<open>N\<close>
  ready ones of total weight \<open>W\<close> was served a number of times \<open>c\<close> with
  \<open>n w - (N - 1) (W - 1) \<le> W c < n w + W\<close>: its share never drifts from its weight by more than
  a constant that does not depend on \<open>n\<close>.\<close>

theorem weighted_fair_share:
  assumes "sched_wf s" "\<forall>e\<in>set (entries s). credit e = 0"
    and "j < length (entries s)" "ready (entries s ! j)" "pick_n n s = (ids, s')"
  shows "length ids = n \<and>
      int n * weight_of (entries s ! j) - (int (length (eligible s)) - 1) * (total_weight s - 1)
           \<le> total_weight s * int (count_list ids (ent_id (entries s ! j)))
       \<and> total_weight s * int (count_list ids (ent_id (entries s ! j)))
           < int n * weight_of (entries s ! j) + total_weight s"
  using pick_n_share [OF assms(1) balanced_fresh [OF assms(1,2)] _ assms(5), of j] assms(2-4)
  by (simp add: mem_eligible)

lemma demo_sched_facts:
  "sched_wf demo_sched" "\<forall>e\<in>set (entries demo_sched). credit e = 0"
  "0 < length (entries demo_sched)" "ready (entries demo_sched ! 0)"
  "weight_of (entries demo_sched ! 0) = 2" "ent_id (entries demo_sched ! 0) = ''a''"
  "length (eligible demo_sched) = 2" "total_weight demo_sched = 3"
  "sched_wf (mark_ready ''c'' demo_sched)" "''c'' \<in> all_ids demo_sched"
  by code_simp+

theorem weighted_fair_share_witness:
  "6 - 2 \<le> 3 * int (count_list (fst (pick_n 3 demo_sched)) ''a'') \<and>
   3 * int (count_list (fst (pick_n 3 demo_sched)) ''a'') < 6 + 3"
  using weighted_fair_share [OF demo_sched_facts(1-4) prod.collapse [symmetric], of 3]
  by (simp add: demo_sched_facts)


definition demo_churn :: "sched_event list" where
  "demo_churn = concat (replicate 17 [Picks, BecomesEmpty ''b'', BecomesReady ''c'', BecomesReady ''b''])"


text \<open>A pick serves a ready subscription whenever there is one, and returns nothing exactly when
  none is ready; it changes neither the registered nor the ready set. In particular the pick after
  a registered subscription was marked ready always serves something.\<close>

lemma pick_serves_ready:
  assumes "sched_wf s"
  shows "(case pick s of
      (None, s') \<Rightarrow> ready_ids s = {} \<and> ready_ids s' = {} \<and> all_ids s' = all_ids s
    | (Some k, s') \<Rightarrow> k \<in> ready_ids s \<and> ready_ids s' = ready_ids s \<and> all_ids s' = all_ids s)
    \<and> (k \<in> all_ids s \<longrightarrow> fst (pick (mark_ready k s)) \<noteq> None)"
  using wfs.next_None [OF assms] wfs.next_Some [OF assms] wfs.next_ready [OF assms]
    wfs.next_keys [OF assms] wfs.next_after_up [OF assms, of k]
  by (auto split: prod.splits option.splits)

end
