(* ===== verification/Transport.thy ===== *)
theory Transport
  imports Prelude
begin

text \<open>
  The transport boundary of \<^verbatim>\<open>transport.rs\<close>: header values, classified errors, the topology and
  publish data passed to a channel, and the channel traits. A trait object is a record of
  operations over a broker state \<open>'e\<close>: every awaited call returns its result and the next state
  of the broker, which is a parameter of all clients.
\<close>

section \<open>Header values\<close>

type_synonym header_float = u64

text \<open>A double is represented by its bits; it is finite when its exponent bits are not all ones.\<close>

definition header_float_new :: "u64 \<Rightarrow> header_float option" where
  "header_float_new b = (if drop_bit 52 (take_bit 63 b) \<noteq> 2047 then Some b else None)"

datatype header_value =
    Void
  | Boolean bool
  | Integer i64
  | Double header_float
  | Binary bytes
  | ArrayValue "header_value list"
  | TableValue "(string \<times> header_value) list"
  | Decimal u8 u32

type_synonym headers = "(string \<times> header_value) list"

section \<open>Errors\<close>

datatype transport_error_kind =
  Authentication | Configuration | Connection | Protocol | ClosedKind

record transport_error =
  te_kind :: transport_error_kind
  te_message :: string
  te_protocol_code :: "u16 option"

definition transport_error_new :: "transport_error_kind \<Rightarrow> string \<Rightarrow> transport_error" where
  "transport_error_new k m = \<lparr>te_kind = k, te_message = m, te_protocol_code = None\<rparr>"

definition te_authentication :: "string \<Rightarrow> transport_error" where
  "te_authentication = transport_error_new Authentication"

definition te_config :: "string \<Rightarrow> transport_error" where
  "te_config = transport_error_new Configuration"

definition te_connection :: "string \<Rightarrow> transport_error" where
  "te_connection = transport_error_new Connection"

definition te_protocol :: "string \<Rightarrow> transport_error" where
  "te_protocol = transport_error_new Protocol"

definition te_protocol_with_code :: "u16 \<Rightarrow> string \<Rightarrow> transport_error" where
  "te_protocol_with_code c m = \<lparr>te_kind = Protocol, te_message = m, te_protocol_code = Some c\<rparr>"

definition te_closed :: "string \<Rightarrow> transport_error" where
  "te_closed = transport_error_new ClosedKind"

definition is_recoverable :: "transport_error \<Rightarrow> bool" where
  "is_recoverable e \<longleftrightarrow> te_kind e = Connection \<or> te_kind e = ClosedKind"

section \<open>Topology data\<close>

datatype queue_kind = Classic | Quorum

record queue_spec =
  q_name :: string
  q_durable :: bool
  q_exclusive :: bool
  q_auto_delete :: bool
  q_kind :: queue_kind
  q_dead_letter_exchange :: "string option"
  q_dead_letter_routing_key :: "string option"
  q_message_ttl :: "duration option"
  q_expires :: "duration option"
  q_delivery_limit :: "u32 option"
  q_arguments :: headers

datatype exchange_kind = Direct | Fanout | Topic | HeadersExchange | Delayed exchange_kind

fun amqp_type_name :: "exchange_kind \<Rightarrow> string" where
  "amqp_type_name Direct = ''direct''"
| "amqp_type_name Fanout = ''fanout''"
| "amqp_type_name Topic = ''topic''"
| "amqp_type_name HeadersExchange = ''headers''"
| "amqp_type_name (Delayed _) = ''x-delayed-message''"

record exchange_spec =
  x_name :: string
  x_kind :: exchange_kind
  x_durable :: bool
  x_auto_delete :: bool
  x_internal :: bool
  x_arguments :: headers

record binding_spec =
  b_queue :: string
  b_exchange :: string
  b_routing_key :: string

section \<open>Publications and deliveries\<close>

record publish_properties =
  pp_content_type :: "string option"
  pp_correlation_id :: "string option"
  pp_message_id :: "string option"
  pp_delay_ms :: "u64 option"
  pp_headers :: headers
  pp_persistent :: bool

definition publish_properties_default :: publish_properties where
  "publish_properties_default = \<lparr>pp_content_type = None, pp_correlation_id = None,
     pp_message_id = None, pp_delay_ms = None, pp_headers = [], pp_persistent = True\<rparr>"

record publish_request =
  pr_exchange :: string
  pr_routing_key :: string
  pr_payload :: bytes
  pr_mandatory :: bool
  pr_properties :: publish_properties

record returned_message =
  rm_reply_code :: u16
  rm_reply_text :: string
  rm_exchange :: string
  rm_routing_key :: string
  rm_payload :: bytes

datatype publish_confirmation =
    Ack "returned_message option"
  | Nack "returned_message option"
  | NotRequested

record delivery =
  d_delivery_tag :: u64
  d_exchange :: string
  d_routing_key :: string
  d_redelivered :: bool
  d_message_id :: "string option"
  d_correlation_id :: "string option"
  d_headers :: headers
  d_payload :: bytes

datatype transport_event = ErrorEvent transport_error | Blocked string | Unblocked

section \<open>Channels\<close>

type_synonym 'a transport_result = "transport_error + 'a"

record 'e topology_channel =
  declare_exchange :: "exchange_spec \<Rightarrow> 'e \<Rightarrow> unit transport_result \<times> 'e"
  verify_exchange :: "exchange_spec \<Rightarrow> 'e \<Rightarrow> unit transport_result \<times> 'e"
  declare_queue :: "queue_spec \<Rightarrow> 'e \<Rightarrow> unit transport_result \<times> 'e"
  verify_queue :: "queue_spec \<Rightarrow> 'e \<Rightarrow> unit transport_result \<times> 'e"
  bind_queue :: "binding_spec \<Rightarrow> 'e \<Rightarrow> unit transport_result \<times> 'e"
  queue_size :: "string \<Rightarrow> 'e \<Rightarrow> u32 transport_result \<times> 'e"
  delete_queue :: "string \<Rightarrow> 'e \<Rightarrow> unit transport_result \<times> 'e"

text \<open>A call awaited with \<^verbatim>\<open>?\<close>: the continuation runs on success, the error is returned otherwise.\<close>

definition await_try :: "('e \<Rightarrow> ('x + 'a) \<times> 'e) \<Rightarrow> ('a \<Rightarrow> 'e \<Rightarrow> ('x + 'b) \<times> 'e) \<Rightarrow> 'e \<Rightarrow> ('x + 'b) \<times> 'e" where
  "await_try m f e = (case m e of (Inl x, e') \<Rightarrow> (Inl x, e') | (Inr a, e') \<Rightarrow> f a e')"

text \<open>A \<^verbatim>\<open>for\<close> loop whose body awaits with \<^verbatim>\<open>?\<close>: it stops at the first error.\<close>

fun for_await :: "('a \<Rightarrow> 'e \<Rightarrow> ('x + unit) \<times> 'e) \<Rightarrow> 'a list \<Rightarrow> 'e \<Rightarrow> ('x + unit) \<times> 'e" where
  "for_await f [] e = (Inr (), e)"
| "for_await f (x # xs) e = await_try (f x) (\<lambda>_. for_await f xs) e"

lemma await_try_Inr:
  "await_try m f e = (Inr b, e') \<longleftrightarrow> (\<exists>a e1. m e = (Inr a, e1) \<and> f a e1 = (Inr b, e'))"
  by (auto simp: await_try_def split: prod.splits sum.splits)

lemma await_try_cong_Inr: "m e = (Inr a, e1) \<Longrightarrow> await_try m f e = f a e1"
  by (simp add: await_try_def)

lemma await_try_Inl: "m e = (Inl x, e1) \<Longrightarrow> await_try m f e = (Inl x, e1)"
  by (simp add: await_try_def)

lemma for_await_ok:
  assumes "\<forall>x e. \<exists>e'. f x e = (Inr (), e')"
  shows "\<exists>e'. for_await f xs e = (Inr (), e')"
proof (induction xs arbitrary: e)
  case (Cons x xs)
  obtain e1 where "f x e = (Inr (), e1)" using assms by blast
  with Cons.IH show ?case by (simp add: await_try_cong_Inr)
qed simp

end
