(* ===== verification/Attempts.thy ===== *)
theory Attempts
  imports Transport
begin

text \<open>
  Attempt counting of \<^verbatim>\<open>consumer/attempts.rs\<close>: the number of the current delivery attempt is read
  from broker counters and from the application header that a delayed release carries, and is
  checked against an inclusive cap. Headers are a \<^verbatim>\<open>BTreeMap\<close>, an association list sorted by key.
\<close>

section \<open>Model\<close>

definition APPLICATION_ATTEMPTS_HEADER :: string where
  "APPLICATION_ATTEMPTS_HEADER = ''x-rabbit-rs-attempts''"

definition ACQUIRED_COUNT_HEADER :: string where
  "ACQUIRED_COUNT_HEADER = ''x-acquired-count''"

definition DELIVERY_COUNT_HEADER :: string where
  "DELIVERY_COUNT_HEADER = ''x-delivery-count''"

definition DEFAULT_MAX_ATTEMPTS :: u32 where
  "DEFAULT_MAX_ATTEMPTS = 20"

record attempts_resolver =
  max_attempts :: "u32 option"

definition attempts_resolver_default :: attempts_resolver where
  "attempts_resolver_default = \<lparr>max_attempts = Some DEFAULT_MAX_ATTEMPTS\<rparr>"

definition with_max_attempts :: "u32 option \<Rightarrow> attempts_resolver \<Rightarrow> attempts_resolver" where
  "with_max_attempts m r = r\<lparr>max_attempts := m\<rparr>"

datatype attempts_error_kind = MaxAttempts

record attempts_error =
  ae_kind :: attempts_error_kind
  ae_attempts :: u32
  ae_max_attempts :: "u32 option"

definition validate_attempts :: "attempts_resolver \<Rightarrow> u32 \<Rightarrow> attempts_error + u32" where
  "validate_attempts r a =
     (if (case max_attempts r of None \<Rightarrow> False | Some m \<Rightarrow> a > m)
      then Inl \<lparr>ae_kind = MaxAttempts, ae_attempts = a, ae_max_attempts = max_attempts r\<rparr>
      else Inr a)"

text \<open>
  \<^verbatim>\<open>str::parse::<u32>\<close>: an optional plus sign and at least one decimal digit, every partial value
  within 32 bits. Whatever it accepts is ASCII, so the preceding \<^verbatim>\<open>from_utf8\<close> succeeds on it.
\<close>

fun parse_digits :: "int \<Rightarrow> bytes \<Rightarrow> int option" where
  "parse_digits acc [] = Some acc"
| "parse_digits acc (b # bs) =
     (if 48 \<le> b \<and> b \<le> 57 \<and> acc * 10 + uint (b - 48) < 2 ^ 32
      then parse_digits (acc * 10 + uint (b - 48)) bs else None)"

definition parse_u32 :: "bytes \<Rightarrow> u32 option" where
  "parse_u32 bs =
     (let ds = (case bs of b # rest \<Rightarrow> if b = 43 then rest else bs | [] \<Rightarrow> []) in
      if ds = [] then None else map_option of_int (parse_digits 0 ds))"

text \<open>\<^verbatim>\<open>u32::try_from(i64)\<close>\<close>

definition u32_of_i64 :: "i64 \<Rightarrow> u32 option" where
  "u32_of_i64 v = (if 0 \<le> sint v \<and> sint v < 2 ^ 32 then Some (ucast v) else None)"

definition header_count :: "headers \<Rightarrow> string \<Rightarrow> u32 option" where
  "header_count hs name =
     (case map_of hs name of
        Some (Integer v) \<Rightarrow> u32_of_i64 v
      | Some (Binary bs) \<Rightarrow> parse_u32 bs
      | _ \<Rightarrow> None)"

definition resolve :: "attempts_resolver \<Rightarrow> headers \<Rightarrow> bool \<Rightarrow> attempts_error + u32" where
  "resolve r hs redelivered =
     (let acquired = map_option (\<lambda>v. max v 1) (header_count hs ACQUIRED_COUNT_HEADER);
          failed_deliveries = map_option (\<lambda>v. sat_add v 1) (header_count hs DELIVERY_COUNT_HEADER);
          broker_attempts = (case acquired of Some v \<Rightarrow> v | None \<Rightarrow>
            (case failed_deliveries of Some v \<Rightarrow> v | None \<Rightarrow> if redelivered then 2 else 1));
          application_attempts = (case header_count hs APPLICATION_ATTEMPTS_HEADER of Some v \<Rightarrow> v | None \<Rightarrow> 1)
      in validate_attempts r (max (max broker_attempts application_attempts) 1))"

definition delayed_headers :: "attempts_resolver \<Rightarrow> headers \<Rightarrow> u32 \<Rightarrow> attempts_error + headers" where
  "delayed_headers r hs attempts =
     bind_res (validate_attempts r (sat_add attempts 1)) (\<lambda>next_attempt.
       Inr (bt_insert APPLICATION_ATTEMPTS_HEADER (Integer (ucast next_attempt))
         (bt_remove DELIVERY_COUNT_HEADER (bt_remove ACQUIRED_COUNT_HEADER hs))))"

text \<open>One delayed retry: the attempt is resolved and the message is republished with its headers.\<close>

definition retry_headers :: "attempts_resolver \<Rightarrow> headers \<Rightarrow> bool \<Rightarrow> attempts_error + headers" where
  "retry_headers r hs redelivered = bind_res (resolve r hs redelivered) (delayed_headers r hs)"

fun retry_chain :: "attempts_resolver \<Rightarrow> nat \<Rightarrow> headers \<Rightarrow> attempts_error + headers" where
  "retry_chain r 0 hs = Inr hs"
| "retry_chain r (Suc n) hs = bind_res (retry_headers r hs False) (retry_chain r n)"

section \<open>Lemmas\<close>

lemmas header_names = APPLICATION_ATTEMPTS_HEADER_def ACQUIRED_COUNT_HEADER_def DELIVERY_COUNT_HEADER_def

lemma attempts_Inr:
  "validate_attempts r a = Inr b \<longleftrightarrow> b = a \<and> (\<forall>m. max_attempts r = Some m \<longrightarrow> a \<le> m)"
  by (auto simp: validate_attempts_def not_less split: option.splits)

lemma attempts_Inl:
  "validate_attempts r a = Inl e \<longleftrightarrow> (\<exists>m. max_attempts r = Some m \<and> m < a \<and>
     e = \<lparr>ae_kind = MaxAttempts, ae_attempts = a, ae_max_attempts = Some m\<rparr>)"
  by (auto simp: validate_attempts_def split: option.splits)

lemma u32_of_i64_ucast [simp]: "u32_of_i64 (ucast (v :: u32)) = Some v"
proof -
  have "uint v < 2 ^ 32" using uint_lt2p [of v] by simp
  moreover from this have "signed_take_bit 63 (uint v) = uint v"
    by (intro signed_take_bit_int_eq_self) (rule order_trans [of _ 0], simp_all)
  ultimately have "sint (ucast v :: i64) = uint v"
    by (simp add: sint_uint unsigned_ucast_eq take_bit_int_eq_self)
  moreover have "(ucast (ucast v :: i64) :: u32) = v" by (rule bit_word_eqI) (simp add: bit_simps)
  ultimately show ?thesis using \<open>uint v < 2 ^ 32\<close> by (simp add: u32_of_i64_def)
qed

lemma parse_digits_bound: "parse_digits acc bs = Some n \<Longrightarrow> acc < 2 ^ 32 \<Longrightarrow> n < 2 ^ 32"
  by (induction acc bs rule: parse_digits.induct) (auto split: if_splits)

lemma delayed_headers_lookup:
  assumes "delayed_headers r hs a = Inr hs'"
  shows "map_of hs' APPLICATION_ATTEMPTS_HEADER = Some (Integer (ucast (sat_add a 1)))"
    and "map_of hs' ACQUIRED_COUNT_HEADER = None" and "map_of hs' DELIVERY_COUNT_HEADER = None"
    and "k \<notin> {APPLICATION_ATTEMPTS_HEADER, ACQUIRED_COUNT_HEADER, DELIVERY_COUNT_HEADER} \<Longrightarrow>
      map_of hs' k = map_of hs k"
    and "bt_wf hs \<Longrightarrow> bt_wf hs'"
  using assms
  by (auto simp: delayed_headers_def attempts_Inr alist_simps header_names
      intro!: bt_wf_insert bt_wf_remove)

lemma resolve_ge_1: "resolve r hs rd = Inr a \<Longrightarrow> 1 \<le> a"
  by (auto simp: resolve_def attempts_Inr Let_def)

lemma one_le_imp_two_le_sat_add: "1 \<le> a \<Longrightarrow> 2 \<le> sat_add a (1 :: u32)"
  by (simp add: word_le_nat_alt unat_sat_add)

lemma resolve_delayed:
  assumes "delayed_headers r hs a = Inr hs'" "1 \<le> a"
  shows "resolve r hs' rd = Inr (sat_add a 1)"
proof -
  note lk = delayed_headers_lookup [OF assms(1)]
  have two: "2 \<le> sat_add a 1" by (rule one_le_imp_two_le_sat_add [OF assms(2)])
  moreover have "1 \<le> sat_add a 1" "sat_add a 1 \<noteq> 1" using two by (auto simp: word_le_nat_alt)
  moreover have "validate_attempts r (sat_add a 1) = Inr (sat_add a 1)"
    using assms(1) by (auto simp: delayed_headers_def attempts_Inr)
  ultimately show ?thesis
    by (simp add: resolve_def header_count_def lk max_def Let_def split: if_splits)
qed

lemma retry_headers_step:
  assumes "resolve r hs rd = Inr a"
  shows "case retry_headers r hs rd of
      Inr hs' \<Rightarrow> resolve r hs' False = Inr (sat_add a 1) \<and> (\<forall>m. max_attempts r = Some m \<longrightarrow> sat_add a 1 \<le> m)
    | Inl e \<Rightarrow> \<exists>m. max_attempts r = Some m \<and> m < sat_add a 1 \<and>
        e = \<lparr>ae_kind = MaxAttempts, ae_attempts = sat_add a 1, ae_max_attempts = Some m\<rparr>"
proof (cases "retry_headers r hs rd")
  case (Inl e)
  then have "delayed_headers r hs a = Inl e" using assms by (simp add: retry_headers_def)
  then have "validate_attempts r (sat_add a 1) = Inl e" by (simp add: delayed_headers_def bind_res_Inl)
  then show ?thesis using Inl by (simp add: attempts_Inl)
next
  case (Inr hs')
  then have d: "delayed_headers r hs a = Inr hs'" using assms by (simp add: retry_headers_def)
  then have "validate_attempts r (sat_add a 1) = Inr (sat_add a 1)"
    by (auto simp: delayed_headers_def attempts_Inr)
  then show ?thesis
    using Inr resolve_delayed [OF d resolve_ge_1 [OF assms]] by (simp add: attempts_Inr)
qed

text \<open>The value that is checked against the cap dominates every reported counter.\<close>

lemma resolve_value:
  obtains v where "resolve r hs redelivered = validate_attempts r v" "1 \<le> v"
    "case header_count hs APPLICATION_ATTEMPTS_HEADER of None \<Rightarrow> True | Some x \<Rightarrow> x \<le> v"
    "case (header_count hs ACQUIRED_COUNT_HEADER, header_count hs DELIVERY_COUNT_HEADER) of
            (Some x, _) \<Rightarrow> x \<le> v
          | (None, Some x) \<Rightarrow> sat_add x 1 \<le> v
          | (None, None) \<Rightarrow> (if redelivered then 2 \<le> v else True)"
proof -
  define ac where "ac = header_count hs ACQUIRED_COUNT_HEADER"
  define dc where "dc = header_count hs DELIVERY_COUNT_HEADER"
  define ap where "ap = header_count hs APPLICATION_ATTEMPTS_HEADER"
  define br where "br = (case map_option (\<lambda>v. max v 1) ac of Some v \<Rightarrow> v | None \<Rightarrow>
    (case map_option (\<lambda>v. sat_add v 1) dc of Some v \<Rightarrow> v | None \<Rightarrow> if redelivered then 2 else 1))"
  define v where "v = max (max br (case ap of Some x \<Rightarrow> x | None \<Rightarrow> 1)) (1 :: u32)"
  have "resolve r hs redelivered = validate_attempts r v"
    by (simp only: resolve_def Let_def v_def br_def ac_def dc_def ap_def)
  moreover have "1 \<le> v" by (simp add: v_def)
  moreover have "case ap of None \<Rightarrow> True | Some x \<Rightarrow> x \<le> v"
    by (auto simp: v_def le_max_iff_disj split: option.splits)
  moreover have "br \<le> v" by (simp add: v_def le_max_iff_disj)
  moreover have "case (ac, dc) of (Some x, _) \<Rightarrow> x \<le> br | (None, Some x) \<Rightarrow> sat_add x 1 \<le> br
      | (None, None) \<Rightarrow> (if redelivered then 2 \<le> br else True)"
    by (auto simp: br_def split: option.splits)
  ultimately show thesis
    by (intro that [of v]) (auto simp: ac_def dc_def ap_def split: option.splits if_splits)
qed

section \<open>Properties\<close>

text \<open>(C25) Round trip of a delayed retry: when attempt \<open>a \<ge> 1\<close> is released with a delay, the message
  published in its place is resolved as attempt \<open>a + 1\<close> (saturating) on its next delivery, whether or
  not the broker flags a redelivery; broker counters do not survive, and no other header changes.\<close>

theorem delayed_retry_roundtrip:
  assumes "delayed_headers r hs a = Inr hs'" "1 \<le> a"
  shows "resolve r hs' redelivered = Inr (sat_add a 1) \<and>
    map_of hs' ACQUIRED_COUNT_HEADER = None \<and> map_of hs' DELIVERY_COUNT_HEADER = None \<and>
    (k \<notin> {APPLICATION_ATTEMPTS_HEADER, ACQUIRED_COUNT_HEADER, DELIVERY_COUNT_HEADER} \<longrightarrow>
      map_of hs' k = map_of hs k)"
  by (simp add: resolve_delayed [OF assms] delayed_headers_lookup(2-4) [OF assms(1)])

definition demo_headers :: headers where
  "demo_headers = [(''tenant'', Boolean True), (''x-delivery-count'', Integer 3)]"

lemma demo_delayed:
  "delayed_headers attempts_resolver_default demo_headers 4 =
     Inr [(''tenant'', Boolean True), (''x-rabbit-rs-attempts'', Integer 5)]"
  by code_simp

theorem delayed_retry_roundtrip_witness:
  "resolve attempts_resolver_default
     [(''tenant'', Boolean True), (''x-rabbit-rs-attempts'', Integer 5)] True = Inr 5"
  using delayed_retry_roundtrip [OF demo_delayed, of True] by (simp add: sat_add_def)

text \<open>(C24) The cap is exact along a chain of delayed retries: a message first delivered as attempt \<open>a\<close>
  can be retried \<open>n\<close> times while \<open>a + n\<close> stays within the cap \<open>m\<close>, and then resolves as attempt
  \<open>a + n\<close>; one retry more and the chain fails with the terminal error that reports attempt \<open>m + 1\<close>.\<close>

theorem retry_chain_cap:
  assumes "resolve r hs False = Inr a" "max_attempts r = Some m" "m \<noteq> - 1"
  shows "if unat a + n \<le> unat m
    then \<exists>hs'. retry_chain r n hs = Inr hs' \<and> resolve r hs' False = Inr (a + of_nat n)
    else retry_chain r n hs = Inl \<lparr>ae_kind = MaxAttempts, ae_attempts = m + 1, ae_max_attempts = Some m\<rparr>"
  using assms(1)
proof (induction n arbitrary: hs a)
  case 0
  then have "a \<le> m" using assms(2) by (auto simp: resolve_def attempts_Inr Let_def)
  with 0 show ?case by (simp add: word_le_nat_alt)
next
  case (Suc n)
  have "a \<le> m" using Suc.prems assms(2) by (auto simp: resolve_def attempts_Inr Let_def)
  moreover have "unat m < 2 ^ 32 - 1"
    using assms(3) unat_bound [of m] by (auto simp: word_unat_eq_iff unat_max_word)
  ultimately have sa: "sat_add a 1 = a + 1" and ua: "unat (a + 1) = unat a + 1"
    by (simp_all add: sat_add_def word_le_nat_alt unat_word_ariths)
  note step = retry_headers_step [OF Suc.prems]
  show ?case
  proof (cases "retry_headers r hs False")
    case (Inl e)
    with step assms(2) have *: "m < a + 1" "e = \<lparr>ae_kind = MaxAttempts, ae_attempts = a + 1, ae_max_attempts = Some m\<rparr>"
      by (auto simp: sa)
    then have "a = m" using \<open>a \<le> m\<close> ua by (simp add: word_less_nat_alt word_le_nat_alt word_unat_eq_iff)
    with * Inl show ?thesis by simp
  next
    case (Inr hs')
    with step have r: "resolve r hs' False = Inr (a + 1)" by (simp add: sa)
    show ?thesis using Suc.IH [OF r] Inr ua by (simp add: add.assoc split: if_splits)
  qed
qed

theorem retry_chain_cap_witness:
  "retry_chain attempts_resolver_default 20 [] =
     Inl \<lparr>ae_kind = MaxAttempts, ae_attempts = 21, ae_max_attempts = Some 20\<rparr>"
proof -
  have "resolve attempts_resolver_default [] False = Inr 1" by code_simp
  from retry_chain_cap [OF this, of 20 20] show ?thesis
    by (simp add: attempts_resolver_default_def DEFAULT_MAX_ATTEMPTS_def)
qed

text \<open>A resolved attempt is at least 1 and within the cap, and is never below what any source
  reports: the acquisition counter, the failed-delivery counter plus one when there is no acquisition
  counter, 2 on a redelivery without broker counters, and the application header. The only error is
  an attempt above the cap, reported with its true value.\<close>

lemma resolve_bounds:
  "case resolve r hs redelivered of
     Inl e \<Rightarrow> (\<exists>m. max_attempts r = Some m \<and> m < ae_attempts e \<and> ae_max_attempts e = Some m)
   | Inr a \<Rightarrow> a > 0 \<and> (case max_attempts r of None \<Rightarrow> True | Some m \<Rightarrow> a \<le> m)
       \<and> (case header_count hs APPLICATION_ATTEMPTS_HEADER of None \<Rightarrow> True | Some v \<Rightarrow> v \<le> a)
       \<and> (case (header_count hs ACQUIRED_COUNT_HEADER, header_count hs DELIVERY_COUNT_HEADER) of
            (Some v, _) \<Rightarrow> v \<le> a
          | (None, Some v) \<Rightarrow> sat_add v 1 \<le> a
          | (None, None) \<Rightarrow> (if redelivered then 2 \<le> a else True))"
proof -
  obtain v where "resolve r hs redelivered = validate_attempts r v" "1 \<le> v"
    "case header_count hs APPLICATION_ATTEMPTS_HEADER of None \<Rightarrow> True | Some x \<Rightarrow> x \<le> v"
    "case (header_count hs ACQUIRED_COUNT_HEADER, header_count hs DELIVERY_COUNT_HEADER) of
            (Some x, _) \<Rightarrow> x \<le> v
          | (None, Some x) \<Rightarrow> sat_add x 1 \<le> v
          | (None, None) \<Rightarrow> (if redelivered then 2 \<le> v else True)"
    by (rule resolve_value)
  moreover have "0 < v" using \<open>1 \<le> v\<close> by (simp add: word_less_nat_alt word_le_nat_alt)
  ultimately show ?thesis by (auto simp: validate_attempts_def not_less split: option.splits)
qed

end
