(* ===== verification/Recovery_Policy.thy ===== *)
theory Recovery_Policy
  imports Transport
begin

text \<open>
  The reconnect back-off of \<^verbatim>\<open>recovery.rs\<close>: the observable connection states, the capped exponential
  delay and the two jitter sources. The random generator is a third-party crate, the argument \<open>rnd\<close>
  of the jitter: \<open>rnd n\<close> is the value \<^verbatim>\<open>fastrand::u64(0..=n)\<close> returned.
\<close>

section \<open>Model\<close>

datatype connection_state =
    Disconnected
  | Connecting u32
  | ReadyAt u64
  | Recovering u32 duration string
  | FailedPermanent transport_error_kind string
  | ClosedState

record recovery_policy =
  initial_delay :: duration
  maximum_delay :: duration

definition recovery_policy_default :: recovery_policy where
  "recovery_policy_default = \<lparr>initial_delay = from_millis 100, maximum_delay = from_secs 30\<rparr>"

definition delay_for_failure :: "recovery_policy \<Rightarrow> u32 \<Rightarrow> duration" where
  "delay_for_failure p failures =
     (if failures = 0 then 0
      else let exponent = min (unat (sat_sub failures 1)) 31 in
        min (dur_sat_mul (initial_delay p) (2 ^ exponent)) (maximum_delay p))"

definition identity_jitter :: "duration \<Rightarrow> duration" where
  "identity_jitter d = d"

text \<open>\<^verbatim>\<open>delay * 4\<close> panics beyond the largest duration (\<open>None\<close>).\<close>

definition equal_jitter :: "(u64 \<Rightarrow> u64) \<Rightarrow> duration \<Rightarrow> duration option" where
  "equal_jitter rnd d =
     (if d * 4 \<le> duration_max
      then let minimum = d * 4 div 5; spread = d - minimum;
               random_nanos = rnd (u64_clamp spread) in
        Some (dur_sat_add minimum (unat random_nanos))
      else None)"

section \<open>Lemmas\<close>

lemma delay_le_maximum: "delay_for_failure p n \<le> maximum_delay p"
  by (simp add: delay_for_failure_def Let_def)

lemma dur_sat_mul_mono: "a \<le> b \<Longrightarrow> dur_sat_mul d a \<le> dur_sat_mul d b"
  by (simp add: dur_sat_mul_def min_le_iff_disj)

lemma delay_mono:
  assumes "m \<le> n" shows "delay_for_failure p m \<le> delay_for_failure p n"
proof (cases "m = 0")
  case False
  then have "n \<noteq> 0" using assms by auto
  have "min (unat (sat_sub m 1)) 31 \<le> min (unat (sat_sub n 1)) 31"
    using assms by (intro min.mono) (simp_all add: unat_sat_sub word_le_nat_alt diff_le_mono)
  then have "(2 :: nat) ^ min (unat (sat_sub m 1)) 31 \<le> 2 ^ min (unat (sat_sub n 1)) 31"
    by (rule power_increasing) simp
  from dur_sat_mul_mono [OF this] False \<open>n \<noteq> 0\<close> show ?thesis
    by (auto simp: delay_for_failure_def Let_def min_le_iff_disj)
qed (simp add: delay_for_failure_def)

section \<open>Properties\<close>

text \<open>The back-off is capped and monotone in the number of consecutive failures, zero without one,
  and doubles exactly from the initial delay until the cap or the 32nd failure: failure \<open>k + 1\<close> with
  \<open>k \<le> 31\<close> waits \<open>initial * 2^k\<close> when that is below the maximum.\<close>

lemma backoff_capped_exponential:
  "delay_for_failure p n \<le> maximum_delay p \<and> delay_for_failure p 0 = 0 \<and>
   (m \<le> n \<longrightarrow> delay_for_failure p m \<le> delay_for_failure p n) \<and>
   (k \<le> 31 \<and> initial_delay p * 2 ^ k \<le> maximum_delay p \<and> maximum_delay p \<le> duration_max \<longrightarrow>
      delay_for_failure p (of_nat k + 1) = initial_delay p * 2 ^ k)"
proof (intro conjI impI)
  show "delay_for_failure p n \<le> maximum_delay p" by (rule delay_le_maximum)
  show "delay_for_failure p 0 = 0" by (simp add: delay_for_failure_def)
  show "m \<le> n \<Longrightarrow> delay_for_failure p m \<le> delay_for_failure p n" by (rule delay_mono)
  assume k: "k \<le> 31 \<and> initial_delay p * 2 ^ k \<le> maximum_delay p \<and> maximum_delay p \<le> duration_max"
  then have u: "unat (of_nat k + 1 :: u32) = k + 1"
    by (simp add: unat_word_ariths unat_of_nat)
  then have "(of_nat k + 1 :: u32) \<noteq> 0" by (metis add_is_0 one_neq_zero unsigned_0)
  with u k show "delay_for_failure p (of_nat k + 1) = initial_delay p * 2 ^ k"
    by (simp add: delay_for_failure_def unat_sat_sub dur_sat_mul_def)
qed

text \<open>The production jitter keeps a reconnect delay between four fifths of it and itself, whatever
  value the random generator returns within the range it was asked for, and it is defined for every
  delay that four times fits a duration.\<close>

lemma equal_jitter_bounds:
  assumes "\<forall>n. rnd n \<le> n" "d * 4 \<le> duration_max"
  shows "\<exists>j. equal_jitter rnd d = Some j \<and> d * 4 div 5 \<le> j \<and> j \<le> d"
proof -
  have "unat (rnd (u64_clamp (d - d * 4 div 5))) \<le> unat (u64_clamp (d - d * 4 div 5))"
    using assms(1) by (simp add: word_le_nat_alt)
  also have "\<dots> \<le> d - d * 4 div 5" by (simp add: unat_u64_clamp)
  finally have "unat (rnd (u64_clamp (d - d * 4 div 5))) \<le> d - d * 4 div 5" .
  moreover have "d * 4 div 5 \<le> d" by simp
  ultimately show ?thesis using assms(2)
    by (auto simp: equal_jitter_def Let_def dur_sat_add_def)
qed

end
