(* ===== verification/Config.thy ===== *)
theory Config
  imports Attempts
begin

text \<open>
  Configuration of \<^verbatim>\<open>config.rs\<close> and \<^verbatim>\<open>error.rs\<close>: the user configuration as it is after
  deserialization, its validation and canonical ordering, the profile synthesized for automatic
  subscriptions, and the bytes that are fed to the fingerprint digest. The digest itself
  (crate \<^verbatim>\<open>sha2\<close>) is the parameter \<open>sha\<close> of every definition that computes a fingerprint.
\<close>

section \<open>Data\<close>

record config_error =
  ce_path :: string
  ce_message :: string

definition config_error_new :: "string \<Rightarrow> string \<Rightarrow> config_error" where
  "config_error_new p m = \<lparr>ce_path = p, ce_message = m\<rparr>"

definition config_error_display :: "config_error \<Rightarrow> string" where
  "config_error_display e = ce_path e @ '': '' @ ce_message e"

datatype endpoint = Endpoint (host: string) (port: u16)

text \<open>The derived order of \<^verbatim>\<open>Endpoint\<close>: by host, then by port.\<close>

instantiation endpoint :: linorder
begin

definition less_eq_endpoint :: "endpoint \<Rightarrow> endpoint \<Rightarrow> bool" where
  "less_eq_endpoint a b \<longleftrightarrow> host a < host b \<or> host a = host b \<and> port a \<le> port b"

definition less_endpoint :: "endpoint \<Rightarrow> endpoint \<Rightarrow> bool" where
  "less_endpoint a b \<longleftrightarrow> host a < host b \<or> host a = host b \<and> port a < port b"

instance
  by standard
    (auto simp: less_eq_endpoint_def less_endpoint_def intro: endpoint.expand)

end

record credentials =
  username :: string
  password :: string

datatype tls_verify = Peer

record tls_config =
  tls_enabled :: bool
  tls_ca_cert :: "string option"
  tls_client_cert :: "string option"
  tls_client_key :: "string option"
  tls_verify_mode :: tls_verify
  tls_server_name :: "string option"

definition tls_disabled :: tls_config where
  "tls_disabled = \<lparr>tls_enabled = False, tls_ca_cert = None, tls_client_cert = None,
     tls_client_key = None, tls_verify_mode = Peer, tls_server_name = None\<rparr>"

record broker_config =
  bk_name :: string
  bk_hosts :: "endpoint list"
  bk_vhost :: string
  bk_credentials :: credentials
  bk_tls :: tls_config
  bk_heartbeat :: duration

datatype prefetch_config =
    Fixed u16
  | Adaptive (pf_initial: u16) (pf_min: u16) (pf_max: u16) (pf_target_buffer: duration)

fun prefetch_initial_value :: "prefetch_config \<Rightarrow> u16" where
  "prefetch_initial_value (Fixed v) = v"
| "prefetch_initial_value (Adaptive i _ _ _) = i"

fun prefetch_ceiling :: "prefetch_config \<Rightarrow> u16" where
  "prefetch_ceiling (Fixed v) = v"
| "prefetch_ceiling (Adaptive _ _ m _) = m"

text \<open>The wire forms of a prefetch policy, after the field types were read.\<close>

datatype prefetch_mode = ModeFixed | ModeAdaptive

record prefetch_map =
  pm_mode :: prefetch_mode
  pm_value :: "u16 option"
  pm_initial :: "u16 option"
  pm_min :: "u16 option"
  pm_max :: "u16 option"
  pm_target_buffer_seconds :: "u64 option"

datatype prefetch_wire = Plain u16 | Mapped prefetch_map

definition deserialize_prefetch :: "prefetch_wire \<Rightarrow> string + prefetch_config" where
  "deserialize_prefetch w =
     (case w of
        Plain v \<Rightarrow> Inr (Fixed v)
      | Mapped m \<Rightarrow>
          (case pm_mode m of
             ModeFixed \<Rightarrow> bind_res (ok_or ''value'' (pm_value m)) (\<lambda>v. Inr (Fixed v))
           | ModeAdaptive \<Rightarrow>
               bind_res (ok_or ''initial'' (pm_initial m)) (\<lambda>i.
               bind_res (ok_or ''min'' (pm_min m)) (\<lambda>mi.
               bind_res (ok_or ''max'' (pm_max m)) (\<lambda>ma.
               bind_res (ok_or ''target_buffer_seconds'' (pm_target_buffer_seconds m)) (\<lambda>t.
                 Inr (Adaptive i mi ma (from_secs (unat t)))))))))"

record subscription_config =
  sc_name :: string
  sc_broker :: string
  sc_queue :: string
  sc_weight :: u16
  sc_prefetch :: prefetch_config
  sc_max_buffered_bytes :: u64
  sc_early_ack :: bool
  sc_no_ack :: bool

datatype scheduler_strategy = WeightedFair

record worker_profile =
  wp_name :: string
  wp_subscriptions :: "subscription_config list"
  wp_scheduler :: scheduler_strategy

datatype topology_mode = Declare | Verify | External

definition topology_mode_from_str :: "string \<Rightarrow> config_error + topology_mode" where
  "topology_mode_from_str v =
     (if v = ''declare'' then Inr Declare
      else if v = ''verify'' then Inr Verify
      else if v = ''external'' then Inr External
      else Inl (config_error_new ''topology.mode''
        (''unsupported topology mode '' @ [CHR 0x27] @ v @ [CHR 0x27])))"

datatype delay_mode = Auto | Plugin | Ttl

record delay_config =
  dc_mode :: delay_mode
  dc_buckets :: "duration list"
  dc_max_buckets :: nat
  dc_queue_expiry_margin :: duration

definition delay_config_default :: delay_config where
  "delay_config_default = \<lparr>dc_mode = Auto,
     dc_buckets = [from_secs 1, from_secs 5, from_secs 30, from_secs 120],
     dc_max_buckets = 8, dc_queue_expiry_margin = from_secs 60\<rparr>"

record dead_letter_config =
  dl_enabled :: bool
  dl_exchange :: string
  dl_queue :: string
  dl_routing_key :: "string option"

datatype safety_mode = Blind | Unsafe | Safe

record publisher_config_section =
  pc_safety :: safety_mode
  pc_confirms :: bool
  pc_mandatory :: bool
  pc_confirm_timeout :: duration
  pc_flush_interval :: duration

definition effective_safety :: "publisher_config_section \<Rightarrow> safety_mode" where
  "effective_safety p =
     (if pc_safety p \<noteq> Safe then pc_safety p
      else if pc_confirms p then Safe else Unsafe)"

definition publisher_config_default :: publisher_config_section where
  "publisher_config_default = \<lparr>pc_safety = Safe, pc_confirms = True, pc_mandatory = True,
     pc_confirm_timeout = from_secs 30, pc_flush_interval = from_millis 1\<rparr>"

record consumer_config_section =
  cc_wait_timeout :: duration
  cc_max_attempts :: "u32 option"

definition consumer_config_default :: consumer_config_section where
  "consumer_config_default = \<lparr>cc_wait_timeout = from_secs 30,
     cc_max_attempts = Some DEFAULT_MAX_ATTEMPTS\<rparr>"

record route_config =
  rt_broker :: string
  rt_exchange :: string
  rt_routing_key :: string

record config =
  brokers :: "broker_config list"
  workers :: "worker_profile list"
  topology_mode_of :: topology_mode
  routes :: "(string \<times> route_config) list"
  delay_of :: delay_config
  dead_letter :: "dead_letter_config option"
  delivery_limit :: "u32 option"
  publisher_of :: publisher_config_section
  consumer_of :: consumer_config_section
  queue_type :: queue_kind
  queue_durable :: bool

text \<open>A validated configuration is the canonical configuration with its fingerprint.\<close>

record 'fp validated_config = config +
  fingerprint :: 'fp

section \<open>Validation\<close>

text \<open>A loop that inserts every name into a \<^verbatim>\<open>HashSet\<close> and fails at the first repetition.\<close>

fun check_unique :: "('a \<Rightarrow> string) \<Rightarrow> ('a \<Rightarrow> config_error) \<Rightarrow> string list \<Rightarrow> 'a list \<Rightarrow> config_error + unit" where
  "check_unique name err seen [] = Inr ()"
| "check_unique name err seen (x # xs) =
     (if name x \<in> set seen then Inl (err x) else check_unique name err (name x # seen) xs)"

definition validate_unique_broker_names :: "broker_config list \<Rightarrow> config_error + unit" where
  "validate_unique_broker_names bs = check_unique bk_name
     (\<lambda>b. config_error_new (''brokers.'' @ bk_name b) ''broker name must be unique'') [] bs"

definition validate_unique_worker_names :: "worker_profile list \<Rightarrow> config_error + unit" where
  "validate_unique_worker_names ws = check_unique wp_name
     (\<lambda>w. config_error_new (''workers.'' @ wp_name w) ''worker name must be unique'') [] ws"

definition validate_publisher :: "publisher_config_section \<Rightarrow> config_error + unit" where
  "validate_publisher p =
     (if \<not> pc_mandatory p then Inl (config_error_new ''publisher.mandatory''
        (''mandatory=false is no longer supported: mandatory routing is part of the safe delivery guarantee; opt out with publisher.safety = '' @
         [CHR 0x22] @ ''unsafe'' @ [CHR 0x22] @ '' or '' @ [CHR 0x22] @ ''blind'' @ [CHR 0x22] @ '' instead''))
      else if pc_confirm_timeout p < from_secs 1 then Inl (config_error_new ''publisher.confirm_timeout''
        ''confirm_timeout must be at least 1 second'')
      else if pc_flush_interval p > from_secs 3600 then Inl (config_error_new ''publisher.flush_interval''
        ''flush_interval must be at most 1 hour'')
      else Inr ())"

definition validate_routes :: "(string \<times> route_config) list \<Rightarrow> string set \<Rightarrow> config_error + unit" where
  "validate_routes rs names = for_each (\<lambda>(name, route).
     if rt_broker route \<notin> names
     then Inl (config_error_new (''routes.'' @ name @ ''.broker'') ''references an unknown broker'')
     else Inr ()) rs"

definition validate_broker_tls :: "broker_config \<Rightarrow> config_error + unit" where
  "validate_broker_tls b =
     (if \<not> tls_enabled (bk_tls b) then Inr ()
      else let first_host = (case bk_hosts b of [] \<Rightarrow> [] | e # _ \<Rightarrow> host e) in
        (case tls_server_name (bk_tls b) of
           None \<Rightarrow> Inr ()
         | Some server_name \<Rightarrow>
             (if server_name \<noteq> first_host
              then Inl (config_error_new (''brokers.'' @ bk_name b @ ''.tls.server_name'')
                ([CHR 0x27] @ server_name @ [CHR 0x27] @
                 '' overrides the TLS server name, which the AMQP transport (lapin 4.10) cannot do: SNI is always the connection host; supported value: '' @
                 [CHR 0x27] @ first_host @ [CHR 0x27]))
              else Inr ())))"

text \<open>One round of the loop over the brokers: the checks, the sorting of the hosts, the TLS check.\<close>

definition validate_broker :: "broker_config \<Rightarrow> config_error + broker_config" where
  "validate_broker b =
     (if bk_hosts b = [] then Inl (config_error_new (''brokers.'' @ bk_name b @ ''.hosts'')
        ''at least one host is required'')
      else if bk_heartbeat b < from_secs 1 \<or> bk_heartbeat b > from_secs 65535
      then Inl (config_error_new (''brokers.'' @ bk_name b @ ''.heartbeat'')
        ''heartbeat must be between 1 and 65535 seconds (AMQP wire limit)'')
      else let b' = b\<lparr>bk_hosts := sort (bk_hosts b)\<rparr> in
        bind_res (validate_broker_tls b') (\<lambda>_. Inr b'))"

text \<open>The \<^verbatim>\<open>match\<close> on the prefetch policy of a subscription.\<close>

definition validate_prefetch :: "string \<Rightarrow> subscription_config \<Rightarrow> config_error + unit" where
  "validate_prefetch base s =
     (case sc_prefetch s of
        Fixed v \<Rightarrow> (if v = 0 then Inl (config_error_new base ''prefetch must be greater than zero'') else Inr ())
      | Adaptive initial mi ma target \<Rightarrow>
          (if mi = 0 then Inl (config_error_new (base @ ''.min'') ''min must be greater than zero'')
           else if ma < mi then Inl (config_error_new (base @ ''.max'') ''max must be greater than or equal to min'')
           else if initial < mi \<or> initial > ma
           then Inl (config_error_new (base @ ''.initial'') ''initial must be within [min, max]'')
           else if target = 0
           then Inl (config_error_new (base @ ''.target_buffer_seconds'') ''target_buffer_seconds must be greater than zero'')
           else if sc_early_ack s \<or> sc_no_ack s
           then Inl (config_error_new (base @ ''.mode'')
             ''adaptive prefetch requires consumer acknowledgements: early_ack and no_ack must be false'')
           else Inr ()))"

fun validate_subscriptions :: "string \<Rightarrow> string set \<Rightarrow> string list \<Rightarrow> subscription_config list \<Rightarrow> config_error + unit" where
  "validate_subscriptions worker names seen [] = Inr ()"
| "validate_subscriptions worker names seen (s # ss) =
     (let path = ''workers.'' @ worker @ ''.subscriptions.'' @ sc_name s in
      if sc_name s \<in> set seen
      then Inl (config_error_new path ''subscription name must be unique within a worker profile'')
      else if sc_broker s \<notin> names
      then Inl (config_error_new (path @ ''.broker'') ''references an unknown broker'')
      else if sc_weight s = 0
      then Inl (config_error_new (path @ ''.weight'') ''weight must be greater than zero'')
      else if sc_max_buffered_bytes s = 0
      then Inl (config_error_new (path @ ''.max_buffered_bytes'')
        ''max_buffered_bytes must be greater than zero: zero classifies every delivery as oversized, which the consumer then acknowledges and discards'')
      else bind_res (validate_prefetch (''workers.'' @ worker @ ''.subscriptions.'' @ sc_name s @ ''.prefetch'') s) (\<lambda>_.
        if sc_no_ack s \<and> \<not> sc_early_ack s
        then Inl (config_error_new (path @ ''.no_ack'')
          ''no_ack requires early_ack: broker-side auto-ack bypasses prefetch, so an unattended consumer would buffer deliveries without any bound'')
        else validate_subscriptions worker names (sc_name s # seen) ss))"

definition validate_worker :: "worker_profile \<Rightarrow> string set \<Rightarrow> config_error + unit" where
  "validate_worker w names =
     (if wp_subscriptions w = []
      then Inl (config_error_new (''workers.'' @ wp_name w @ ''.subscriptions'')
        ''at least one subscription is required'')
      else validate_subscriptions (wp_name w) names [] (wp_subscriptions w))"

definition validate_delay :: "delay_config \<Rightarrow> config_error + unit" where
  "validate_delay d =
     (if dc_buckets d = [] then Inl (config_error_new ''delay.buckets'' ''at least one TTL bucket is required'')
      else if length (dc_buckets d) > dc_max_buckets d
      then Inl (config_error_new ''delay.buckets''
        (''TTL bucket count '' @ show_nat (length (dc_buckets d)) @ '' exceeds configured maximum '' @
         show_nat (dc_max_buckets d)))
      else if 0 \<in> set (dc_buckets d)
      then Inl (config_error_new ''delay.buckets'' ''TTL buckets must be greater than zero'')
      else Inr ())"

section \<open>Fingerprint\<close>

definition be_bytes :: "nat \<Rightarrow> nat \<Rightarrow> bytes" where
  "be_bytes k v = map (\<lambda>i. of_nat (v div 256 ^ i)) (rev [0..<k])"

definition str_bytes :: "string \<Rightarrow> bytes" where
  "str_bytes s = map (\<lambda>c. of_nat (of_char c)) s"

text \<open>
  The digest is represented by the bytes it was updated with. Lengths are \<^verbatim>\<open>usize\<close>, 8 bytes on
  the supported targets.
\<close>

definition hash_value :: "string \<Rightarrow> bytes" where
  "hash_value s = be_bytes 8 (length s) @ str_bytes s"

fun tls_verify_name :: "tls_verify \<Rightarrow> string" where
  "tls_verify_name Peer = ''peer''"

fun topology_mode_name :: "topology_mode \<Rightarrow> string" where
  "topology_mode_name Declare = ''declare''"
| "topology_mode_name Verify = ''verify''"
| "topology_mode_name External = ''external''"

fun scheduler_name :: "scheduler_strategy \<Rightarrow> string" where
  "scheduler_name WeightedFair = ''weighted_fair''"

fun delay_mode_name :: "delay_mode \<Rightarrow> string" where
  "delay_mode_name Auto = ''auto''"
| "delay_mode_name Plugin = ''plugin''"
| "delay_mode_name Ttl = ''ttl''"

fun safety_mode_name :: "safety_mode \<Rightarrow> string" where
  "safety_mode_name Blind = ''blind''"
| "safety_mode_name Unsafe = ''unsafe''"
| "safety_mode_name Safe = ''safe''"

definition unwrap_or_default :: "string option \<Rightarrow> string" where
  "unwrap_or_default x = (case x of None \<Rightarrow> [] | Some s \<Rightarrow> s)"

definition hash_broker :: "broker_config \<Rightarrow> bytes" where
  "hash_broker b =
     hash_value (bk_name b) @ hash_value (bk_vhost b) @
     hash_value (username (bk_credentials b)) @ hash_value (password (bk_credentials b)) @
     hash_value (if tls_enabled (bk_tls b) then ''tls'' else ''plain'') @
     hash_value (tls_verify_name (tls_verify_mode (bk_tls b))) @
     hash_value (unwrap_or_default (tls_server_name (bk_tls b))) @
     hash_value (unwrap_or_default (tls_ca_cert (bk_tls b))) @
     hash_value (unwrap_or_default (tls_client_cert (bk_tls b))) @
     hash_value (unwrap_or_default (tls_client_key (bk_tls b))) @
     be_bytes 8 (as_secs (bk_heartbeat b)) @
     concat (map (\<lambda>e. hash_value (host e) @ be_bytes 2 (unat (port e))) (bk_hosts b))"

definition hash_publisher :: "publisher_config_section \<Rightarrow> bytes" where
  "hash_publisher p =
     hash_value ''publisher'' @ hash_value (safety_mode_name (pc_safety p)) @
     hash_value (if pc_confirms p then ''confirms'' else ''no_confirms'') @
     be_bytes 16 (as_millis (pc_confirm_timeout p))"

definition hash_consumer :: "consumer_config_section \<Rightarrow> bytes" where
  "hash_consumer c =
     hash_value ''consumer'' @ be_bytes 16 (as_millis (cc_wait_timeout c)) @
     be_bytes 4 (case cc_max_attempts c of None \<Rightarrow> 0 | Some m \<Rightarrow> unat m)"

definition hash_subscription :: "subscription_config \<Rightarrow> bytes" where
  "hash_subscription s =
     hash_value (sc_name s) @ hash_value (sc_broker s) @ hash_value (sc_queue s) @
     be_bytes 2 (unat (sc_weight s)) @
     (case sc_prefetch s of
        Fixed v \<Rightarrow> hash_value ''prefetch:fixed'' @ be_bytes 2 (unat v)
      | Adaptive i mi ma t \<Rightarrow> hash_value ''prefetch:adaptive'' @ be_bytes 2 (unat i) @
          be_bytes 2 (unat mi) @ be_bytes 2 (unat ma) @ be_bytes 8 (unat (u64_clamp (as_millis t)))) @
     be_bytes 8 (unat (sc_max_buffered_bytes s)) @
     hash_value (if sc_early_ack s then ''early_ack'' else ''no_early_ack'') @
     hash_value (if sc_no_ack s then ''no_ack'' else ''ack'')"

definition hash_worker :: "worker_profile \<Rightarrow> bytes" where
  "hash_worker w = hash_value (wp_name w) @ hash_value (scheduler_name (wp_scheduler w)) @
     concat (map hash_subscription (wp_subscriptions w))"

text \<open>
  \<^verbatim>\<open>format!("{:?}", buckets)\<close>: a duration prints in the largest unit with a nonzero integral part,
  with at most nine fractional digits and no trailing zeros.
\<close>

primrec frac_digits :: "nat \<Rightarrow> nat \<Rightarrow> nat \<Rightarrow> string" where
  "frac_digits 0 frac divisor = []"
| "frac_digits (Suc n) frac divisor =
     (if frac = 0 then [] else digit_char (frac div divisor) # frac_digits n (frac mod divisor) (divisor div 10))"

definition fmt_decimal :: "nat \<Rightarrow> nat \<Rightarrow> nat \<Rightarrow> string \<Rightarrow> string" where
  "fmt_decimal int_part frac divisor suffix =
     show_nat int_part @ (let ds = frac_digits 9 frac divisor in if ds = [] then [] else ''.'' @ ds) @ suffix"

definition debug_duration :: "duration \<Rightarrow> string" where
  "debug_duration d =
     (let nanos = d mod 1000000000 in
      if as_secs d > 0 then fmt_decimal (as_secs d) nanos 100000000 ''s''
      else if nanos \<ge> 1000000 then fmt_decimal (nanos div 1000000) (nanos mod 1000000) 100000 ''ms''
      else if nanos \<ge> 1000 then fmt_decimal (nanos div 1000) (nanos mod 1000) 100 [CHR 0xC2, CHR 0xB5, CHR ''s'']
      else fmt_decimal nanos 0 1 ''ns'')"

fun join_strings :: "string \<Rightarrow> string list \<Rightarrow> string" where
  "join_strings sep [] = []"
| "join_strings sep [x] = x"
| "join_strings sep (x # xs) = x @ sep @ join_strings sep xs"

definition debug_durations :: "duration list \<Rightarrow> string" where
  "debug_durations ds = ''['' @ join_strings '', '' (map debug_duration ds) @ '']''"

definition hash_dead_letter :: "dead_letter_config option \<Rightarrow> bytes" where
  "hash_dead_letter d =
     (case d of
        Some dl \<Rightarrow> hash_value ''dead_letter'' @ hash_value (if dl_enabled dl then ''1'' else ''0'') @
          hash_value (dl_exchange dl) @ hash_value (dl_queue dl) @
          hash_value (unwrap_or_default (dl_routing_key dl))
      | None \<Rightarrow> hash_value ''no_dead_letter'')"

definition fingerprint_bytes :: "'a config_scheme \<Rightarrow> bytes" where
  "fingerprint_bytes c =
     hash_value (topology_mode_name (topology_mode_of c)) @
     concat (map hash_broker (brokers c)) @
     concat (map hash_worker (workers c)) @
     hash_value (delay_mode_name (dc_mode (delay_of c))) @
     hash_value (debug_durations (dc_buckets (delay_of c))) @
     be_bytes 8 (dc_max_buckets (delay_of c)) @
     be_bytes 8 (as_secs (dc_queue_expiry_margin (delay_of c))) @
     hash_dead_letter (dead_letter c) @
     (case delivery_limit c of
        Some l \<Rightarrow> hash_value ''delivery_limit'' @ be_bytes 4 (unat l)
      | None \<Rightarrow> hash_value ''no_delivery_limit'') @
     concat (map (\<lambda>(name, r). hash_value ''route'' @ hash_value name @ hash_value (rt_broker r) @
       hash_value (rt_exchange r) @ hash_value (rt_routing_key r)) (routes c)) @
     hash_publisher (publisher_of c) @
     hash_consumer (consumer_of c) @
     hash_value (case queue_type c of Classic \<Rightarrow> ''queue_type:classic'' | Quorum \<Rightarrow> ''queue_type:quorum'') @
     hash_value (if queue_durable c then ''queue_durable:true'' else ''queue_durable:false'')"

definition fingerprint_calculate :: "(bytes \<Rightarrow> 'fp) \<Rightarrow> config \<Rightarrow> 'fp" where
  "fingerprint_calculate sha c = sha (fingerprint_bytes c)"

section \<open>The validation of a whole configuration\<close>

definition validate :: "(bytes \<Rightarrow> 'fp) \<Rightarrow> config \<Rightarrow> config_error + 'fp validated_config" where
  "validate sha c =
     (if brokers c = [] then Inl (config_error_new ''brokers'' ''at least one broker is required'')
      else if queue_type c = Quorum \<and> \<not> queue_durable c
      then Inl (config_error_new ''queue_durable''
        ''quorum queues are always durable: set queue_durable=true or queue_type=classic'')
      else if queue_type c = Classic \<and> delivery_limit c \<noteq> None
      then Inl (config_error_new ''delivery_limit''
        ''delivery_limit is only supported on quorum queues: remove it or set queue_type=quorum'')
      else bind_res (validate_unique_broker_names (brokers c)) (\<lambda>_.
      bind_res (map_res validate_broker (brokers c)) (\<lambda>bs.
      let bs = sort_key bk_name bs; names = bk_name ` set bs in
      bind_res (validate_unique_worker_names (workers c)) (\<lambda>_.
      bind_res (map_res (\<lambda>w. bind_res (validate_worker w names) (\<lambda>_.
          Inr (w\<lparr>wp_subscriptions := sort_key sc_name (wp_subscriptions w)\<rparr>))) (workers c)) (\<lambda>ws.
      let ws = sort_key wp_name ws in
      bind_res (validate_routes (routes c) names) (\<lambda>_.
      bind_res (validate_delay (delay_of c)) (\<lambda>_.
      if cc_wait_timeout (consumer_of c) < from_secs 1 \<or> cc_wait_timeout (consumer_of c) > from_secs 86400
      then Inl (config_error_new ''consumer.wait_timeout'' ''wait_timeout must be between 1 second and 24 hours'')
      else if cc_max_attempts (consumer_of c) = Some 0
      then Inl (config_error_new ''consumer.max_attempts'' ''max_attempts must be a positive integer'')
      else bind_res (validate_publisher (publisher_of c)) (\<lambda>_.
        let c' = c\<lparr>brokers := bs, workers := ws\<rparr> in
        Inr (config.extend c' \<lparr>fingerprint = fingerprint_calculate sha c'\<rparr>)))))))))"

section \<open>Accessors\<close>

definition find_broker :: "'a config_scheme \<Rightarrow> string \<Rightarrow> broker_config option" where
  "find_broker v name = find (\<lambda>b. bk_name b = name) (brokers v)"

definition find_worker :: "'a config_scheme \<Rightarrow> string \<Rightarrow> worker_profile option" where
  "find_worker v name = find (\<lambda>w. wp_name w = name) (workers v)"

definition AUTO_PROFILE_PREFIX :: string where
  "AUTO_PROFILE_PREFIX = ''__auto__.''"

definition strip_prefix :: "string \<Rightarrow> string \<Rightarrow> string option" where
  "strip_prefix p s = (if take (length p) s = p then Some (drop (length p) s) else None)"

definition default_max_buffered_bytes :: u64 where
  "default_max_buffered_bytes = 64 * 1024 * 1024"

definition synthesize_auto_profile :: "'a config_scheme \<Rightarrow> string \<Rightarrow> config_error + worker_profile" where
  "synthesize_auto_profile v profile =
     (case strip_prefix AUTO_PROFILE_PREFIX profile of
        None \<Rightarrow> Inl (config_error_new (''workers.'' @ profile) ''unknown worker profile'')
      | Some queue \<Rightarrow>
          (if queue = [] then Inl (config_error_new (''workers.'' @ profile)
             ''automatic profile names must carry a queue after __auto__.'')
           else if length (brokers v) \<noteq> 1
           then Inl (config_error_new (''workers.'' @ profile @ ''.subscriptions.auto.broker'')
             ''automatic profiles require a single configured broker; declare this profile under workers.*'')
           else let worker = \<lparr>wp_name = profile,
                   wp_subscriptions = [\<lparr>sc_name = ''auto'', sc_broker = bk_name (brokers v ! 0),
                     sc_queue = queue, sc_weight = 1, sc_prefetch = Fixed 64,
                     sc_max_buffered_bytes = default_max_buffered_bytes,
                     sc_early_ack = False, sc_no_ack = False\<rparr>],
                   wp_scheduler = WeightedFair\<rparr>
             in bind_res (validate_worker worker (bk_name ` set (brokers v))) (\<lambda>_. Inr worker)))"

section \<open>What validation accepts\<close>

definition broker_ok :: "broker_config \<Rightarrow> bool" where
  "broker_ok b \<longleftrightarrow> bk_hosts b \<noteq> [] \<and> from_secs 1 \<le> bk_heartbeat b \<and> bk_heartbeat b \<le> from_secs 65535 \<and>
     (tls_enabled (bk_tls b) \<longrightarrow>
        tls_server_name (bk_tls b) \<in> {None, Some (host (hd (sort (bk_hosts b))))})"

definition prefetch_ok :: "subscription_config \<Rightarrow> bool" where
  "prefetch_ok s \<longleftrightarrow> (case sc_prefetch s of
       Fixed v \<Rightarrow> v \<noteq> 0
     | Adaptive i mi ma t \<Rightarrow> mi \<noteq> 0 \<and> mi \<le> i \<and> i \<le> ma \<and> t \<noteq> 0 \<and> \<not> sc_early_ack s \<and> \<not> sc_no_ack s)"

definition subscription_ok :: "string set \<Rightarrow> subscription_config \<Rightarrow> bool" where
  "subscription_ok names s \<longleftrightarrow> sc_broker s \<in> names \<and> sc_weight s \<noteq> 0 \<and> sc_max_buffered_bytes s \<noteq> 0 \<and>
     prefetch_ok s \<and> (sc_no_ack s \<longrightarrow> sc_early_ack s)"

definition worker_ok :: "string set \<Rightarrow> worker_profile \<Rightarrow> bool" where
  "worker_ok names w \<longleftrightarrow> wp_subscriptions w \<noteq> [] \<and> distinct (map sc_name (wp_subscriptions w)) \<and>
     (\<forall>s\<in>set (wp_subscriptions w). subscription_ok names s)"

definition delay_ok :: "delay_config \<Rightarrow> bool" where
  "delay_ok d \<longleftrightarrow> dc_buckets d \<noteq> [] \<and> length (dc_buckets d) \<le> dc_max_buckets d \<and> 0 \<notin> set (dc_buckets d)"

definition publisher_ok :: "publisher_config_section \<Rightarrow> bool" where
  "publisher_ok p \<longleftrightarrow> pc_mandatory p \<and> from_secs 1 \<le> pc_confirm_timeout p \<and> pc_flush_interval p \<le> from_secs 3600"

definition config_ok :: "'a config_scheme \<Rightarrow> bool" where
  "config_ok c \<longleftrightarrow> brokers c \<noteq> [] \<and> (queue_type c = Quorum \<longrightarrow> queue_durable c) \<and>
     (queue_type c = Classic \<longrightarrow> delivery_limit c = None) \<and>
     distinct (map bk_name (brokers c)) \<and> (\<forall>b\<in>set (brokers c). broker_ok b) \<and>
     distinct (map wp_name (workers c)) \<and> (\<forall>w\<in>set (workers c). worker_ok (bk_name ` set (brokers c)) w) \<and>
     (\<forall>(n, r)\<in>set (routes c). rt_broker r \<in> bk_name ` set (brokers c)) \<and> delay_ok (delay_of c) \<and>
     from_secs 1 \<le> cc_wait_timeout (consumer_of c) \<and> cc_wait_timeout (consumer_of c) \<le> from_secs 86400 \<and>
     cc_max_attempts (consumer_of c) \<noteq> Some 0 \<and> publisher_ok (publisher_of c)"

definition canon_broker :: "broker_config \<Rightarrow> broker_config" where
  "canon_broker b = b\<lparr>bk_hosts := sort (bk_hosts b)\<rparr>"

definition canon_worker :: "worker_profile \<Rightarrow> worker_profile" where
  "canon_worker w = w\<lparr>wp_subscriptions := sort_key sc_name (wp_subscriptions w)\<rparr>"

definition canon :: "config \<Rightarrow> config" where
  "canon c = c\<lparr>brokers := sort_key bk_name (map canon_broker (brokers c)),
     workers := sort_key wp_name (map canon_worker (workers c))\<rparr>"

lemma check_unique_Inr:
  "check_unique name err seen xs = Inr () \<longleftrightarrow> distinct (map name xs) \<and> name ` set xs \<inter> set seen = {}"
  by (induction xs arbitrary: seen) auto

lemma validate_broker_Inr: "validate_broker b = Inr b' \<longleftrightarrow> broker_ok b \<and> b' = canon_broker b"
proof -
  have "sort (bk_hosts b) = hd (sort (bk_hosts b)) # tl (sort (bk_hosts b))" if "bk_hosts b \<noteq> []"
    using that by (metis hd_Cons_tl length_0_conv length_sort)
  then show ?thesis
    by (auto simp: validate_broker_def validate_broker_tls_def broker_ok_def canon_broker_def Let_def
        split: if_splits option.splits list.splits)
qed

lemma validate_prefetch_Inr: "validate_prefetch base s = Inr () \<longleftrightarrow> prefetch_ok s"
  by (auto simp: validate_prefetch_def prefetch_ok_def split: prefetch_config.splits)

lemma validate_subscriptions_Inr:
  "validate_subscriptions w names seen ss = Inr () \<longleftrightarrow> distinct (map sc_name ss) \<and>
     sc_name ` set ss \<inter> set seen = {} \<and> (\<forall>s\<in>set ss. subscription_ok names s)"
  by (induction ss arbitrary: seen)
    (auto simp: Let_def validate_prefetch_Inr subscription_ok_def)

lemma validate_worker_Inr: "validate_worker w names = Inr () \<longleftrightarrow> worker_ok names w"
  by (simp add: validate_worker_def worker_ok_def validate_subscriptions_Inr)

lemma validate_delay_Inr: "validate_delay d = Inr () \<longleftrightarrow> delay_ok d"
  by (simp add: validate_delay_def delay_ok_def not_less)

lemma validate_publisher_Inr: "validate_publisher p = Inr () \<longleftrightarrow> publisher_ok p"
  by (simp add: validate_publisher_def publisher_ok_def not_less)

lemma validate_routes_Inr:
  "validate_routes rs names = Inr () \<longleftrightarrow> (\<forall>(n, r)\<in>set rs. rt_broker r \<in> names)"
  by (auto simp: validate_routes_def for_each_Inr split: if_splits)

lemma canon_names [simp]:
  "bk_name (canon_broker b) = bk_name b" "wp_name (canon_worker w) = wp_name w"
  by (simp_all add: canon_broker_def canon_worker_def)

lemma canon_names_comp [simp]: "bk_name \<circ> canon_broker = bk_name" "wp_name \<circ> canon_worker = wp_name"
  by (simp_all add: fun_eq_iff)

lemma validate_brokers_Inr:
  "map_res validate_broker bs = Inr bs' \<longleftrightarrow> (\<forall>b\<in>set bs. broker_ok b) \<and> bs' = map canon_broker bs"
  by (rule map_res_iff) (rule validate_broker_Inr)

lemma validate_workers_Inr:
  "map_res (\<lambda>w. bind_res (validate_worker w names) (\<lambda>_.
      Inr (w\<lparr>wp_subscriptions := sort_key sc_name (wp_subscriptions w)\<rparr>))) ws = Inr ws' \<longleftrightarrow>
   (\<forall>w\<in>set ws. worker_ok names w) \<and> ws' = map canon_worker ws"
  by (rule map_res_iff) (auto simp: validate_worker_Inr canon_worker_def)

lemmas validate_parts = validate_delay_Inr validate_publisher_Inr validate_routes_Inr
  validate_brokers_Inr validate_workers_Inr check_unique_Inr


text \<open>Validation accepts exactly the well-formed configurations, and its result is the canonical form.\<close>

lemma validate_Inr:
  "validate sha c = Inr v \<longleftrightarrow> config_ok c \<and>
     v = config.extend (canon c) \<lparr>fingerprint = fingerprint_calculate sha (canon c)\<rparr>"
  unfolding validate_def config_ok_def Let_def validate_unique_broker_names_def
    validate_unique_worker_names_def canon_def
  by (simp only: if_Inl_eq_Inr bind_res_unit bind_res_Inr validate_parts sum.inject)
    (auto simp: not_less image_image)

section \<open>Canonical order\<close>

lemma sort_key_mset_eq:
  assumes "mset xs = mset ys" "inj_on f (set xs)"
  shows "sort_key f xs = sort_key f ys"
proof (rule properties_for_sort_key)
  show "mset (sort_key f ys) = mset xs" using assms(1) by simp
  show "sorted (map f (sort_key f ys))" by simp
  fix k assume k: "k \<in> set (sort_key f ys)"
  have set: "set ys = set xs" using assms(1) by (metis set_mset_mset)
  have "filter (\<lambda>x. f k = f x) zs = filter ((=) k) zs" if "set zs = set xs" for zs
    using k that assms(2) by (intro filter_cong) (auto simp: set inj_on_eq_iff)
  then show "filter (\<lambda>x. f k = f x) (sort_key f ys) = filter (\<lambda>x. f k = f x) xs"
    using assms(1) set by (simp flip: replicate_count_mset_eq_filter_eq)
qed

lemma sort_key_Nil_iff [simp]: "sort_key f xs = [] \<longleftrightarrow> xs = []"
  by (metis length_0_conv length_sort)

lemma canon_broker_idem [simp]: "canon_broker (canon_broker b) = canon_broker b"
  by (simp add: canon_broker_def sort_key_id_if_sorted sorted_sort)

lemma canon_worker_idem [simp]: "canon_worker (canon_worker w) = canon_worker w"
  by (simp add: canon_worker_def sort_key_id_if_sorted)

lemma canon_idem: "canon (canon c) = canon c"
proof -
  have "map canon_broker (sort_key bk_name (map canon_broker bs)) = sort_key bk_name (map canon_broker bs)" for bs
    by (rule map_idI) auto
  moreover have "map canon_worker (sort_key wp_name (map canon_worker ws)) = sort_key wp_name (map canon_worker ws)" for ws
    by (rule map_idI) auto
  ultimately show ?thesis by (simp add: canon_def sort_key_id_if_sorted)
qed

lemma broker_ok_canon [simp]: "broker_ok (canon_broker b) \<longleftrightarrow> broker_ok b"
  by (simp add: broker_ok_def canon_broker_def sort_key_id_if_sorted)

lemma worker_ok_canon [simp]: "worker_ok names (canon_worker w) \<longleftrightarrow> worker_ok names w"
proof -
  have "mset (map sc_name (sort_key sc_name ss)) = mset (map sc_name ss)"
    for ss :: "subscription_config list" by simp
  then have "distinct (map sc_name (sort_key sc_name ss)) \<longleftrightarrow> distinct (map sc_name ss)"
    for ss :: "subscription_config list" by (rule mset_eq_imp_distinct_iff)
  then show ?thesis by (simp add: worker_ok_def canon_worker_def)
qed

lemma config_ok_canon [simp]: "config_ok (canon c) \<longleftrightarrow> config_ok c"
proof -
  have m: "mset (map bk_name (sort_key bk_name (map canon_broker bs))) = mset (map bk_name bs)"
    "mset (map wp_name (sort_key wp_name (map canon_worker ws))) = mset (map wp_name ws)" for bs ws
    by (simp_all add: image_mset.compositionality)
  have "distinct (map bk_name (brokers (canon c))) \<longleftrightarrow> distinct (map bk_name (brokers c))"
    "distinct (map wp_name (workers (canon c))) \<longleftrightarrow> distinct (map wp_name (workers c))"
    using m by (auto simp: canon_def intro!: mset_eq_imp_distinct_iff)
  moreover have "bk_name ` set (brokers (canon c)) = bk_name ` set (brokers c)"
    by (simp add: canon_def image_image)
  moreover have "brokers (canon c) = [] \<longleftrightarrow> brokers c = []"
    by (simp add: canon_def)
  moreover have "set (brokers (canon c)) = canon_broker ` set (brokers c)"
    "set (workers (canon c)) = canon_worker ` set (workers c)" by (simp_all add: canon_def)
  moreover have "queue_type (canon c) = queue_type c" "queue_durable (canon c) = queue_durable c"
    "delivery_limit (canon c) = delivery_limit c" "routes (canon c) = routes c" "delay_of (canon c) = delay_of c"
    "consumer_of (canon c) = consumer_of c" "publisher_of (canon c) = publisher_of c"
    by (simp_all add: canon_def)
  ultimately show ?thesis unfolding config_ok_def by simp
qed

lemma inj_on_names: "distinct (map f xs) \<Longrightarrow> inj_on f (set xs)"
  by (simp add: distinct_map)

lemma canon_perm:
  assumes "config_ok c"
    and "mset (map canon_broker bs) = mset (map canon_broker (brokers c))"
    and "mset (map canon_worker ws) = mset (map canon_worker (workers c))"
  shows "canon (c\<lparr>brokers := bs, workers := ws\<rparr>) = canon c"
proof -
  have "inj_on bk_name (set (map canon_broker (brokers c)))"
    "inj_on wp_name (set (map canon_worker (workers c)))"
    using assms(1) by (intro inj_on_names; simp add: config_ok_def)+
  with assms(2,3) have "sort_key bk_name (map canon_broker (brokers c)) = sort_key bk_name (map canon_broker bs)"
    "sort_key wp_name (map canon_worker (workers c)) = sort_key wp_name (map canon_worker ws)"
    by (auto intro!: sort_key_mset_eq)
  then show ?thesis by (simp add: canon_def)
qed

lemma config_ok_extend [simp]: "config_ok (config.extend c x) \<longleftrightarrow> config_ok c"
  by (simp add: config_ok_def config.defs)

lemma fingerprint_bytes_extend [simp]: "fingerprint_bytes (config.extend c x) = fingerprint_bytes c"
  by (simp add: fingerprint_bytes_def config.defs)

lemma truncate_extend [simp]: "config.truncate (config.extend c x) = c"
  by (simp add: config.defs)

section \<open>The digest input is prefix free\<close>

lemma length_be_bytes [simp]: "length (be_bytes k v) = k"
  by (simp add: be_bytes_def)

lemma be_bytes_inj:
  assumes "be_bytes k v = be_bytes k v'" "v < 256 ^ k" "v' < 256 ^ k"
  shows "v = v'"
  using assms
proof (induction k arbitrary: v v')
  case (Suc k)
  have shift: "be_bytes (Suc k) v = be_bytes k (v div 256) @ [of_nat v]" for v
  proof -
    have "[0..<Suc k] = 0 # map Suc [0..<k]" by (simp add: upt_conv_Cons map_Suc_upt del: upt_Suc)
    then show ?thesis by (simp add: be_bytes_def rev_map div_mult2_eq del: upt_Suc)
  qed
  from Suc.prems(1) have "be_bytes k (v div 256) = be_bytes k (v' div 256)"
    and "(of_nat v :: 8 word) = of_nat v'" by (simp_all add: shift)
  moreover have "v div 256 < 256 ^ k" "v' div 256 < 256 ^ k"
    using Suc.prems(2,3) by (simp_all add: less_mult_imp_div_less mult.commute)
  ultimately have "v div 256 = v' div 256" and "v mod 256 = v' mod 256"
    using Suc.IH by (auto simp: word_of_nat_eq_iff take_bit_eq_mod)
  then show ?case by (metis div_mult_mod_eq)
qed simp

lemma str_bytes_inj: "str_bytes s = str_bytes s' \<longleftrightarrow> s = s'"
proof -
  have "inj (\<lambda>c. of_nat (of_char c) :: 8 word)"
  proof (rule injI)
    fix a b :: char
    assume "(of_nat (of_char a) :: 8 word) = of_nat (of_char b)"
    then have "(of_char a :: nat) = of_char b" by (simp add: word_of_nat_eq_iff take_bit_eq_mod)
    then show "a = b" by simp
  qed
  then show ?thesis by (simp add: str_bytes_def inj_map_eq_map)
qed

lemma hash_value_prefix:
  assumes "hash_value s @ r = hash_value s' @ r'" "length s < 2 ^ 64" "length s' < 2 ^ 64"
  shows "s = s' \<and> r = r'"
proof -
  have "be_bytes 8 (length s) = be_bytes 8 (length s')"
    and rest: "str_bytes s @ r = str_bytes s' @ r'"
    using assms(1) by (simp_all add: hash_value_def append_eq_append_conv)
  then have "length s = length s'" using assms(2,3) by (intro be_bytes_inj [of 8]) simp_all
  then have "length (str_bytes s) = length (str_bytes s')" by (simp add: str_bytes_def)
  with rest show ?thesis by (simp add: append_eq_append_conv str_bytes_inj)
qed

section \<open>Properties\<close>

definition demo_broker :: "string \<Rightarrow> endpoint list \<Rightarrow> broker_config" where
  "demo_broker n hs = \<lparr>bk_name = n, bk_hosts = hs, bk_vhost = ''/'',
     bk_credentials = \<lparr>username = ''guest'', password = ''secret''\<rparr>, bk_tls = tls_disabled,
     bk_heartbeat = from_secs 30\<rparr>"

definition demo_subscription :: "string \<Rightarrow> string \<Rightarrow> subscription_config" where
  "demo_subscription n q = \<lparr>sc_name = n, sc_broker = ''b1'', sc_queue = q, sc_weight = 1,
     sc_prefetch = Fixed 64, sc_max_buffered_bytes = default_max_buffered_bytes,
     sc_early_ack = False, sc_no_ack = False\<rparr>"

definition demo_worker :: "subscription_config list \<Rightarrow> worker_profile" where
  "demo_worker ss = \<lparr>wp_name = ''w'', wp_subscriptions = ss, wp_scheduler = WeightedFair\<rparr>"

definition demo_config :: config where
  "demo_config = \<lparr>brokers = [demo_broker ''b2'' [Endpoint ''h'' 1], demo_broker ''b1'' [Endpoint ''y'' 1, Endpoint ''x'' 2]],
     workers = [demo_worker [demo_subscription ''s2'' ''mail'', demo_subscription ''s1'' ''jobs'']],
     topology_mode_of = Declare, routes = [], delay_of = delay_config_default, dead_letter = None,
     delivery_limit = None, publisher_of = publisher_config_default, consumer_of = consumer_config_default,
     queue_type = Quorum, queue_durable = True\<rparr>"

lemmas demo_config_defs = demo_config_def demo_broker_def demo_worker_def demo_subscription_def
  default_max_buffered_bytes_def tls_disabled_def delay_config_default_def publisher_config_default_def
  consumer_config_default_def DEFAULT_MAX_ATTEMPTS_def

lemma demo_config_ok: "config_ok demo_config"
  by (simp add: config_ok_def broker_ok_def worker_ok_def subscription_ok_def prefetch_ok_def delay_ok_def
      publisher_ok_def from_secs_def from_millis_def demo_config_defs)

text \<open>(C21) Validation is exact: it succeeds on precisely the configurations that have at least one
  broker, unique broker, worker and subscription names, sound broker, prefetch, delay, publisher and
  consumer settings and only references to existing brokers. The result satisfies the same
  condition, is the canonical form of the input and carries the digest of that form.\<close>

theorem validate_exact:
  "case validate sha c of
     Inl e \<Rightarrow> \<not> config_ok c
   | Inr v \<Rightarrow> config_ok c \<and> config_ok v \<and> config.truncate v = canon c \<and> fingerprint v = sha (fingerprint_bytes v)"
proof (cases "validate sha c")
  case (Inl e)
  then have "\<nexists>v. validate sha c = Inr v" by simp
  then have "\<not> config_ok c" by (simp add: validate_Inr)
  with Inl show ?thesis by simp
next
  case (Inr v)
  moreover from this have "config_ok c"
    and v: "v = config.extend (canon c) \<lparr>fingerprint = fingerprint_calculate sha (canon c)\<rparr>"
    by (simp_all add: validate_Inr)
  moreover have "fingerprint v = sha (fingerprint_bytes v)"
    unfolding v by (simp add: fingerprint_calculate_def) (simp add: config.defs validated_config.defs)
  ultimately show ?thesis by simp
qed

text \<open>(C28) The order in which brokers, hosts, workers and subscriptions are written does not matter: a
  configuration obtained from an accepted one by permuting any of them is accepted with the same
  result, fingerprint included, and so is the result itself when it is validated again.\<close>

theorem validate_order_independent:
  assumes "validate sha c = Inr v"
    and "mset (map canon_broker bs) = mset (map canon_broker (brokers c))"
    and "mset (map canon_worker ws) = mset (map canon_worker (workers c))"
  shows "validate sha (c\<lparr>brokers := bs, workers := ws\<rparr>) = Inr v \<and> validate sha (config.truncate v) = Inr v"
proof -
  have ok: "config_ok c" and v: "v = config.extend (canon c) \<lparr>fingerprint = fingerprint_calculate sha (canon c)\<rparr>"
    using assms(1) by (simp_all add: validate_Inr)
  note p = canon_perm [OF ok assms(2,3)]
  have "config_ok (c\<lparr>brokers := bs, workers := ws\<rparr>)" using ok config_ok_canon p by metis
  then show ?thesis using ok p v by (simp add: validate_Inr canon_idem)
qed

theorem validate_order_independent_witness:
  "validate length (demo_config\<lparr>brokers := [demo_broker ''b1'' [Endpoint ''x'' 2, Endpoint ''y'' 1],
       demo_broker ''b2'' [Endpoint ''h'' 1]],
     workers := [demo_worker [demo_subscription ''s1'' ''jobs'', demo_subscription ''s2'' ''mail'']]\<rparr>)
   = validate length demo_config"
proof -
  obtain v where v: "validate length demo_config = Inr v"
    using demo_config_ok validate_Inr [of length demo_config] by blast
  have "sort [Endpoint ''y'' 1, Endpoint ''x'' 2] = sort [Endpoint ''x'' 2, Endpoint ''y'' 1]"
    "sort_key sc_name [demo_subscription ''s2'' ''mail'', demo_subscription ''s1'' ''jobs''] =
     sort_key sc_name [demo_subscription ''s1'' ''jobs'', demo_subscription ''s2'' ''mail'']"
    by code_simp+
  then show ?thesis unfolding v
    by (intro validate_order_independent [OF v, THEN conjunct1])
      (simp_all add: demo_config_def canon_broker_def canon_worker_def demo_broker_def demo_worker_def)
qed

text \<open>The publish-buffer interval never splits a pool: changing it within its bounds keeps an
  accepted configuration accepted with the same fingerprint.\<close>

lemma fingerprint_ignores_flush_interval:
  assumes "validate sha c = Inr v" "fi \<le> from_secs 3600"
  shows "\<exists>v'. validate sha (c\<lparr>publisher_of := (publisher_of c)\<lparr>pc_flush_interval := fi\<rparr>\<rparr>) = Inr v' \<and>
    fingerprint v' = fingerprint v"
proof -
  let ?c = "c\<lparr>publisher_of := (publisher_of c)\<lparr>pc_flush_interval := fi\<rparr>\<rparr>"
  have "config_ok ?c" using assms by (simp add: validate_Inr config_ok_def publisher_ok_def)
  moreover have "fingerprint_bytes (canon ?c) = fingerprint_bytes (canon c)"
    by (simp add: fingerprint_bytes_def canon_def hash_publisher_def)
  ultimately show ?thesis using assms(1)
    by (auto simp: validate_Inr fingerprint_calculate_def config.defs)
qed

text \<open>Pools never mix credentials: when two configurations feed the digest with the same bytes,
  their topology modes agree and their first brokers agree on name, virtual host, user name and
  password (strings shorter than the address space).\<close>

lemma fingerprint_separates_credentials:
  assumes "fingerprint_bytes c = fingerprint_bytes c'" "brokers c = b # bs" "brokers c' = b' # bs'"
    and "\<forall>x\<in>{b, b'}. \<forall>s\<in>{bk_name x, bk_vhost x, username (bk_credentials x), password (bk_credentials x)}.
      length s < 2 ^ 64"
  shows "topology_mode_of c = topology_mode_of c' \<and> bk_name b = bk_name b' \<and> bk_vhost b = bk_vhost b' \<and>
    username (bk_credentials b) = username (bk_credentials b') \<and>
    password (bk_credentials b) = password (bk_credentials b')"
proof -
  have len: "length (topology_mode_name m) < 2 ^ 64" for m by (cases m) simp_all
  obtain r r' where "hash_value (topology_mode_name (topology_mode_of c)) @ hash_value (bk_name b) @
      hash_value (bk_vhost b) @ hash_value (username (bk_credentials b)) @
      hash_value (password (bk_credentials b)) @ r =
    hash_value (topology_mode_name (topology_mode_of c')) @ hash_value (bk_name b') @
      hash_value (bk_vhost b') @ hash_value (username (bk_credentials b')) @
      hash_value (password (bk_credentials b')) @ r'"
    using assms(1-3) by (simp add: fingerprint_bytes_def hash_broker_def)
  from hash_value_prefix [OF this len len] have m: "topology_mode_name (topology_mode_of c) = topology_mode_name (topology_mode_of c')"
    and 1: "hash_value (bk_name b) @ hash_value (bk_vhost b) @ hash_value (username (bk_credentials b)) @
      hash_value (password (bk_credentials b)) @ r = hash_value (bk_name b') @
      hash_value (bk_vhost b') @ hash_value (username (bk_credentials b')) @
      hash_value (password (bk_credentials b')) @ r'" by simp_all
  have "topology_mode_of c = topology_mode_of c'"
    using m by (cases "topology_mode_of c"; cases "topology_mode_of c'") simp_all
  moreover note n = hash_value_prefix [OF 1] hash_value_prefix [OF conjunct2 [OF hash_value_prefix [OF 1]]]
  moreover note hash_value_prefix [OF conjunct2 [OF n(2)]]
    hash_value_prefix [OF conjunct2 [OF hash_value_prefix [OF conjunct2 [OF n(2)]]]]
  ultimately show ?thesis using assms(4) by simp
qed

text \<open>A profile is synthesized exactly for a name that is the automatic prefix followed by a
  nonempty queue name, and only with a single configured broker; the profile subscribes to that
  queue on that broker and satisfies every rule of a configured profile.\<close>

lemma synthesize_auto_profile_exact:
  "case synthesize_auto_profile v profile of
     Inr w \<Rightarrow> (\<exists>q b. profile = AUTO_PROFILE_PREFIX @ q \<and> q \<noteq> [] \<and> brokers v = [b] \<and>
       map sc_queue (wp_subscriptions w) = [q] \<and> map sc_broker (wp_subscriptions w) = [bk_name b] \<and>
       wp_name w = profile \<and> worker_ok {bk_name b} w)
   | Inl e \<Rightarrow> \<not> (\<exists>q b. profile = AUTO_PROFILE_PREFIX @ q \<and> q \<noteq> [] \<and> brokers v = [b])"
proof (cases "strip_prefix AUTO_PROFILE_PREFIX profile")
  case None
  then show ?thesis by (auto simp: synthesize_auto_profile_def strip_prefix_def split: if_splits)
next
  case (Some q)
  then have p: "profile = AUTO_PROFILE_PREFIX @ q"
    unfolding strip_prefix_def by (metis append_take_drop_id option.distinct(1) option.inject)
  show ?thesis
  proof (cases "q = [] \<or> length (brokers v) \<noteq> 1")
    case True
    then show ?thesis using Some p by (auto simp: synthesize_auto_profile_def)
  next
    case False
    then obtain b where b: "brokers v = [b]" by (metis One_nat_def length_0_conv length_Suc_conv)
    let ?w = "\<lparr>wp_name = profile,
       wp_subscriptions = [\<lparr>sc_name = ''auto'', sc_broker = bk_name b, sc_queue = q, sc_weight = 1,
         sc_prefetch = Fixed 64, sc_max_buffered_bytes = default_max_buffered_bytes,
         sc_early_ack = False, sc_no_ack = False\<rparr>], wp_scheduler = WeightedFair\<rparr>"
    have ok: "worker_ok {bk_name b} ?w"
      by (simp add: worker_ok_def subscription_ok_def prefetch_ok_def default_max_buffered_bytes_def)
    then have "synthesize_auto_profile v profile = Inr ?w"
      using Some False b validate_worker_Inr [of ?w "{bk_name b}"]
      by (simp add: synthesize_auto_profile_def Let_def)
    then show ?thesis using ok p b False by simp
  qed
qed

end
