(* ===== verification/Delay.thy ===== *)
theory Delay
  imports Config
begin

text \<open>
  Delayed delivery of \<^verbatim>\<open>topology/delay.rs\<close>: the strategy a pool compiles from its configuration,
  the TTL buckets, the delay queues synthesized for a destination and their names, and the
  maintenance sweep that deletes orphaned delay queues. The digest of crate \<^verbatim>\<open>sha2\<close> is the
  parameter \<open>sha\<close>; the broker reached through the admin channel is a record of operations.
\<close>

section \<open>Strategies and buckets\<close>

record destination =
  dest_exchange :: string
  dest_routing_key :: string

definition DELAY_QUEUE_PREFIX :: string where
  "DELAY_QUEUE_PREFIX = ''rabbit-rs.delay.''"

definition DELAYED_EXCHANGE_NAME :: string where
  "DELAYED_EXCHANGE_NAME = ''rabbit-rs.delayed''"

definition delayed_exchange_name :: "string \<Rightarrow> string" where
  "delayed_exchange_name exchange =
     (if exchange = [] then DELAYED_EXCHANGE_NAME else exchange @ ''.delayed'')"

definition delayed_exchange_spec :: "string \<Rightarrow> exchange_spec" where
  "delayed_exchange_spec name = \<lparr>x_name = name, x_kind = Delayed Direct, x_durable = True,
     x_auto_delete = False, x_internal = False, x_arguments = []\<rparr>"

record ttl_bucket_plan =
  tb_buckets :: "duration list"
  tb_expiry_margin :: duration

datatype delay_strategy = PluginStrategy | TtlBuckets ttl_bucket_plan

text \<open>A delay error is its message.\<close>

type_synonym delay_error = string

definition ttl_bucket_compile :: "delay_config \<Rightarrow> delay_error + ttl_bucket_plan" where
  "ttl_bucket_compile c =
     (if dc_buckets c = [] then Inl ''at least one TTL bucket is required''
      else if length (dc_buckets c) > dc_max_buckets c
      then Inl (''TTL bucket count '' @ show_nat (length (dc_buckets c)) @ '' exceeds configured maximum '' @
        show_nat (dc_max_buckets c))
      else if 0 \<in> set (dc_buckets c) then Inl ''TTL buckets must be greater than zero''
      else Inr \<lparr>tb_buckets = remdups_adj (sort (dc_buckets c)),
        tb_expiry_margin = max (dc_queue_expiry_margin c) (from_millis 1)\<rparr>)"

definition delay_strategy_compile :: "'a config_scheme \<Rightarrow> delay_strategy" where
  "delay_strategy_compile c =
     (case dc_mode (delay_of c) of
        Plugin \<Rightarrow> PluginStrategy
      | Auto \<Rightarrow> PluginStrategy
      | Ttl \<Rightarrow> (case ttl_bucket_compile (delay_of c) of Inl _ \<Rightarrow> PluginStrategy | Inr p \<Rightarrow> TtlBuckets p))"

definition largest_bucket_ms :: "ttl_bucket_plan \<Rightarrow> nat" where
  "largest_bucket_ms p = (if tb_buckets p = [] then 0 else as_millis (last (tb_buckets p)))"

definition bucket_for :: "ttl_bucket_plan \<Rightarrow> duration \<Rightarrow> delay_error + duration" where
  "bucket_for p delay = ok_or
     (''delay exceeds the largest configured TTL bucket ('' @ show_nat (largest_bucket_ms p) @ '' ms)'')
     (find (\<lambda>b. b \<ge> delay) (tb_buckets p))"

section \<open>Names of delay queues\<close>

definition hex_digit :: "nat \<Rightarrow> char" where
  "hex_digit d = ''0123456789abcdef'' ! d"

definition hex_byte :: "u8 \<Rightarrow> string" where
  "hex_byte b = [hex_digit (unat b div 16), hex_digit (unat b mod 16)]"

definition hex_prefix :: "bytes \<Rightarrow> nat \<Rightarrow> string" where
  "hex_prefix digest n = take n (concat (map hex_byte (take ((n + 1) div 2) digest)))"

definition hash_field :: "string \<Rightarrow> bytes" where
  "hash_field v = be_bytes 8 (length v) @ str_bytes v"

definition destination_hash :: "(bytes \<Rightarrow> bytes) \<Rightarrow> destination \<Rightarrow> string" where
  "destination_hash sha d =
     hex_prefix (sha (str_bytes (dest_exchange d) @ [0] @ str_bytes (dest_routing_key d))) 16"

definition args_bytes :: "ttl_bucket_plan \<Rightarrow> destination \<Rightarrow> duration \<Rightarrow> bytes" where
  "args_bytes p d bucket = be_bytes 16 (as_millis bucket) @ be_bytes 16 (as_millis (tb_expiry_margin p)) @
     hash_field (dest_exchange d) @ hash_field (dest_routing_key d)"

definition args_fingerprint :: "(bytes \<Rightarrow> bytes) \<Rightarrow> ttl_bucket_plan \<Rightarrow> destination \<Rightarrow> duration \<Rightarrow> string" where
  "args_fingerprint sha p d bucket = hex_prefix (sha (args_bytes p d bucket)) 8"

definition stable_queue_name :: "(bytes \<Rightarrow> bytes) \<Rightarrow> ttl_bucket_plan \<Rightarrow> destination \<Rightarrow> duration \<Rightarrow> string" where
  "stable_queue_name sha p d bucket = DELAY_QUEUE_PREFIX @ destination_hash sha d @ ''.'' @
     args_fingerprint sha p d bucket @ ''.'' @ show_nat (as_millis bucket)"

definition legacy_delay_queue_name :: "(bytes \<Rightarrow> bytes) \<Rightarrow> destination \<Rightarrow> duration \<Rightarrow> string" where
  "legacy_delay_queue_name sha d bucket =
     DELAY_QUEUE_PREFIX @ destination_hash sha d @ ''.'' @ show_nat (as_millis bucket)"

definition queue_for :: "(bytes \<Rightarrow> bytes) \<Rightarrow> ttl_bucket_plan \<Rightarrow> destination \<Rightarrow> duration \<Rightarrow> delay_error + queue_spec" where
  "queue_for sha p d delay = bind_res (bucket_for p delay) (\<lambda>bucket.
     Inr \<lparr>q_name = stable_queue_name sha p d bucket, q_durable = True, q_exclusive = False,
       q_auto_delete = False, q_kind = Quorum,
       q_dead_letter_exchange = Some (dest_exchange d),
       q_dead_letter_routing_key = Some (dest_routing_key d),
       q_message_ttl = Some bucket, q_expires = Some (dur_sat_add bucket (tb_expiry_margin p)),
       q_delivery_limit = None, q_arguments = []\<rparr>)"

definition expected_queue_names :: "(bytes \<Rightarrow> bytes) \<Rightarrow> ttl_bucket_plan \<Rightarrow> destination \<Rightarrow> string list" where
  "expected_queue_names sha p d = map (stable_queue_name sha p d) (tb_buckets p)"

section \<open>The sweep\<close>

datatype sweep_kept_reason =
  NotSynthesized | UnknownDestination | InCurrentPlan | HasMessages | DeleteRefused

record delay_queue_sweep =
  sw_deleted :: "string list"
  sw_absent :: "string list"
  sw_kept :: "(string \<times> sweep_kept_reason) list"

definition split_once :: "char \<Rightarrow> string \<Rightarrow> (string \<times> string) option" where
  "split_once c s = (case dropWhile (\<lambda>x. x \<noteq> c) s of
     [] \<Rightarrow> None | _ # rest \<Rightarrow> Some (takeWhile (\<lambda>x. x \<noteq> c) s, rest))"

definition classify_candidate :: "string \<Rightarrow> (string \<times> string list) list \<Rightarrow> sweep_kept_reason option" where
  "classify_candidate name known =
     (case strip_prefix DELAY_QUEUE_PREFIX name of
        None \<Rightarrow> Some NotSynthesized
      | Some rest \<Rightarrow>
          (case split_once CHR ''.'' rest of
             None \<Rightarrow> Some NotSynthesized
           | Some (hash, _) \<Rightarrow>
               (if hash = [] then Some NotSynthesized
                else (case find (\<lambda>(h, _). h = hash) known of
                   None \<Rightarrow> Some UnknownDestination
                 | Some (_, expected) \<Rightarrow> if name \<in> set expected then Some InCurrentPlan else None))))"

definition sweep_candidates :: "(bytes \<Rightarrow> bytes) \<Rightarrow> ttl_bucket_plan \<Rightarrow> destination list \<Rightarrow> string list \<Rightarrow> string list" where
  "sweep_candidates sha p ds extra =
     remdups_adj (sort (concat (map (\<lambda>d. map (legacy_delay_queue_name sha d) (tb_buckets p)) ds) @ extra))"

definition known_destinations :: "(bytes \<Rightarrow> bytes) \<Rightarrow> ttl_bucket_plan \<Rightarrow> destination list \<Rightarrow> (string \<times> string list) list" where
  "known_destinations sha p ds = map (\<lambda>d. (destination_hash sha d, expected_queue_names sha p d)) ds"

fun sweep_loop :: "('e, 'm) topology_channel_scheme \<Rightarrow> (string \<times> string list) list \<Rightarrow> string list \<Rightarrow>
    delay_queue_sweep \<Rightarrow> 'e \<Rightarrow> delay_queue_sweep \<times> 'e" where
  "sweep_loop ch known [] sw e = (sw, e)"
| "sweep_loop ch known (name # names) sw e =
     (case classify_candidate name known of
        Some reason \<Rightarrow> sweep_loop ch known names (sw\<lparr>sw_kept := sw_kept sw @ [(name, reason)]\<rparr>) e
      | None \<Rightarrow>
          (case queue_size ch name e of
             (Inr n, e1) \<Rightarrow>
               (if n = 0 then
                  (case delete_queue ch name e1 of
                     (Inr _, e2) \<Rightarrow> sweep_loop ch known names (sw\<lparr>sw_deleted := sw_deleted sw @ [name]\<rparr>) e2
                   | (Inl _, e2) \<Rightarrow> sweep_loop ch known names (sw\<lparr>sw_kept := sw_kept sw @ [(name, DeleteRefused)]\<rparr>) e2)
                else sweep_loop ch known names (sw\<lparr>sw_kept := sw_kept sw @ [(name, HasMessages)]\<rparr>) e1)
           | (Inl _, e1) \<Rightarrow> sweep_loop ch known names (sw\<lparr>sw_absent := sw_absent sw @ [name]\<rparr>) e1))"

definition sweep_delay_queues :: "(bytes \<Rightarrow> bytes) \<Rightarrow> ('e, 'm) topology_channel_scheme \<Rightarrow> ttl_bucket_plan \<Rightarrow>
    destination list \<Rightarrow> string list \<Rightarrow> 'e \<Rightarrow> delay_queue_sweep \<times> 'e" where
  "sweep_delay_queues sha ch p ds extra e =
     sweep_loop ch (known_destinations sha p ds) (sweep_candidates sha p ds extra)
       \<lparr>sw_deleted = [], sw_absent = [], sw_kept = []\<rparr> e"

section \<open>Buckets\<close>

lemma distinct_dedup_sorted: "sorted xs \<Longrightarrow> distinct (remdups_adj xs)"
proof (induction xs rule: remdups_adj.induct)
  case (3 x y xs)
  show ?case
  proof (cases "x = y")
    case False
    moreover have "x \<notin> set xs"
    proof
      assume "x \<in> set xs"
      then have "y \<le> x" "x \<le> y" using "3.prems" by simp_all
      with False show False by simp
    qed
    ultimately show ?thesis using "3.IH"(2) "3.prems" by simp
  qed (use 3 in simp)
qed simp_all

definition ttl_plan_wf :: "ttl_bucket_plan \<Rightarrow> bool" where
  "ttl_plan_wf p \<longleftrightarrow> tb_buckets p \<noteq> [] \<and> sorted (tb_buckets p) \<and> distinct (tb_buckets p) \<and>
     0 \<notin> set (tb_buckets p) \<and> from_millis 1 \<le> tb_expiry_margin p"

lemma ttl_bucket_compile_Inr:
  "ttl_bucket_compile c = Inr p \<longleftrightarrow> delay_ok c \<and> p = \<lparr>tb_buckets = remdups_adj (sort (dc_buckets c)),
     tb_expiry_margin = max (dc_queue_expiry_margin c) (from_millis 1)\<rparr>"
  by (auto simp: ttl_bucket_compile_def delay_ok_def not_less)

lemma ttl_bucket_compile_wf:
  assumes "ttl_bucket_compile c = Inr p"
  shows "ttl_plan_wf p" and "set (tb_buckets p) = set (dc_buckets c)"
  using assms
  by (auto simp: ttl_bucket_compile_Inr ttl_plan_wf_def delay_ok_def sorted_remdups_adj distinct_dedup_sorted)

lemma bucket_for_cases:
  assumes "sorted (tb_buckets p)"
  shows "bucket_for p d = Inr b \<longleftrightarrow> b \<in> set (tb_buckets p) \<and> d \<le> b \<and> (\<forall>x\<in>set (tb_buckets p). d \<le> x \<longrightarrow> b \<le> x)"
proof (cases "\<exists>x\<in>set (tb_buckets p). d \<le> x")
  case True
  let ?S = "{x \<in> set (tb_buckets p). d \<le> x}"
  from True have ne: "?S \<noteq> {}" "finite ?S" by auto
  have "find (\<lambda>x. d \<le> x) (tb_buckets p) = Some (Min ?S)"
    by (rule sorted_find_Min [OF assms True])
  then have "bucket_for p d = Inr b \<longleftrightarrow> Min ?S = b" by (simp add: bucket_for_def)
  also have "\<dots> \<longleftrightarrow> b \<in> ?S \<and> (\<forall>x\<in>?S. b \<le> x)" by (rule Min_eq_iff [OF ne(2,1)])
  finally show ?thesis by blast
next
  case False
  then have "find (\<lambda>x. d \<le> x) (tb_buckets p) = None" by (auto simp: find_None_iff)
  with False show ?thesis by (auto simp: bucket_for_def)
qed

section \<open>Names\<close>

lemma hex_digit_no_dot: "d < 16 \<Longrightarrow> hex_digit d \<noteq> CHR ''.''"
proof -
  assume "d < 16"
  then have "hex_digit d \<in> set ''0123456789abcdef''" unfolding hex_digit_def by (intro nth_mem) simp
  moreover have "CHR ''.'' \<notin> set ''0123456789abcdef''" by simp
  ultimately show "hex_digit d \<noteq> CHR ''.''" by metis
qed

lemma hex_prefix_no_dot: "CHR ''.'' \<notin> set (hex_prefix bs n)"
proof -
  have "CHR ''.'' \<notin> set (hex_byte b)" for b
  proof -
    have "unat b div 16 < 16" using unat_bound [of b] by (simp add: less_mult_imp_div_less)
    then have "hex_digit (unat b div 16) \<noteq> CHR ''.''" "hex_digit (unat b mod 16) \<noteq> CHR ''.''"
      by (simp_all add: hex_digit_no_dot)
    then show ?thesis unfolding hex_byte_def by simp
  qed
  then have "CHR ''.'' \<notin> set (concat (map hex_byte (take ((n + 1) div 2) bs)))" by auto
  then show ?thesis unfolding hex_prefix_def by (meson in_set_takeD)
qed

lemma dot_split:
  assumes "CHR ''.'' \<notin> set h" "CHR ''.'' \<notin> set h'" "h @ CHR ''.'' # r = h' @ CHR ''.'' # r'"
  shows "h = h' \<and> r = r'"
proof -
  have all: "\<forall>x\<in>set h. x \<noteq> CHR ''.''" "\<forall>x\<in>set h'. x \<noteq> CHR ''.''" using assms(1,2) by auto
  have "takeWhile (\<lambda>x. x \<noteq> CHR ''.'') (h @ CHR ''.'' # r) = h"
    "takeWhile (\<lambda>x. x \<noteq> CHR ''.'') (h' @ CHR ''.'' # r') = h'"
    using all by (simp_all add: takeWhile_append)
  then have "h = h'" using assms(3) by simp
  with assms(3) show ?thesis by simp
qed

lemma split_once_dot: "CHR ''.'' \<notin> set h \<Longrightarrow> split_once CHR ''.'' (h @ CHR ''.'' # r) = Some (h, r)"
proof -
  assume "CHR ''.'' \<notin> set h"
  then have "\<forall>x\<in>set h. x \<noteq> CHR ''.''" by auto
  then show ?thesis by (simp add: split_once_def takeWhile_append dropWhile_append)
qed

lemma split_once_Some: "split_once c s = Some (h, r) \<Longrightarrow> s = h @ c # r \<and> c \<notin> set h"
proof -
  assume s: "split_once c s = Some (h, r)"
  then obtain x where d: "dropWhile (\<lambda>x. x \<noteq> c) s = x # r" and h: "h = takeWhile (\<lambda>x. x \<noteq> c) s"
    by (auto simp: split_once_def split: list.splits)
  have "x = c" using hd_dropWhile [of "\<lambda>x. x \<noteq> c" s] d by simp
  moreover have "c \<notin> set h" using set_takeWhileD [of c "\<lambda>x. x \<noteq> c" s] h by blast
  moreover have "s = h @ x # r" using takeWhile_dropWhile_id [of "\<lambda>x. x \<noteq> c" s] d h by simp
  ultimately show ?thesis by simp
qed

lemma stable_queue_name_inj:
  assumes "stable_queue_name sha p d b = stable_queue_name sha p' d' b'"
  shows "destination_hash sha d = destination_hash sha d' \<and> args_fingerprint sha p d b = args_fingerprint sha p' d' b'"
proof -
  have "destination_hash sha d @ CHR ''.'' # (args_fingerprint sha p d b @ CHR ''.'' # show_nat (as_millis b)) =
    destination_hash sha d' @ CHR ''.'' # (args_fingerprint sha p' d' b' @ CHR ''.'' # show_nat (as_millis b'))"
    using assms by (simp add: stable_queue_name_def)
  from dot_split [OF _ _ this] have 1: "destination_hash sha d = destination_hash sha d'"
    and "args_fingerprint sha p d b @ CHR ''.'' # show_nat (as_millis b) =
      args_fingerprint sha p' d' b' @ CHR ''.'' # show_nat (as_millis b')"
    by (simp_all add: destination_hash_def hex_prefix_no_dot)
  from dot_split [OF _ _ this(2)] 1 show ?thesis
    by (simp add: args_fingerprint_def hex_prefix_no_dot)
qed

section \<open>The sweep, observed call by call\<close>

text \<open>A channel that records the probes and deletions it forwards.\<close>

datatype sweep_call = Probe string "u32 transport_result" | DeleteCall string "unit transport_result"

definition pass_through :: "('a \<Rightarrow> 'e \<Rightarrow> 'r \<times> 'e) \<Rightarrow> 'a \<Rightarrow> sweep_call list \<times> 'e \<Rightarrow> 'r \<times> (sweep_call list \<times> 'e)" where
  "pass_through f a le = (case f a (snd le) of (r, e) \<Rightarrow> (r, (fst le, e)))"

definition logged :: "'e topology_channel \<Rightarrow> (sweep_call list \<times> 'e) topology_channel" where
  "logged ch = \<lparr>declare_exchange = pass_through (declare_exchange ch),
     verify_exchange = pass_through (verify_exchange ch), declare_queue = pass_through (declare_queue ch),
     verify_queue = pass_through (verify_queue ch), bind_queue = pass_through (bind_queue ch),
     queue_size = (\<lambda>n (l, e). case queue_size ch n e of (r, e') \<Rightarrow> (r, (l @ [Probe n r], e'))),
     delete_queue = (\<lambda>n (l, e). case delete_queue ch n e of (r, e') \<Rightarrow> (r, (l @ [DeleteCall n r], e')))\<rparr>"

definition deletes_guarded :: "(string \<times> string list) list \<Rightarrow> sweep_call list \<Rightarrow> bool" where
  "deletes_guarded known log \<longleftrightarrow> (\<forall>i<length log. \<forall>n r. log ! i = DeleteCall n r \<longrightarrow>
     0 < i \<and> log ! (i - 1) = Probe n (Inr 0) \<and> classify_candidate n known = None)"

definition deleted_in :: "sweep_call list \<Rightarrow> string list" where
  "deleted_in log = concat (map (\<lambda>c. case c of DeleteCall n (Inr _) \<Rightarrow> [n] | _ \<Rightarrow> []) log)"

lemma deleted_in_append [simp]: "deleted_in (xs @ ys) = deleted_in xs @ deleted_in ys"
  by (simp add: deleted_in_def)

lemma deletes_guarded_probe: "deletes_guarded known log \<Longrightarrow> deletes_guarded known (log @ [Probe n r])"
  by (auto simp: deletes_guarded_def nth_append less_Suc_eq)

lemma deletes_guarded_delete:
  assumes "deletes_guarded known log" "classify_candidate n known = None"
  shows "deletes_guarded known (log @ [Probe n (Inr 0), DeleteCall n r])"
  using deletes_guarded_probe [OF assms(1), of n "Inr 0"] assms(2)
  unfolding deletes_guarded_def
  by (auto simp: nth_append less_Suc_eq)

text \<open>Every candidate ends in exactly one of the three lists.\<close>

definition sweep_names :: "delay_queue_sweep \<Rightarrow> string multiset" where
  "sweep_names sw = mset (sw_deleted sw) + mset (sw_absent sw) + mset (map fst (sw_kept sw))"

lemma sweep_loop_accounts:
  "sweep_loop ch known names sw e = (sw', e') \<Longrightarrow> sweep_names sw' = sweep_names sw + mset names"
  by (induction ch known names sw e rule: sweep_loop.induct)
    (auto simp: sweep_names_def split: option.splits prod.splits sum.splits if_splits)

lemma sweep_loop_guarded:
  "sweep_loop (logged ch) known names sw (log, e) = (sw', (log', e')) \<Longrightarrow> deletes_guarded known log \<Longrightarrow>
   sw_deleted sw = deleted_in log \<Longrightarrow> deletes_guarded known log' \<and> sw_deleted sw' = deleted_in log'"
proof (induction names arbitrary: sw log e)
  case (Cons n names)
  show ?case
  proof (cases "classify_candidate n known")
    case (Some reason)
    with Cons.prems show ?thesis
      by (intro Cons.IH [of "sw\<lparr>sw_kept := sw_kept sw @ [(n, reason)]\<rparr>" log e]) auto
  next
    case None
    obtain r e1 where p: "queue_size ch n e = (r, e1)" by (cases "queue_size ch n e")
    have probe: "queue_size (logged ch) n (log, e) = (r, (log @ [Probe n r], e1))"
      by (simp add: logged_def p)
    show ?thesis
    proof (cases "r = Inr 0")
      case False
      have "\<exists>sw1. sweep_loop (logged ch) known names sw1 (log @ [Probe n r], e1) = (sw', (log', e')) \<and>
          sw_deleted sw1 = sw_deleted sw"
        using None probe Cons.prems(1) False
        by (cases r) (auto intro: exI [of _ "sw\<lparr>sw_absent := sw_absent sw @ [n]\<rparr>"]
            exI [of _ "sw\<lparr>sw_kept := sw_kept sw @ [(n, HasMessages)]\<rparr>"])
      with Cons.IH deletes_guarded_probe [OF Cons.prems(2)] Cons.prems(3) show ?thesis
        by (force simp: deleted_in_def)
    next
      case True
      obtain r2 e2 where d: "delete_queue ch n e1 = (r2, e2)" by (cases "delete_queue ch n e1")
      have del: "delete_queue (logged ch) n (log @ [Probe n r], e1) = (r2, (log @ [Probe n r, DeleteCall n r2], e2))"
        by (simp add: logged_def d)
      have "\<exists>sw1. sweep_loop (logged ch) known names sw1 (log @ [Probe n r, DeleteCall n r2], e2) = (sw', (log', e')) \<and>
          sw_deleted sw1 = deleted_in (log @ [Probe n r, DeleteCall n r2])"
        using None probe del True Cons.prems(1,3)
        by (cases r2) (auto simp: deleted_in_def intro: exI [of _ "sw\<lparr>sw_deleted := sw_deleted sw @ [n]\<rparr>"]
            exI [of _ "sw\<lparr>sw_kept := sw_kept sw @ [(n, DeleteRefused)]\<rparr>"])
      with Cons.IH deletes_guarded_delete [OF Cons.prems(2) None, of r2] True show ?thesis by blast
    qed
  qed
qed simp

lemma strip_prefix_Some: "strip_prefix p s = Some r \<longleftrightarrow> s = p @ r"
  unfolding strip_prefix_def by (metis append_eq_conv_conj option.distinct(1) option.inject)

lemma classify_None:
  assumes "classify_candidate n (known_destinations sha p ds) = None"
    and "inj_on (destination_hash sha) (set ds)"
  obtains d r where "d \<in> set ds" "n = DELAY_QUEUE_PREFIX @ destination_hash sha d @ ''.'' @ r"
    "\<forall>d'\<in>set ds. n \<notin> set (expected_queue_names sha p d')"
proof -
  from assms(1) obtain rest where rest: "strip_prefix DELAY_QUEUE_PREFIX n = Some rest"
    by (auto simp: classify_candidate_def split: option.splits)
  with assms(1) obtain h r where s: "split_once CHR ''.'' rest = Some (h, r)"
    by (auto simp: classify_candidate_def split: option.splits)
  with rest assms(1) obtain h1 x where f: "find (\<lambda>(h', _). h' = h) (known_destinations sha p ds) = Some (h1, x)"
    and x: "n \<notin> set x"
    by (auto simp: classify_candidate_def split: option.splits if_splits)
  have n: "n = DELAY_QUEUE_PREFIX @ h @ CHR ''.'' # r" and h: "CHR ''.'' \<notin> set h"
    using rest split_once_Some [OF s] by (simp_all add: strip_prefix_Some)
  from f have "(h1, x) \<in> set (known_destinations sha p ds)" "h1 = h"
    by (auto simp: find_Some_iff) (metis nth_mem)
  then obtain d where d: "d \<in> set ds" "h = destination_hash sha d" "x = expected_queue_names sha p d"
    by (auto simp: known_destinations_def)
  have "n \<notin> set (expected_queue_names sha p d')" if d': "d' \<in> set ds" for d'
  proof
    assume "n \<in> set (expected_queue_names sha p d')"
    then obtain b where "n = stable_queue_name sha p d' b" by (auto simp: expected_queue_names_def)
    then have "h @ CHR ''.'' # r = destination_hash sha d' @ CHR ''.'' #
        (args_fingerprint sha p d' b @ CHR ''.'' # show_nat (as_millis b))"
      using n by (simp add: stable_queue_name_def)
    from dot_split [OF h _ this] have "destination_hash sha d = destination_hash sha d'"
      using d(2) by (simp add: destination_hash_def hex_prefix_no_dot)
    then have "d = d'" using assms(2) d(1) d' by (simp add: inj_on_eq_iff)
    with d(3) x \<open>n \<in> _\<close> show False by simp
  qed
  with d n show thesis by (intro that [of d r]) auto
qed

section \<open>Properties\<close>

text \<open>(C29) A delayed message is never early and never later than the next bucket: the queue built for a
  delay has as its time to live the least configured bucket that is not below the delay, dead-letters
  to the requested destination and has a name the plan announces; a delay is refused exactly when
  it exceeds every configured bucket.\<close>

theorem delay_queue_never_early:
  assumes "ttl_bucket_compile c = Inr p"
  shows "case queue_for sha p d delay of
      Inr q \<Rightarrow> (\<exists>b. q_message_ttl q = Some b \<and> b \<in> set (dc_buckets c) \<and> delay \<le> b \<and>
          (\<forall>x\<in>set (dc_buckets c). delay \<le> x \<longrightarrow> b \<le> x) \<and>
          q_expires q = Some (min (b + max (dc_queue_expiry_margin c) (from_millis 1)) duration_max)) \<and>
        q_dead_letter_exchange q = Some (dest_exchange d) \<and>
        q_dead_letter_routing_key q = Some (dest_routing_key d) \<and>
        q_name q \<in> set (expected_queue_names sha p d)
    | Inl e \<Rightarrow> \<forall>x\<in>set (dc_buckets c). x < delay"
proof -
  have wf: "sorted (tb_buckets p)" and set: "set (tb_buckets p) = set (dc_buckets c)"
    and margin: "tb_expiry_margin p = max (dc_queue_expiry_margin c) (from_millis 1)"
    using ttl_bucket_compile_wf [OF assms] assms by (auto simp: ttl_plan_wf_def ttl_bucket_compile_Inr)
  show ?thesis
  proof (cases "bucket_for p delay")
    case (Inl e)
    then have "find (\<lambda>b. b \<ge> delay) (tb_buckets p) = None"
      by (auto simp: bucket_for_def ok_or_def split: option.splits)
    then have "\<forall>x\<in>set (dc_buckets c). x < delay" by (auto simp: find_None_iff set not_le)
    with Inl show ?thesis by (simp add: queue_for_def)
  next
    case (Inr b)
    then have "b \<in> set (tb_buckets p) \<and> delay \<le> b \<and> (\<forall>x\<in>set (tb_buckets p). delay \<le> x \<longrightarrow> b \<le> x)"
      by (rule bucket_for_cases [OF wf, THEN iffD1])
    with Inr show ?thesis
      by (auto simp: queue_for_def set margin dur_sat_add_def expected_queue_names_def)
  qed
qed

definition demo_delay :: delay_config where
  "demo_delay = delay_config_default\<lparr>dc_mode := Ttl, dc_buckets := [5, 1, 5]\<rparr>"

definition demo_plan :: ttl_bucket_plan where
  "demo_plan = \<lparr>tb_buckets = [1, 5], tb_expiry_margin = 60000000000\<rparr>"

definition demo_dest :: destination where
  "demo_dest = \<lparr>dest_exchange = ''x'', dest_routing_key = ''jobs''\<rparr>"

lemma demo_plan_compile: "ttl_bucket_compile demo_delay = Inr demo_plan"
  by (simp add: ttl_bucket_compile_def demo_delay_def demo_plan_def delay_config_default_def
      from_secs_def from_millis_def)

theorem delay_queue_never_early_witness:
  "max (5::nat) 1 < 6 \<and> (\<exists>e. queue_for (\<lambda>x. x) demo_plan demo_dest 6 = Inl e)"
proof -
  have "queue_for (\<lambda>x. x) demo_plan demo_dest 6 = Inl e \<Longrightarrow> \<forall>x\<in>set (dc_buckets demo_delay). x < 6" for e
    using delay_queue_never_early [OF demo_plan_compile, where sha = "\<lambda>x. x" and d = demo_dest and delay = 6] by simp
  moreover obtain e where "queue_for (\<lambda>x. x) demo_plan demo_dest 6 = Inl e"
    by (simp add: queue_for_def bucket_for_def demo_plan_def ok_or_def)
  ultimately show ?thesis by (auto simp: demo_delay_def)
qed

text \<open>The fallback to the plugin strategy is dead for validated configurations: a pool uses TTL
  buckets exactly when its mode asks for them, and its plan has all configured buckets.\<close>

lemma strategy_never_falls_back:
  assumes "validate sha c = Inr v"
  shows "case delay_strategy_compile v of
      PluginStrategy \<Rightarrow> dc_mode (delay_of c) \<noteq> Ttl
    | TtlBuckets p \<Rightarrow> dc_mode (delay_of c) = Ttl \<and> ttl_plan_wf p \<and> set (tb_buckets p) = set (dc_buckets (delay_of c))"
proof -
  have d: "delay_of v = delay_of c" and ok: "delay_ok (delay_of c)"
    using assms by (auto simp: validate_Inr canon_def config.defs config_ok_def)
  from ok obtain p where p: "ttl_bucket_compile (delay_of c) = Inr p" by (auto simp: ttl_bucket_compile_Inr)
  show ?thesis using ttl_bucket_compile_wf [OF p]
    by (auto simp: delay_strategy_compile_def d p split: delay_mode.splits)
qed

text \<open>Queue identity: two delay queues of any two plans that share a name agree on the time to live
  and the expiry margin in milliseconds and on the dead-letter target, provided the digest prefixes
  of the two argument encodings do not collide. Changed arguments therefore lead to a new name and
  never to a conflicting redeclaration.\<close>

lemma delay_queue_identity:
  assumes "bucket_for p t = Inr b" "bucket_for p' t' = Inr b'"
    and "queue_for sha p d t = Inr q" "queue_for sha p' d' t' = Inr q'" "q_name q = q_name q'"
    and "inj_on (\<lambda>x. hex_prefix (sha x) 8) {args_bytes p d b, args_bytes p' d' b'}"
    and "\<forall>x\<in>{b, b', tb_expiry_margin p, tb_expiry_margin p'}. x \<le> duration_max"
    and "\<forall>s\<in>{dest_exchange d, dest_exchange d', dest_routing_key d, dest_routing_key d'}. length s < 2 ^ 64"
  shows "as_millis b = as_millis b' \<and> as_millis (tb_expiry_margin p) = as_millis (tb_expiry_margin p') \<and>
    q_dead_letter_exchange q = q_dead_letter_exchange q' \<and>
    q_dead_letter_routing_key q = q_dead_letter_routing_key q'"
proof -
  have n: "stable_queue_name sha p d b = stable_queue_name sha p' d' b'"
    and q: "q_dead_letter_exchange q = Some (dest_exchange d)" "q_dead_letter_exchange q' = Some (dest_exchange d')"
      "q_dead_letter_routing_key q = Some (dest_routing_key d)" "q_dead_letter_routing_key q' = Some (dest_routing_key d')"
    using assms(1-5) by (auto simp: queue_for_def)
  from stable_queue_name_inj [OF n] have "hex_prefix (sha (args_bytes p d b)) 8 = hex_prefix (sha (args_bytes p' d' b')) 8"
    by (simp add: args_fingerprint_def)
  then have eq: "args_bytes p d b = args_bytes p' d' b'"
    by (rule inj_onD [OF assms(6)]) (rule insertI1, rule insertI2, rule singletonI)
  have small: "as_millis x < 256 ^ 16" if "x \<le> duration_max" for x
  proof -
    have "as_millis x \<le> as_millis duration_max" using that by (simp add: as_millis_def div_le_mono)
    then show ?thesis by (simp add: as_millis_def duration_max_def)
  qed
  from eq have "be_bytes 16 (as_millis b) = be_bytes 16 (as_millis b')"
    "be_bytes 16 (as_millis (tb_expiry_margin p)) = be_bytes 16 (as_millis (tb_expiry_margin p'))"
    and f: "hash_value (dest_exchange d) @ hash_value (dest_routing_key d) @ [] =
      hash_value (dest_exchange d') @ hash_value (dest_routing_key d') @ []"
    by (simp_all add: args_bytes_def append_eq_append_conv hash_field_def hash_value_def)
  then have "as_millis b = as_millis b'" "as_millis (tb_expiry_margin p) = as_millis (tb_expiry_margin p')"
    using be_bytes_inj small assms(7) by blast+
  moreover from hash_value_prefix [OF f] hash_value_prefix [of "dest_routing_key d" "[]" "dest_routing_key d'" "[]"]
  have "dest_exchange d = dest_exchange d' \<and> dest_routing_key d = dest_routing_key d'" using assms(8) by simp
  ultimately show ?thesis by (simp add: q)
qed

text \<open>(C26) The maintenance sweep is safe and complete. Every deletion it sends is preceded immediately by a
  probe that found the queue empty; the queue carries the reserved prefix and the hash of a known
  destination, and no known destination produces that name under the current plan (destination
  hashes of the given destinations being distinct). The report lists as deleted exactly what the
  broker confirmed, and every candidate appears in exactly one of its three lists.\<close>

theorem sweep_deletes_only_empty_orphans:
  assumes "sweep_delay_queues sha (logged ch) p ds extra ([], e) = (sw, (log, e'))"
    and "inj_on (destination_hash sha) (set ds)"
  shows "(\<forall>i<length log. \<forall>n r. log ! i = DeleteCall n r \<longrightarrow>
      0 < i \<and> log ! (i - 1) = Probe n (Inr 0) \<and>
      (\<exists>d\<in>set ds. \<exists>rest. n = DELAY_QUEUE_PREFIX @ destination_hash sha d @ ''.'' @ rest) \<and>
      (\<forall>d\<in>set ds. n \<notin> set (expected_queue_names sha p d))) \<and>
    sw_deleted sw = deleted_in log \<and>
    mset (sw_deleted sw) + mset (sw_absent sw) + mset (map fst (sw_kept sw)) =
      mset_set (set (extra @ concat (map (\<lambda>d. map (legacy_delay_queue_name sha d) (tb_buckets p)) ds)))"
proof -
  let ?known = "known_destinations sha p ds"
  have "deletes_guarded ?known log \<and> sw_deleted sw = deleted_in log"
    by (rule sweep_loop_guarded [OF assms(1) [unfolded sweep_delay_queues_def]])
      (simp_all add: deletes_guarded_def deleted_in_def)
  then have g: "deletes_guarded ?known log" and del: "sw_deleted sw = deleted_in log" by simp_all
  have "sweep_names sw = mset (sweep_candidates sha p ds extra)"
    using sweep_loop_accounts [OF assms(1) [unfolded sweep_delay_queues_def]] by (simp add: sweep_names_def)
  also have "\<dots> = mset_set (set (sweep_candidates sha p ds extra))"
    by (rule mset_set_set [symmetric]) (simp add: sweep_candidates_def distinct_dedup_sorted)
  also have "set (sweep_candidates sha p ds extra) =
      set (extra @ concat (map (\<lambda>d. map (legacy_delay_queue_name sha d) (tb_buckets p)) ds))"
    by (auto simp: sweep_candidates_def)
  finally have acc: "mset (sw_deleted sw) + mset (sw_absent sw) + mset (map fst (sw_kept sw)) =
      mset_set (set (extra @ concat (map (\<lambda>d. map (legacy_delay_queue_name sha d) (tb_buckets p)) ds)))"
    by (simp add: sweep_names_def)
  have "0 < i \<and> log ! (i - 1) = Probe n (Inr 0) \<and>
      (\<exists>d\<in>set ds. \<exists>rest. n = DELAY_QUEUE_PREFIX @ destination_hash sha d @ ''.'' @ rest) \<and>
      (\<forall>d\<in>set ds. n \<notin> set (expected_queue_names sha p d))"
    if "i < length log" "log ! i = DeleteCall n r" for i n r
  proof -
    have "0 < i \<and> log ! (i - 1) = Probe n (Inr 0)" and c: "classify_candidate n ?known = None"
      using g that unfolding deletes_guarded_def by blast+
    moreover obtain d rest where "d \<in> set ds" "n = DELAY_QUEUE_PREFIX @ destination_hash sha d @ ''.'' @ rest"
      "\<forall>d'\<in>set ds. n \<notin> set (expected_queue_names sha p d')"
      using c assms(2) by (rule classify_None)
    ultimately show ?thesis by blast
  qed
  with del acc show ?thesis by blast
qed

text \<open>A broker on which every queue exists, is empty and can be deleted.\<close>

definition demo_channel :: "unit topology_channel" where
  "demo_channel = \<lparr>declare_exchange = \<lambda>_ e. (Inr (), e), verify_exchange = \<lambda>_ e. (Inr (), e),
     declare_queue = \<lambda>_ e. (Inr (), e), verify_queue = \<lambda>_ e. (Inr (), e), bind_queue = \<lambda>_ e. (Inr (), e),
     queue_size = \<lambda>_ e. (Inr 0, e), delete_queue = \<lambda>_ e. (Inr (), e)\<rparr>"

theorem sweep_deletes_only_empty_orphans_witness:
  "\<exists>sw log e'. sweep_delay_queues (\<lambda>x. x) (logged demo_channel) demo_plan [demo_dest] [''other''] ([], ()) =
      (sw, (log, e')) \<and> sw_deleted sw = deleted_in log"
proof -
  obtain sw log e' where s: "sweep_delay_queues (\<lambda>x. x) (logged demo_channel) demo_plan [demo_dest] [''other''] ([], ()) =
      (sw, (log, e'))" by (metis surj_pair)
  have "inj_on (destination_hash (\<lambda>x. x)) (set [demo_dest])" by simp
  from sweep_deletes_only_empty_orphans [OF s this] s show ?thesis by blast
qed

end
