(* ===== verification/Topology.thy ===== *)
theory Topology
  imports Delay
begin

text \<open>
  The broker topology of a pool: \<^verbatim>\<open>topology/plan.rs\<close> compiles the configured profiles into an
  immutable list of exchanges, queues and bindings, and \<^verbatim>\<open>topology/reconciler.rs\<close> applies a
  plan to a channel at most once per connection generation.
\<close>

section \<open>Definitions of a topology\<close>

record queue_definition =
  qd_name :: string
  qd_kind :: queue_kind
  qd_durable :: bool
  qd_exclusive :: bool
  qd_auto_delete :: bool
  qd_delivery_limit :: "u32 option"
  qd_arguments :: headers

definition queue_definition_new :: "string \<Rightarrow> queue_definition" where
  "queue_definition_new name = \<lparr>qd_name = name, qd_kind = Quorum, qd_durable = True,
     qd_exclusive = False, qd_auto_delete = False, qd_delivery_limit = None, qd_arguments = []\<rparr>"

definition qd_with_classic :: "queue_definition \<Rightarrow> queue_definition" where
  "qd_with_classic q = q\<lparr>qd_kind := Classic\<rparr>"

definition qd_with_kind :: "queue_kind \<Rightarrow> queue_definition \<Rightarrow> queue_definition" where
  "qd_with_kind k q = q\<lparr>qd_kind := k\<rparr>"

definition qd_with_durable :: "bool \<Rightarrow> queue_definition \<Rightarrow> queue_definition" where
  "qd_with_durable b q = q\<lparr>qd_durable := b\<rparr>"

definition qd_with_exclusive :: "bool \<Rightarrow> queue_definition \<Rightarrow> queue_definition" where
  "qd_with_exclusive b q = q\<lparr>qd_exclusive := b\<rparr>"

definition qd_with_auto_delete :: "bool \<Rightarrow> queue_definition \<Rightarrow> queue_definition" where
  "qd_with_auto_delete b q = q\<lparr>qd_auto_delete := b\<rparr>"

definition qd_with_delivery_limit :: "u32 \<Rightarrow> queue_definition \<Rightarrow> queue_definition" where
  "qd_with_delivery_limit l q = q\<lparr>qd_delivery_limit := Some l\<rparr>"

text \<open>A plan error is its message.\<close>

type_synonym topology_plan_error = string

definition queue_compile :: "queue_definition \<Rightarrow> topology_plan_error + queue_spec" where
  "queue_compile q =
     (if qd_kind q = Quorum \<and> (qd_exclusive q \<or> qd_auto_delete q)
      then Inl (''quorum queue '' @ [CHR 0x27] @ qd_name q @ [CHR 0x27] @ '' cannot be exclusive or auto-delete'')
      else Inr \<lparr>q_name = qd_name q, q_durable = qd_durable q, q_exclusive = qd_exclusive q,
        q_auto_delete = qd_auto_delete q, q_kind = qd_kind q, q_dead_letter_exchange = None,
        q_dead_letter_routing_key = None, q_message_ttl = None, q_expires = None,
        q_delivery_limit = qd_delivery_limit q, q_arguments = qd_arguments q\<rparr>)"

record dead_letter_definition =
  dd_source_queue :: string
  dd_exchange :: string
  dd_queue :: string
  dd_routing_key :: string

record topology_definition =
  td_exchanges :: "exchange_spec list"
  td_queues :: "queue_definition list"
  td_bindings :: "binding_spec list"
  td_dead_letters :: "dead_letter_definition list"

definition topology_definition_new ::
  "exchange_spec list \<Rightarrow> queue_definition list \<Rightarrow> binding_spec list \<Rightarrow> topology_definition" where
  "topology_definition_new xs qs bs =
     \<lparr>td_exchanges = xs, td_queues = qs, td_bindings = bs, td_dead_letters = []\<rparr>"

definition with_dead_letter :: "dead_letter_definition \<Rightarrow> topology_definition \<Rightarrow> topology_definition" where
  "with_dead_letter d t = t\<lparr>td_dead_letters := td_dead_letters t @ [d]\<rparr>"

record topology_plan =
  tp_mode :: topology_mode
  tp_exchanges :: "exchange_spec list"
  tp_queues :: "queue_spec list"
  tp_bindings :: "binding_spec list"

section \<open>Compilation\<close>

definition direct_exchange :: "string \<Rightarrow> exchange_spec" where
  "direct_exchange name = \<lparr>x_name = name, x_kind = Direct, x_durable = True, x_auto_delete = False,
     x_internal = False, x_arguments = []\<rparr>"

text \<open>The local variables of the loop over the dead-letter definitions.\<close>

record compile_state =
  cs_exchanges :: "exchange_spec list"
  cs_queues :: "queue_spec list"
  cs_bindings :: "binding_spec list"
  cs_seen_exchanges :: "string list"
  cs_seen_dlqs :: "string list"

definition set_dead_letter :: "dead_letter_definition \<Rightarrow> queue_spec \<Rightarrow> queue_spec" where
  "set_dead_letter d q = q\<lparr>q_dead_letter_exchange := Some (dd_exchange d),
     q_dead_letter_routing_key := Some (dd_routing_key d)\<rparr>"

definition dead_letter_binding :: "dead_letter_definition \<Rightarrow> binding_spec" where
  "dead_letter_binding d = \<lparr>b_queue = dd_queue d, b_exchange = dd_exchange d, b_routing_key = dd_routing_key d\<rparr>"

definition compile_dead_letter :: "dead_letter_definition \<Rightarrow> compile_state \<Rightarrow> topology_plan_error + compile_state" where
  "compile_dead_letter d s =
     (if \<not> (\<exists>q\<in>set (cs_queues s). q_name q = dd_source_queue d)
      then Inl (''dead-letter source queue '' @ [CHR 0x27] @ dd_source_queue d @ [CHR 0x27] @ '' is not defined'')
      else let s = s\<lparr>cs_queues := update_first (\<lambda>q. q_name q = dd_source_queue d) (set_dead_letter d) (cs_queues s)\<rparr>;
        s = (if dd_exchange d \<in> set (cs_seen_exchanges s) then s
             else s\<lparr>cs_exchanges := cs_exchanges s @ [direct_exchange (dd_exchange d)],
               cs_seen_exchanges := cs_seen_exchanges s @ [dd_exchange d]\<rparr>) in
        bind_res (if dd_queue d \<in> set (cs_seen_dlqs s) then Inr s
           else bind_res (queue_compile (queue_definition_new (dd_queue d))) (\<lambda>q.
             Inr (s\<lparr>cs_queues := cs_queues s @ [q], cs_seen_dlqs := cs_seen_dlqs s @ [dd_queue d]\<rparr>)))
          (\<lambda>s. Inr (if dead_letter_binding d \<in> set (cs_bindings s) then s
            else s\<lparr>cs_bindings := cs_bindings s @ [dead_letter_binding d]\<rparr>)))"

fun compile_dead_letters :: "dead_letter_definition list \<Rightarrow> compile_state \<Rightarrow> topology_plan_error + compile_state" where
  "compile_dead_letters [] s = Inr s"
| "compile_dead_letters (d # ds) s = bind_res (compile_dead_letter d s) (compile_dead_letters ds)"

definition plan_compile :: "topology_mode \<Rightarrow> topology_definition \<Rightarrow> topology_plan_error + topology_plan" where
  "plan_compile mode t =
     bind_res (map_res queue_compile (td_queues t)) (\<lambda>qs.
     bind_res (compile_dead_letters (td_dead_letters t)
        \<lparr>cs_exchanges = td_exchanges t, cs_queues = qs, cs_bindings = td_bindings t,
         cs_seen_exchanges = [], cs_seen_dlqs = []\<rparr>) (\<lambda>s.
     Inr \<lparr>tp_mode = mode, tp_exchanges = cs_exchanges s, tp_queues = cs_queues s, tp_bindings = cs_bindings s\<rparr>))"

section \<open>The plan of a configuration\<close>

text \<open>\<^verbatim>\<open>routing_key.replace("{queue}", queue)\<close>\<close>

fun replace_queue :: "string \<Rightarrow> string \<Rightarrow> string" where
  "replace_queue q [] = []"
| "replace_queue q (c # cs) =
     (if take 7 (c # cs) = ''{queue}'' then q @ replace_queue q (drop 6 cs) else c # replace_queue q cs)"

definition subscription_queue :: "'a config_scheme \<Rightarrow> subscription_config \<Rightarrow> queue_definition" where
  "subscription_queue c s =
     (let qd = qd_with_durable (queue_durable c) (qd_with_kind (queue_type c) (queue_definition_new (sc_queue s))) in
      case (queue_type c, delivery_limit c) of
        (Quorum, Some l) \<Rightarrow> qd_with_delivery_limit l qd
      | _ \<Rightarrow> qd)"

definition delayed_part :: "'a config_scheme \<Rightarrow> subscription_config list \<Rightarrow> exchange_spec list \<times> binding_spec list" where
  "delayed_part c subs =
     (if topology_mode_of c = Declare \<and> delay_strategy_compile c = PluginStrategy
      then ([delayed_exchange_spec DELAYED_EXCHANGE_NAME],
        map (\<lambda>s. \<lparr>b_queue = sc_queue s, b_exchange = DELAYED_EXCHANGE_NAME, b_routing_key = sc_queue s\<rparr>) subs)
      else ([], []))"

definition routes_part :: "'a config_scheme \<Rightarrow> subscription_config list \<Rightarrow> exchange_spec list \<times> binding_spec list" where
  "routes_part c subs =
     (let rs = filter (\<lambda>r. rt_exchange r \<noteq> []) (map snd (routes c)) in
      (map (\<lambda>r. direct_exchange (rt_exchange r)) rs,
       concat (map (\<lambda>r. map (\<lambda>s. \<lparr>b_queue = sc_queue s, b_exchange = rt_exchange r,
         b_routing_key = replace_queue (sc_queue s) (rt_routing_key r)\<rparr>)
           (filter (\<lambda>s. sc_broker s = rt_broker r) subs)) rs)))"

definition dead_letters_part :: "'a config_scheme \<Rightarrow> subscription_config list \<Rightarrow> dead_letter_definition list" where
  "dead_letters_part c subs =
     (case dead_letter c of
        Some dl \<Rightarrow> (if dl_enabled dl then
          map (\<lambda>s. \<lparr>dd_source_queue = sc_queue s, dd_exchange = dl_exchange dl, dd_queue = dl_queue dl,
            dd_routing_key = (case dl_routing_key dl of Some k \<Rightarrow> k | None \<Rightarrow> sc_queue s)\<rparr>) subs else [])
      | None \<Rightarrow> [])"

definition external_plan :: topology_plan where
  "external_plan = \<lparr>tp_mode = External, tp_exchanges = [], tp_queues = [], tp_bindings = []\<rparr>"

definition plan_from_profiles :: "'a config_scheme \<Rightarrow> worker_profile list \<Rightarrow> topology_plan" where
  "plan_from_profiles c profiles =
     (let subs = concat (map wp_subscriptions profiles);
          (dx, db) = delayed_part c subs; (rx, rb) = routes_part c subs;
          t = fold with_dead_letter (dead_letters_part c subs)
                (topology_definition_new (dx @ rx) (map (subscription_queue c) subs) (db @ rb))
      in case plan_compile (topology_mode_of c) t of Inr p \<Rightarrow> p | Inl _ \<Rightarrow> external_plan)"

definition plan_from_config :: "'a config_scheme \<Rightarrow> topology_plan" where
  "plan_from_config c = plan_from_profiles c (workers c)"

definition plan_from_config_and :: "'a config_scheme \<Rightarrow> worker_profile list \<Rightarrow> topology_plan" where
  "plan_from_config_and c extra = plan_from_profiles c (workers c @ extra)"

section \<open>The reconciler\<close>

record topology_reconciler =
  applied :: "(u64 \<times> topology_plan) option"

definition reconciler_new :: topology_reconciler where
  "reconciler_new = \<lparr>applied = None\<rparr>"

definition is_applied :: "topology_reconciler \<Rightarrow> u64 \<Rightarrow> topology_plan \<Rightarrow> bool" where
  "is_applied r generation plan \<longleftrightarrow> applied r = Some (generation, plan)"

definition apply_plan :: "('e, 'm) topology_channel_scheme \<Rightarrow> topology_plan \<Rightarrow> 'e \<Rightarrow> unit transport_result \<times> 'e" where
  "apply_plan ch plan =
     (case tp_mode plan of
        Declare \<Rightarrow>
          await_try (for_await (declare_exchange ch) (tp_exchanges plan)) (\<lambda>_.
          await_try (for_await (declare_queue ch) (tp_queues plan)) (\<lambda>_.
          for_await (bind_queue ch) (tp_bindings plan)))
      | Verify \<Rightarrow>
          await_try (for_await (verify_exchange ch) (tp_exchanges plan)) (\<lambda>_.
          for_await (verify_queue ch) (tp_queues plan))
      | External \<Rightarrow> (\<lambda>e. (Inr (), e)))"

definition reconcile :: "topology_reconciler \<Rightarrow> ('e, 'm) topology_channel_scheme \<Rightarrow> topology_plan \<Rightarrow> u64 \<Rightarrow> 'e \<Rightarrow>
    unit transport_result \<times> topology_reconciler \<times> 'e" where
  "reconcile r ch plan generation e =
     (if is_applied r generation plan then (Inr (), r, e)
      else (case apply_plan ch plan e of
          (Inl err, e') \<Rightarrow> (Inl err, r, e')
        | (Inr _, e') \<Rightarrow> (Inr (), r\<lparr>applied := Some (generation, plan)\<rparr>, e')))"

section \<open>A compiled plan is closed\<close>

definition dl_step :: "dead_letter_definition \<Rightarrow> compile_state \<Rightarrow> compile_state" where
  "dl_step d s =
     \<lparr>cs_exchanges = (if dd_exchange d \<in> set (cs_seen_exchanges s) then cs_exchanges s
        else cs_exchanges s @ [direct_exchange (dd_exchange d)]),
      cs_queues = update_first (\<lambda>q. q_name q = dd_source_queue d) (set_dead_letter d) (cs_queues s) @
        (if dd_queue d \<in> set (cs_seen_dlqs s) then [] else
          [\<lparr>q_name = dd_queue d, q_durable = True, q_exclusive = False, q_auto_delete = False, q_kind = Quorum,
            q_dead_letter_exchange = None, q_dead_letter_routing_key = None, q_message_ttl = None,
            q_expires = None, q_delivery_limit = None, q_arguments = []\<rparr>]),
      cs_bindings = (if dead_letter_binding d \<in> set (cs_bindings s) then cs_bindings s
        else cs_bindings s @ [dead_letter_binding d]),
      cs_seen_exchanges = (if dd_exchange d \<in> set (cs_seen_exchanges s) then cs_seen_exchanges s
        else cs_seen_exchanges s @ [dd_exchange d]),
      cs_seen_dlqs = (if dd_queue d \<in> set (cs_seen_dlqs s) then cs_seen_dlqs s
        else cs_seen_dlqs s @ [dd_queue d])\<rparr>"

lemma compile_dead_letter_eq:
  "dd_source_queue d \<in> q_name ` set (cs_queues s) \<Longrightarrow> compile_dead_letter d s = Inr (dl_step d s)"
  by (auto simp: compile_dead_letter_def dl_step_def Let_def queue_compile_def queue_definition_new_def)

definition state_closed :: "compile_state \<Rightarrow> bool" where
  "state_closed s \<longleftrightarrow>
     (\<forall>b\<in>set (cs_bindings s). b_queue b \<in> q_name ` set (cs_queues s) \<and> b_exchange b \<in> x_name ` set (cs_exchanges s)) \<and>
     set (cs_seen_exchanges s) \<subseteq> x_name ` set (cs_exchanges s) \<and> set (cs_seen_dlqs s) \<subseteq> q_name ` set (cs_queues s) \<and>
     (\<forall>q\<in>set (cs_queues s). \<forall>x. q_dead_letter_exchange q = Some x \<longrightarrow>
        (\<exists>b\<in>set (cs_bindings s). b_exchange b = x \<and> q_dead_letter_routing_key q = Some (b_routing_key b)))"

lemma set_dead_letter_name [simp]: "q_name (set_dead_letter d q) = q_name q"
  by (simp add: set_dead_letter_def)

lemma names_update_first [simp]:
  "q_name ` set (update_first P (set_dead_letter d) qs) = q_name ` set qs"
  using map_update_first [of q_name "set_dead_letter d" P qs] by (metis list.set_map set_dead_letter_name)

lemma dl_step_names:
  "q_name ` set (cs_queues (dl_step d s)) =
     q_name ` set (cs_queues s) \<union> (if dd_queue d \<in> set (cs_seen_dlqs s) then {} else {dd_queue d})"
  "x_name ` set (cs_exchanges (dl_step d s)) =
     x_name ` set (cs_exchanges s) \<union> (if dd_exchange d \<in> set (cs_seen_exchanges s) then {} else {dd_exchange d})"
  "set (cs_bindings (dl_step d s)) = insert (dead_letter_binding d) (set (cs_bindings s))"
  by (auto simp: dl_step_def image_Un direct_exchange_def)

lemma dl_step_closed:
  assumes "state_closed s" shows "state_closed (dl_step d s)"
proof -
  note c = assms [unfolded state_closed_def]
  have "\<exists>b\<in>set (cs_bindings (dl_step d s)). b_exchange b = x \<and> q_dead_letter_routing_key q = Some (b_routing_key b)"
    if q: "q \<in> set (cs_queues (dl_step d s))" "q_dead_letter_exchange q = Some x" for q x
  proof -
    from q consider "q \<in> set (cs_queues s)" | q0 where "q = set_dead_letter d q0"
      using set_update_first_subset [of "\<lambda>q. q_name q = dd_source_queue d" "set_dead_letter d" "cs_queues s"]
      by (auto simp: dl_step_def split: if_splits)
    then show ?thesis
    proof cases
      case 1
      with c q(2) show ?thesis by (auto simp: dl_step_names)
    next
      case 2
      with q(2) show ?thesis by (simp add: dl_step_names set_dead_letter_def dead_letter_binding_def)
    qed
  qed
  moreover have "b_queue b \<in> q_name ` set (cs_queues (dl_step d s)) \<and> b_exchange b \<in> x_name ` set (cs_exchanges (dl_step d s))"
    if "b \<in> set (cs_bindings (dl_step d s))" for b
    using that c by (auto simp: dl_step_names dead_letter_binding_def)
  moreover have "set (cs_seen_exchanges (dl_step d s)) \<subseteq> x_name ` set (cs_exchanges (dl_step d s))"
    "set (cs_seen_dlqs (dl_step d s)) \<subseteq> q_name ` set (cs_queues (dl_step d s))"
    using c unfolding dl_step_names by (auto simp: dl_step_def)
  ultimately show ?thesis unfolding state_closed_def by blast
qed

lemma compile_dead_letters_closed:
  assumes "state_closed s" "\<forall>d\<in>set ds. dd_source_queue d \<in> q_name ` set (cs_queues s)"
  shows "\<exists>s'. compile_dead_letters ds s = Inr s' \<and> state_closed s' \<and> q_name ` set (cs_queues s) \<subseteq> q_name ` set (cs_queues s')
    \<and> set (cs_bindings s') = set (cs_bindings s) \<union> dead_letter_binding ` set ds"
  using assms
proof (induction ds arbitrary: s)
  case (Cons d ds)
  have sub: "q_name ` set (cs_queues s) \<subseteq> q_name ` set (cs_queues (dl_step d s))" by (simp add: dl_step_names)
  have "\<forall>d'\<in>set ds. dd_source_queue d' \<in> q_name ` set (cs_queues (dl_step d s))" using Cons.prems(2) sub by auto
  from Cons.IH [OF dl_step_closed [OF Cons.prems(1)] this] sub Cons.prems(2) show ?case
    by (auto simp: compile_dead_letter_eq dl_step_names(3))
qed simp

section \<open>The plan of a configuration\<close>

lemma fold_with_dead_letter:
  "fold with_dead_letter ds t = t\<lparr>td_dead_letters := td_dead_letters t @ ds\<rparr>"
  by (induction ds arbitrary: t) (simp_all add: with_dead_letter_def)

definition subscription_spec :: "'a config_scheme \<Rightarrow> subscription_config \<Rightarrow> queue_spec" where
  "subscription_spec c s = \<lparr>q_name = sc_queue s, q_durable = queue_durable c, q_exclusive = False,
     q_auto_delete = False, q_kind = queue_type c, q_dead_letter_exchange = None,
     q_dead_letter_routing_key = None, q_message_ttl = None, q_expires = None,
     q_delivery_limit = (if queue_type c = Quorum then delivery_limit c else None), q_arguments = []\<rparr>"

lemma subscription_queue_compile: "queue_compile (subscription_queue c s) = Inr (subscription_spec c s)"
  by (auto simp: queue_compile_def subscription_queue_def subscription_spec_def Let_def queue_definition_new_def
      qd_with_durable_def qd_with_kind_def qd_with_delivery_limit_def split: queue_kind.splits option.splits)

lemma subscription_queues_compile:
  "map_res queue_compile (map (subscription_queue c) ss) = Inr (map (subscription_spec c) ss)"
  by (induction ss) (simp_all add: subscription_queue_compile)

text \<open>The state the dead-letter loop starts from.\<close>

definition start_state :: "'a config_scheme \<Rightarrow> subscription_config list \<Rightarrow> compile_state" where
  "start_state c subs =
     \<lparr>cs_exchanges = fst (delayed_part c subs) @ fst (routes_part c subs),
      cs_queues = map (subscription_spec c) subs,
      cs_bindings = snd (delayed_part c subs) @ snd (routes_part c subs),
      cs_seen_exchanges = [], cs_seen_dlqs = []\<rparr>"

lemma start_state_closed: "state_closed (start_state c subs)"
  by (auto simp: state_closed_def start_state_def delayed_part_def routes_part_def Let_def subscription_spec_def
      delayed_exchange_spec_def direct_exchange_def image_iff)

lemma start_state_names: "q_name ` set (cs_queues (start_state c subs)) = sc_queue ` set subs"
  by (simp add: start_state_def subscription_spec_def image_image)

lemma plan_from_profiles_eq:
  "plan_from_profiles c ps =
     (case compile_dead_letters (dead_letters_part c (concat (map wp_subscriptions ps)))
        (start_state c (concat (map wp_subscriptions ps))) of
        Inr s \<Rightarrow> \<lparr>tp_mode = topology_mode_of c, tp_exchanges = cs_exchanges s, tp_queues = cs_queues s,
          tp_bindings = cs_bindings s\<rparr>
      | Inl _ \<Rightarrow> external_plan)"
  by (simp add: plan_from_profiles_def plan_compile_def Let_def fold_with_dead_letter topology_definition_new_def
      subscription_queues_compile start_state_def split: prod.splits sum.splits)

lemma plan_from_profiles_state:
  obtains s where "state_closed s"
    "sc_queue ` set (concat (map wp_subscriptions ps)) \<subseteq> q_name ` set (cs_queues s)"
    "set (cs_bindings s) = set (cs_bindings (start_state c (concat (map wp_subscriptions ps)))) \<union>
       dead_letter_binding ` set (dead_letters_part c (concat (map wp_subscriptions ps)))"
    "plan_from_profiles c ps = \<lparr>tp_mode = topology_mode_of c, tp_exchanges = cs_exchanges s,
       tp_queues = cs_queues s, tp_bindings = cs_bindings s\<rparr>"
proof -
  let ?subs = "concat (map wp_subscriptions ps)"
  have "\<forall>d\<in>set (dead_letters_part c ?subs). dd_source_queue d \<in> q_name ` set (cs_queues (start_state c ?subs))"
    unfolding start_state_names by (auto simp: dead_letters_part_def split: option.splits)
  from compile_dead_letters_closed [OF start_state_closed this] obtain s where
    "compile_dead_letters (dead_letters_part c ?subs) (start_state c ?subs) = Inr s" "state_closed s"
    "q_name ` set (cs_queues (start_state c ?subs)) \<subseteq> q_name ` set (cs_queues s)"
    "set (cs_bindings s) = set (cs_bindings (start_state c ?subs)) \<union>
       dead_letter_binding ` set (dead_letters_part c ?subs)" by blast
  then show thesis unfolding start_state_names
    by (intro that [of s]) (auto simp: plan_from_profiles_eq)
qed

section \<open>Calls of the reconciler\<close>

datatype topology_call = CallDeclareExchange exchange_spec | CallVerifyExchange exchange_spec
  | CallDeclareQueue queue_spec | CallVerifyQueue queue_spec | CallBind binding_spec

definition record_call :: "('a \<Rightarrow> topology_call) \<Rightarrow> ('a \<Rightarrow> 'e \<Rightarrow> 'r \<times> 'e) \<Rightarrow> 'a \<Rightarrow> topology_call list \<times> 'e \<Rightarrow>
    'r \<times> (topology_call list \<times> 'e)" where
  "record_call k f a le = (case f a (snd le) of (r, e) \<Rightarrow> (r, (fst le @ [k a], e)))"

definition recorded :: "'e topology_channel \<Rightarrow> (topology_call list \<times> 'e) topology_channel" where
  "recorded ch = \<lparr>declare_exchange = record_call CallDeclareExchange (declare_exchange ch),
     verify_exchange = record_call CallVerifyExchange (verify_exchange ch),
     declare_queue = record_call CallDeclareQueue (declare_queue ch),
     verify_queue = record_call CallVerifyQueue (verify_queue ch),
     bind_queue = record_call CallBind (bind_queue ch),
     queue_size = (\<lambda>n (l, e). case queue_size ch n e of (r, e') \<Rightarrow> (r, (l, e'))),
     delete_queue = (\<lambda>n (l, e). case delete_queue ch n e of (r, e') \<Rightarrow> (r, (l, e')))\<rparr>"

definition plan_calls :: "topology_plan \<Rightarrow> topology_call list" where
  "plan_calls p = (case tp_mode p of
     Declare \<Rightarrow> map CallDeclareExchange (tp_exchanges p) @ map CallDeclareQueue (tp_queues p) @ map CallBind (tp_bindings p)
   | Verify \<Rightarrow> map CallVerifyExchange (tp_exchanges p) @ map CallVerifyQueue (tp_queues p)
   | External \<Rightarrow> [])"

text \<open>A recorded operation logs \<open>cs\<close> on success and a prefix of it on failure.\<close>

definition logs :: "(topology_call list \<times> 'e \<Rightarrow> ('x + unit) \<times> (topology_call list \<times> 'e)) \<Rightarrow> topology_call list \<Rightarrow> bool" where
  "logs m cs \<longleftrightarrow> (\<forall>l e r l' e'. m (l, e) = (r, (l', e')) \<longrightarrow>
     (case r of Inr _ \<Rightarrow> l' = l @ cs | Inl _ \<Rightarrow> \<exists>p q. l' = l @ p \<and> cs = p @ q))"

lemma logsD: "logs m cs \<Longrightarrow> m (l, e) = (r, (l', e')) \<Longrightarrow>
    (case r of Inr _ \<Rightarrow> l' = l @ cs | Inl _ \<Rightarrow> \<exists>p q. l' = l @ p \<and> cs = p @ q)"
  unfolding logs_def by blast

lemma logs_record: "logs (record_call k f a) [k a]"
  unfolding logs_def by (auto simp: record_call_def split: prod.splits sum.splits)

lemma logs_seq:
  assumes "logs m xs" "logs m' ys" shows "logs (await_try m (\<lambda>_. m')) (xs @ ys)"
  unfolding logs_def
proof (intro allI impI)
  fix l e r l' e' assume r: "await_try m (\<lambda>_. m') (l, e) = (r, (l', e'))"
  obtain r1 l1 e1 where m: "m (l, e) = (r1, (l1, e1))" by (metis prod.collapse)
  note 1 = logsD [OF assms(1) m]
  show "case r of Inr _ \<Rightarrow> l' = l @ xs @ ys | Inl _ \<Rightarrow> \<exists>p q. l' = l @ p \<and> xs @ ys = p @ q"
  proof (cases r1)
    case (Inl x)
    with 1 obtain p q where "l1 = l @ p" "xs = p @ q" by auto
    moreover from r m Inl have "r = Inl x" "l' = l1" by (simp_all add: await_try_def)
    ultimately show ?thesis by simp
  next
    case (Inr u)
    with 1 r m have "m' (l @ xs, e1) = (r, (l', e'))" by (simp add: await_try_def)
    note 2 = logsD [OF assms(2) this]
    show ?thesis
    proof (cases r)
      case (Inl x)
      with 2 obtain p q where "l' = l @ (xs @ p)" "xs @ ys = (xs @ p) @ q" by auto
      then have "\<exists>p q. l' = l @ p \<and> xs @ ys = p @ q" by blast
      with Inl show ?thesis by (simp only: sum.case)
    qed (use 2 in simp)
  qed
qed

lemma logs_for: "logs (for_await (record_call k f) xs) (map k xs)"
proof (induction xs)
  case Nil
  show ?case by (simp add: logs_def)
next
  case (Cons x xs)
  have "for_await (record_call k f) (x # xs) = await_try (record_call k f x) (\<lambda>_. for_await (record_call k f) xs)"
    by (rule ext) simp
  then show ?case using logs_seq [OF logs_record Cons.IH] by simp
qed

lemma logs_apply: "logs (apply_plan (recorded ch) p) (plan_calls p)"
proof (cases "tp_mode p")
  case Declare
  then show ?thesis unfolding apply_plan_def plan_calls_def
    by (simp add: recorded_def) (intro logs_seq logs_for)
next
  case Verify
  then show ?thesis unfolding apply_plan_def plan_calls_def
    by (simp add: recorded_def) (intro logs_seq logs_for)
next
  case External
  then show ?thesis by (simp add: apply_plan_def plan_calls_def logs_def)
qed

section \<open>Properties\<close>

definition demo_dl :: "string option \<Rightarrow> dead_letter_config" where
  "demo_dl k = \<lparr>dl_enabled = True, dl_exchange = ''dlx'', dl_queue = ''dead'', dl_routing_key = k\<rparr>"

text \<open>(C22) The plan of a configuration is closed and never degrades. It has the configured topology mode
  (the external fallback is dead); it declares every queue of every profile; every binding refers
  to a queue and an exchange of the same plan; and for every queue that dead-letters to an exchange
  with a routing key, the plan binds that key on that exchange, so that dead-lettered messages are
  not dropped.\<close>

theorem plan_closed:
  "tp_mode (plan_from_profiles c ps) = topology_mode_of c \<and>
   sc_queue ` set (concat (map wp_subscriptions ps)) \<subseteq> q_name ` set (tp_queues (plan_from_profiles c ps)) \<and>
   (\<forall>b\<in>set (tp_bindings (plan_from_profiles c ps)).
      b_queue b \<in> q_name ` set (tp_queues (plan_from_profiles c ps)) \<and>
      b_exchange b \<in> x_name ` set (tp_exchanges (plan_from_profiles c ps))) \<and>
   (\<forall>q\<in>set (tp_queues (plan_from_profiles c ps)). \<forall>x. q_dead_letter_exchange q = Some x \<longrightarrow>
      (\<exists>b\<in>set (tp_bindings (plan_from_profiles c ps)).
         b_exchange b = x \<and> q_dead_letter_routing_key q = Some (b_routing_key b)))"
proof -
  obtain s where s: "state_closed s" "sc_queue ` set (concat (map wp_subscriptions ps)) \<subseteq> q_name ` set (cs_queues s)"
    and p: "plan_from_profiles c ps = \<lparr>tp_mode = topology_mode_of c, tp_exchanges = cs_exchanges s,
       tp_queues = cs_queues s, tp_bindings = cs_bindings s\<rparr>"
    by (rule plan_from_profiles_state)
  show ?thesis unfolding p using s by (simp add: state_closed_def)
qed

theorem plan_closed_witness:
  "''jobs'' \<in> q_name ` set (tp_queues (plan_from_config (demo_config\<lparr>dead_letter := Some (demo_dl None)\<rparr>)))"
proof -
  have "''jobs'' \<in> sc_queue ` set (concat (map wp_subscriptions (workers demo_config)))"
    by (simp add: demo_config_def demo_worker_def demo_subscription_def)
  then show ?thesis unfolding plan_from_config_def
    using plan_closed [of "demo_config\<lparr>dead_letter := Some (demo_dl None)\<rparr>" "workers demo_config"] by auto
qed

text \<open>Every queue of a profile is reachable from the publisher side: through each named route of its
  broker with the route's key, \<open>{queue}\<close> replaced by the queue name, and, when delays go through the
  plugin in declare mode, through the delayed exchange with its own name; and its dead-letter key is
  bound to the dead-letter queue.\<close>

lemma plan_binds_subscriptions:
  assumes "w \<in> set ps" "s \<in> set (wp_subscriptions w)"
  shows "((n, r) \<in> set (routes c) \<and> rt_exchange r \<noteq> [] \<and> rt_broker r = sc_broker s \<longrightarrow>
      \<lparr>b_queue = sc_queue s, b_exchange = rt_exchange r, b_routing_key = replace_queue (sc_queue s) (rt_routing_key r)\<rparr>
        \<in> set (tp_bindings (plan_from_profiles c ps))) \<and>
    (topology_mode_of c = Declare \<and> delay_strategy_compile c = PluginStrategy \<longrightarrow>
      \<lparr>b_queue = sc_queue s, b_exchange = DELAYED_EXCHANGE_NAME, b_routing_key = sc_queue s\<rparr>
        \<in> set (tp_bindings (plan_from_profiles c ps))) \<and>
    (dead_letter c = Some dl \<and> dl_enabled dl \<longrightarrow>
      \<lparr>b_queue = dl_queue dl, b_exchange = dl_exchange dl,
        b_routing_key = (case dl_routing_key dl of Some k \<Rightarrow> k | None \<Rightarrow> sc_queue s)\<rparr>
        \<in> set (tp_bindings (plan_from_profiles c ps)))"
proof -
  let ?subs = "concat (map wp_subscriptions ps)"
  have sub: "s \<in> set ?subs" using assms by auto
  obtain st where "state_closed st" "sc_queue ` set ?subs \<subseteq> q_name ` set (cs_queues st)"
    and b: "set (cs_bindings st) = set (cs_bindings (start_state c ?subs)) \<union>
      dead_letter_binding ` set (dead_letters_part c ?subs)"
    and p: "plan_from_profiles c ps = \<lparr>tp_mode = topology_mode_of c, tp_exchanges = cs_exchanges st,
       tp_queues = cs_queues st, tp_bindings = cs_bindings st\<rparr>"
    by (rule plan_from_profiles_state)
  have "\<lparr>b_queue = sc_queue s, b_exchange = rt_exchange r, b_routing_key = replace_queue (sc_queue s) (rt_routing_key r)\<rparr>
      \<in> set (cs_bindings (start_state c ?subs))"
    if "(n, r) \<in> set (routes c)" "rt_exchange r \<noteq> []" "rt_broker r = sc_broker s"
    using that sub by (force simp: start_state_def routes_part_def Let_def)
  moreover have "\<lparr>b_queue = sc_queue s, b_exchange = DELAYED_EXCHANGE_NAME, b_routing_key = sc_queue s\<rparr>
      \<in> set (cs_bindings (start_state c ?subs))"
    if "topology_mode_of c = Declare" "delay_strategy_compile c = PluginStrategy"
    using that sub by (simp add: start_state_def delayed_part_def)
  moreover have "\<lparr>b_queue = dl_queue dl, b_exchange = dl_exchange dl,
        b_routing_key = (case dl_routing_key dl of Some k \<Rightarrow> k | None \<Rightarrow> sc_queue s)\<rparr>
      \<in> dead_letter_binding ` set (dead_letters_part c ?subs)"
    if "dead_letter c = Some dl" "dl_enabled dl"
    using that sub by (simp add: dead_letters_part_def image_image dead_letter_binding_def)
  ultimately show ?thesis unfolding p by (simp add: b)
qed

text \<open>(C27) Reconciliation sends exactly the calls of the plan in order: all exchanges, then all queues,
  then all bindings in declare mode, passive checks only in verify mode, nothing in external mode. On
  an error the calls sent are a prefix of these and the plan is not marked as applied, so that it is
  tried again; after a success the same plan is a no-op for the same generation.\<close>

theorem reconcile_calls:
  assumes "reconcile r (recorded ch) plan generation ([], e) = (res, r', (calls, e'))"
    and "\<not> is_applied r generation plan"
  shows "case res of
      Inr _ \<Rightarrow> calls = plan_calls plan \<and> is_applied r' generation plan \<and>
        reconcile r' (recorded ch) plan generation le = (Inr (), r', le)
    | Inl _ \<Rightarrow> r' = r \<and> (\<exists>rest. plan_calls plan = calls @ rest)"
proof -
  obtain res1 calls1 e1 where a: "apply_plan (recorded ch) plan ([], e) = (res1, (calls1, e1))"
    by (metis prod.collapse)
  from logsD [OF logs_apply a] have "case res1 of Inr _ \<Rightarrow> calls1 = plan_calls plan
      | Inl _ \<Rightarrow> \<exists>rest. plan_calls plan = calls1 @ rest" by (cases res1) simp_all
  with a assms show ?thesis
    by (cases res1) (auto simp: reconcile_def is_applied_def)
qed

lemma demo_apply_ok: "fst (apply_plan (recorded demo_channel) p le) = Inr ()"
proof -
  have "\<forall>x e. \<exists>e'. declare_exchange (recorded demo_channel) x e = (Inr (), e')"
    "\<forall>x e. \<exists>e'. declare_queue (recorded demo_channel) x e = (Inr (), e')"
    "\<forall>x e. \<exists>e'. bind_queue (recorded demo_channel) x e = (Inr (), e')"
    "\<forall>x e. \<exists>e'. verify_exchange (recorded demo_channel) x e = (Inr (), e')"
    "\<forall>x e. \<exists>e'. verify_queue (recorded demo_channel) x e = (Inr (), e')"
    by (simp_all add: recorded_def record_call_def demo_channel_def)
  note ok = this [THEN for_await_ok]
  obtain e1 where 1: "for_await (declare_exchange (recorded demo_channel)) (tp_exchanges p) le = (Inr (), e1)"
    using ok(1) by blast
  obtain e2 where 2: "for_await (declare_queue (recorded demo_channel)) (tp_queues p) e1 = (Inr (), e2)"
    using ok(2) by blast
  obtain e3 where 3: "for_await (bind_queue (recorded demo_channel)) (tp_bindings p) e2 = (Inr (), e3)"
    using ok(3) by blast
  obtain e4 where 4: "for_await (verify_exchange (recorded demo_channel)) (tp_exchanges p) le = (Inr (), e4)"
    using ok(4) by blast
  obtain e5 where 5: "for_await (verify_queue (recorded demo_channel)) (tp_queues p) e4 = (Inr (), e5)"
    using ok(5) by blast
  show ?thesis
    by (cases "tp_mode p") (simp_all add: apply_plan_def await_try_def 1 2 3 4 5)
qed

theorem reconcile_calls_witness:
  "\<exists>r' calls e'. reconcile reconciler_new (recorded demo_channel) (plan_from_config demo_config) 1 ([], ()) =
      (Inr (), r', (calls, e')) \<and> calls = plan_calls (plan_from_config demo_config)"
proof -
  have n: "\<not> is_applied reconciler_new 1 (plan_from_config demo_config)"
    by (simp add: is_applied_def reconciler_new_def)
  obtain calls e' where a: "apply_plan (recorded demo_channel) (plan_from_config demo_config) ([], ()) = (Inr (), (calls, e'))"
    using demo_apply_ok [of "plan_from_config demo_config" "([], ())"] by (metis prod.collapse)
  then obtain r' where r: "reconcile reconciler_new (recorded demo_channel) (plan_from_config demo_config) 1 ([], ()) =
      (Inr (), r', (calls, e'))" using n by (simp add: reconcile_def)
  from reconcile_calls [OF this n] r show ?thesis by auto
qed

text \<open>(C30) The fingerprint does not separate all topologies: two accepted configurations whose only
  difference is a dead-letter routing key that is absent or empty have the same digest input although
  their plans differ (the absent key binds one key per queue, the empty key binds the empty one).\<close>

theorem dead_letter_key_shares_fingerprint:
  "\<exists>c c'. config_ok c \<and> config_ok c' \<and> (\<forall>sha :: bytes \<Rightarrow> bytes.
      fingerprint_calculate sha (canon c) = fingerprint_calculate sha (canon c')) \<and>
    plan_from_config (canon c) \<noteq> plan_from_config (canon c')"
proof (intro exI conjI allI)
  let ?c = "demo_config\<lparr>dead_letter := Some (demo_dl None)\<rparr>"
  let ?c' = "demo_config\<lparr>dead_letter := Some (demo_dl (Some []))\<rparr>"
  show "config_ok ?c" "config_ok ?c'" using demo_config_ok by (simp_all add: config_ok_def)
  show "fingerprint_calculate sha (canon ?c) = fingerprint_calculate sha (canon ?c')" for sha :: "bytes \<Rightarrow> bytes"
    by (simp add: fingerprint_calculate_def fingerprint_bytes_def canon_def hash_dead_letter_def demo_dl_def
        unwrap_or_default_def)
  let ?b = "\<lparr>b_queue = ''dead'', b_exchange = ''dlx'', b_routing_key = ''jobs''\<rparr>"
  let ?s = "\<lambda>c. concat (map wp_subscriptions (workers (canon c)))"
  have jobs: "\<exists>s\<in>set (?s ?c). sc_queue s = ''jobs''"
    by (simp add: canon_def canon_worker_def demo_config_def demo_worker_def demo_subscription_def)
  have b: "set (tp_bindings (plan_from_config (canon c))) = set (cs_bindings (start_state (canon c) (?s c))) \<union>
      dead_letter_binding ` set (dead_letters_part (canon c) (?s c))" for c
    unfolding plan_from_config_def by (rule plan_from_profiles_state [of "workers (canon c)" "canon c"]) simp
  have "?b \<in> set (tp_bindings (plan_from_config (canon ?c)))"
    using jobs unfolding b by (force simp: dead_letters_part_def dead_letter_binding_def canon_def demo_dl_def)
  moreover have "?b \<notin> set (tp_bindings (plan_from_config (canon ?c')))"
    unfolding b by (auto simp: dead_letters_part_def dead_letter_binding_def canon_def demo_dl_def start_state_def
        delayed_part_def routes_part_def demo_config_def DELAYED_EXCHANGE_NAME_def)
  ultimately show "plan_from_config (canon ?c) \<noteq> plan_from_config (canon ?c')" by metis
qed

definition shared_queue_config :: config where
  "shared_queue_config = demo_config\<lparr>dead_letter := Some (demo_dl None),
     workers := [demo_worker [demo_subscription ''s1'' ''jobs''],
       (demo_worker [demo_subscription ''s1'' ''jobs''])\<lparr>wp_name := ''w2''\<rparr>]\<rparr>"


end
