(* ===== verification/Metrics.thy ===== *)
theory Metrics
  imports Prelude
begin

text \<open>
  The metrics registry of \<^verbatim>\<open>metrics.rs\<close>: relaxed 64-bit counters that wrap around, a gauge of
  blocked brokers and two latency histograms. Every recording is one atomic read-modify-write
  per counter, so a sequence of recordings is a sequence of functions on the registry. The
  percentile estimate is floating-point arithmetic and is not modelled.
\<close>

section \<open>Model\<close>

definition LATENCY_BOUNDS_NS :: "u64 list" where
  "LATENCY_BOUNDS_NS = [100000, 500000, 1000000, 5000000, 10000000, 50000000, 100000000,
     500000000, 1000000000, 5000000000]"

record histogram =
  h_buckets :: "u64 list"
  h_samples :: u64
  h_sum_ns :: u64

definition histogram_default :: histogram where
  "histogram_default = \<lparr>h_buckets = replicate (length LATENCY_BOUNDS_NS + 1) 0, h_samples = 0, h_sum_ns = 0\<rparr>"

text \<open>\<^verbatim>\<open>iter().position(..)\<close>\<close>

fun position :: "('a \<Rightarrow> bool) \<Rightarrow> 'a list \<Rightarrow> nat option" where
  "position P [] = None"
| "position P (x # xs) = (if P x then Some 0 else map_option Suc (position P xs))"

definition histogram_bucket :: "u64 \<Rightarrow> nat" where
  "histogram_bucket v = (case position (\<lambda>b. v \<le> b) LATENCY_BOUNDS_NS of
     Some i \<Rightarrow> i | None \<Rightarrow> length LATENCY_BOUNDS_NS)"

definition histogram_record :: "duration \<Rightarrow> histogram \<Rightarrow> histogram" where
  "histogram_record d h =
     (let v = u64_clamp d; i = histogram_bucket v in
      \<lparr>h_buckets = (h_buckets h)[i := h_buckets h ! i + 1], h_samples = h_samples h + 1,
       h_sum_ns = h_sum_ns h + v\<rparr>)"

record metrics =
  publishes_total :: u64
  confirmations_total :: u64
  returns_total :: u64
  deliveries_total :: u64
  duplicates_total :: u64
  acks_total :: u64
  rejects_total :: u64
  reconnects_total :: u64
  recovery_failures_total :: u64
  backpressure_total :: u64
  publication_retries_total :: u64
  connection_blocked_total :: u64
  connection_blocked :: u64
  confirmation_latency :: histogram
  settlement_latency :: histogram

definition metrics_default :: metrics where
  "metrics_default = \<lparr>publishes_total = 0, confirmations_total = 0, returns_total = 0, deliveries_total = 0,
     duplicates_total = 0, acks_total = 0, rejects_total = 0, reconnects_total = 0,
     recovery_failures_total = 0, backpressure_total = 0, publication_retries_total = 0,
     connection_blocked_total = 0, connection_blocked = 0, confirmation_latency = histogram_default,
     settlement_latency = histogram_default\<rparr>"

definition record_publish :: "metrics \<Rightarrow> metrics" where
  "record_publish m = m\<lparr>publishes_total := publishes_total m + 1\<rparr>"

definition record_confirmation :: "duration \<Rightarrow> metrics \<Rightarrow> metrics" where
  "record_confirmation d m = m\<lparr>confirmations_total := confirmations_total m + 1,
     confirmation_latency := histogram_record d (confirmation_latency m)\<rparr>"

definition record_return :: "metrics \<Rightarrow> metrics" where
  "record_return m = m\<lparr>returns_total := returns_total m + 1\<rparr>"

definition record_delivery :: "metrics \<Rightarrow> metrics" where
  "record_delivery m = m\<lparr>deliveries_total := deliveries_total m + 1\<rparr>"

definition record_duplicate :: "metrics \<Rightarrow> metrics" where
  "record_duplicate m = m\<lparr>duplicates_total := duplicates_total m + 1\<rparr>"

definition record_ack :: "duration \<Rightarrow> metrics \<Rightarrow> metrics" where
  "record_ack d m = m\<lparr>acks_total := acks_total m + 1,
     settlement_latency := histogram_record d (settlement_latency m)\<rparr>"

definition record_reject :: "duration \<Rightarrow> metrics \<Rightarrow> metrics" where
  "record_reject d m = m\<lparr>rejects_total := rejects_total m + 1,
     settlement_latency := histogram_record d (settlement_latency m)\<rparr>"

definition record_reconnect :: "metrics \<Rightarrow> metrics" where
  "record_reconnect m = m\<lparr>reconnects_total := reconnects_total m + 1\<rparr>"

definition record_recovery_failure :: "metrics \<Rightarrow> metrics" where
  "record_recovery_failure m = m\<lparr>recovery_failures_total := recovery_failures_total m + 1\<rparr>"

definition record_backpressure :: "metrics \<Rightarrow> metrics" where
  "record_backpressure m = m\<lparr>backpressure_total := backpressure_total m + 1\<rparr>"

definition record_publication_retry :: "metrics \<Rightarrow> metrics" where
  "record_publication_retry m = m\<lparr>publication_retries_total := publication_retries_total m + 1\<rparr>"

definition record_connection_blocked :: "metrics \<Rightarrow> metrics" where
  "record_connection_blocked m = m\<lparr>connection_blocked_total := connection_blocked_total m + 1,
     connection_blocked := connection_blocked m + 1\<rparr>"

definition clear_connection_blocked :: "metrics \<Rightarrow> metrics" where
  "clear_connection_blocked m = m\<lparr>connection_blocked := sat_sub (connection_blocked m) 1\<rparr>"

section \<open>Lemmas\<close>

lemma position_Some:
  "position P xs = Some i \<Longrightarrow> i < length xs \<and> P (xs ! i) \<and> (\<forall>j<i. \<not> P (xs ! j))"
  by (induction xs arbitrary: i) (auto simp: less_Suc_eq_0_disj split: if_splits)

lemma position_None: "position P xs = None \<longleftrightarrow> (\<forall>x\<in>set xs. \<not> P x)"
  by (induction xs) auto

lemma histogram_bucket_le: "histogram_bucket v \<le> length LATENCY_BOUNDS_NS"
  by (auto simp: histogram_bucket_def split: option.splits dest: position_Some)

lemma sum_list_increment: "i < length xs \<Longrightarrow> sum_list (xs[i := xs ! i + 1]) = sum_list xs + (1 :: u64)"
proof (induction xs arbitrary: i)
  case (Cons x xs)
  then show ?case by (cases i) (simp_all add: algebra_simps)
qed simp

definition histogram_wf :: "histogram \<Rightarrow> bool" where
  "histogram_wf h \<longleftrightarrow> length (h_buckets h) = length LATENCY_BOUNDS_NS + 1 \<and> h_samples h = sum_list (h_buckets h)"

lemma histogram_record_wf: "histogram_wf h \<Longrightarrow> histogram_wf (histogram_record d h)"
  using histogram_bucket_le [of "u64_clamp d"]
  by (simp add: histogram_wf_def histogram_record_def Let_def sum_list_increment less_Suc_eq_le)

text \<open>The two fields of the blocked gauge: episodes only grow, the gauge counts open episodes.\<close>

datatype block_event = BlockedEvent | UnblockedEvent

fun block_step :: "block_event \<Rightarrow> metrics \<Rightarrow> metrics" where
  "block_step BlockedEvent m = record_connection_blocked m"
| "block_step UnblockedEvent m = clear_connection_blocked m"

fun open_episodes :: "block_event list \<Rightarrow> nat \<Rightarrow> nat" where
  "open_episodes [] n = n"
| "open_episodes (BlockedEvent # es) n = open_episodes es (Suc n)"
| "open_episodes (UnblockedEvent # es) n = open_episodes es (n - 1)"

section \<open>Properties\<close>

text \<open>Histogram accounting: after any sequence of recordings from the empty histogram there is one
  count per bound and one for overflow, the sample count is their sum and the number of recordings
  (modulo 64 bits), the total is the sum of the recorded values (modulo 64 bits), and a value is
  counted in the first bucket whose bound is not below it.\<close>

lemma histogram_accounts:
  "let h = fold histogram_record ds histogram_default in
     length (h_buckets h) = 11 \<and> h_samples h = sum_list (h_buckets h) \<and> h_samples h = of_nat (length ds) \<and>
     h_sum_ns h = sum_list (map u64_clamp ds) \<and>
     (\<forall>i<10. histogram_bucket v = i \<longleftrightarrow> v \<le> LATENCY_BOUNDS_NS ! i \<and> (\<forall>j<i. LATENCY_BOUNDS_NS ! j < v))"
proof -
  have base: "histogram_wf histogram_default"
    by (simp add: histogram_wf_def histogram_default_def sum_list_replicate)
  have "histogram_wf (fold histogram_record ds h) \<and> h_samples (fold histogram_record ds h) = h_samples h + of_nat (length ds) \<and>
      h_sum_ns (fold histogram_record ds h) = h_sum_ns h + sum_list (map u64_clamp ds)"
    if "histogram_wf h" for h
    using that
    by (induction ds arbitrary: h) (simp_all add: histogram_record_wf, simp_all add: histogram_record_def Let_def)
  from this [OF base] have 1: "histogram_wf (fold histogram_record ds histogram_default)"
    "h_samples (fold histogram_record ds histogram_default) = of_nat (length ds)"
    "h_sum_ns (fold histogram_record ds histogram_default) = sum_list (map u64_clamp ds)"
    by (simp_all add: histogram_default_def)
  have 2: "histogram_bucket v = i \<longleftrightarrow> v \<le> LATENCY_BOUNDS_NS ! i \<and> (\<forall>j<i. LATENCY_BOUNDS_NS ! j < v)"
    if "i < 10" for i
  proof -
    have len: "length LATENCY_BOUNDS_NS = 10" by (simp add: LATENCY_BOUNDS_NS_def)
    show ?thesis
    proof (cases "position (\<lambda>b. v \<le> b) LATENCY_BOUNDS_NS")
      case None
      then have "\<not> v \<le> LATENCY_BOUNDS_NS ! i" using that len by (simp add: position_None)
      with None that len show ?thesis by (simp add: histogram_bucket_def)
    next
      case (Some k)
      from position_Some [OF this] Some that show ?thesis
        by (auto simp: histogram_bucket_def not_le) (metis linorder_less_linear not_less)
    qed
  qed
  show ?thesis using 1 2 by (simp add: histogram_wf_def LATENCY_BOUNDS_NS_def [THEN arg_cong, of length] Let_def)
qed

text \<open>The blocked gauge equals the number of open backpressure episodes, an unblock without an
  episode being ignored, as long as fewer than \<open>2^64\<close> events were seen; the episode counter counts
  every block and is never reset.\<close>

lemma blocked_gauge_counts_episodes:
  assumes "length es < 2 ^ 64"
  shows "unat (connection_blocked (fold block_step es metrics_default)) = open_episodes es 0 \<and>
    connection_blocked_total (fold block_step es metrics_default) = of_nat (length (filter ((=) BlockedEvent) es))"
proof -
  have "unat (connection_blocked m) + length es < 2 ^ 64 \<Longrightarrow>
      unat (connection_blocked (fold block_step es m)) = open_episodes es (unat (connection_blocked m)) \<and>
      connection_blocked_total (fold block_step es m) =
        connection_blocked_total m + of_nat (length (filter ((=) BlockedEvent) es))" for m
  proof (induction es arbitrary: m)
    case (Cons e es)
    show ?case
    proof (cases e)
      case BlockedEvent
      have "unat (connection_blocked m + 1) = Suc (unat (connection_blocked m))"
        using Cons.prems by (simp add: unat_word_ariths)
      with Cons.IH [of "block_step e m"] Cons.prems BlockedEvent show ?thesis
        by (simp add: record_connection_blocked_def)
    next
      case UnblockedEvent
      with Cons.IH [of "block_step e m"] Cons.prems show ?thesis
        by (simp add: clear_connection_blocked_def unat_sat_sub)
    qed
  qed simp
  from this [of metrics_default] assms show ?thesis by (simp add: metrics_default_def)
qed

end
