(* ===== verification/Publisher.thy ===== *)
theory Publisher
  imports Delay "HOL-Library.Multiset"
begin

text \<open>
  The publisher's shared data of \<^verbatim>\<open>publisher/mod.rs\<close> (byte budget, requests, outcomes, errors)
  and the routing of delayed publications of \<^verbatim>\<open>publisher/delay.rs\<close>. The byte budget is used
  through the contract \<open>byte_reservation\<close>, which the consumer's budget satisfies as well.
\<close>

section \<open>The byte budget\<close>

record byte_budget =
  bb_current :: u64
  bb_max :: u64

definition byte_budget_new :: "u64 \<Rightarrow> byte_budget" where
  "byte_budget_new m = \<lparr>bb_current = 0, bb_max = m\<rparr>"

text \<open>
  The compare-and-swap loops. The list holds the values that other threads store between the load
  and the compare-and-swap of each iteration; it is finite, so the last iteration runs alone.
\<close>

fun try_reserve_racing :: "u64 list \<Rightarrow> u64 \<Rightarrow> byte_budget \<Rightarrow> bool \<times> byte_budget" where
  "try_reserve_racing [] bytes b =
     (let new = sat_add (bb_current b) bytes in
      if new > bb_max b then (False, b) else (True, b\<lparr>bb_current := new\<rparr>))"
| "try_reserve_racing (v # vs) bytes b =
     (let new = sat_add (bb_current b) bytes in
      if new > bb_max b then (False, b)
      else if v = bb_current b then (True, b\<lparr>bb_current := new\<rparr>)
      else try_reserve_racing vs bytes (b\<lparr>bb_current := v\<rparr>))"

fun release_racing :: "u64 list \<Rightarrow> u64 \<Rightarrow> byte_budget \<Rightarrow> byte_budget" where
  "release_racing [] bytes b = b\<lparr>bb_current := sat_sub (bb_current b) bytes\<rparr>"
| "release_racing (v # vs) bytes b =
     (if v = bb_current b then b\<lparr>bb_current := sat_sub (bb_current b) bytes\<rparr>
      else release_racing vs bytes (b\<lparr>bb_current := v\<rparr>))"

text \<open>The loops without interference: one atomic step.\<close>

definition try_reserve :: "u64 \<Rightarrow> byte_budget \<Rightarrow> bool \<times> byte_budget" where
  "try_reserve = try_reserve_racing []"

definition release :: "u64 \<Rightarrow> byte_budget \<Rightarrow> byte_budget" where
  "release = release_racing []"

section \<open>Requests, outcomes and errors\<close>

datatype 'c publisher_connection_event =
    RecoveringEvent u64
  | ReadyEvent u64 'c bool
  | FailedPermanentEvent u64 transport_error

record message_properties =
  mp_message_id :: string
  mp_content_type :: "string option"
  mp_correlation_id :: "string option"
  mp_delay_ms :: "u64 option"
  mp_headers :: headers

definition message_properties_new :: "string \<Rightarrow> message_properties" where
  "message_properties_new i = \<lparr>mp_message_id = i, mp_content_type = None, mp_correlation_id = None,
     mp_delay_ms = None, mp_headers = []\<rparr>"

record pub_request =
  pq_destination :: destination
  pq_payload :: bytes
  pq_properties :: message_properties
  pq_deadline :: instant

definition republish :: "instant \<Rightarrow> pub_request \<Rightarrow> pub_request" where
  "republish deadline r = \<lparr>pq_destination = pq_destination r, pq_payload = pq_payload r,
     pq_properties = pq_properties r, pq_deadline = deadline\<rparr>"

record publisher_config =
  pc_buffer_capacity :: nat
  pc_confirm_timeout :: duration
  pc_max_buffered_bytes :: u64
  pc_safety :: safety_mode

definition publisher_config_with_safety :: "nat \<Rightarrow> duration \<Rightarrow> safety_mode \<Rightarrow> publisher_config" where
  "publisher_config_with_safety cap timeout safety = \<lparr>pc_buffer_capacity = cap, pc_confirm_timeout = timeout,
     pc_max_buffered_bytes = 64 * 1024 * 1024, pc_safety = safety\<rparr>"

definition enables_confirms :: "publisher_config \<Rightarrow> bool" where
  "enables_confirms c \<longleftrightarrow> pc_safety c = Safe"

definition mandatory_flag :: "publisher_config \<Rightarrow> bool" where
  "mandatory_flag c \<longleftrightarrow> pc_safety c = Safe"

record return_info =
  ri_code :: u16
  ri_text :: string
  ri_exchange :: string
  ri_routing_key :: string

datatype publish_outcome = Confirmed string | Returned string return_info

datatype publish_error_kind =
  Backpressure | NackKind | Timeout | Unconfirmed | TransportKind | ClosedPublish | InvalidRequest

record publish_error =
  pe_kind :: publish_error_kind
  pe_message :: string
  pe_transport_source :: "transport_error option"

definition publish_error_new :: "publish_error_kind \<Rightarrow> string \<Rightarrow> publish_error" where
  "publish_error_new k m = \<lparr>pe_kind = k, pe_message = m, pe_transport_source = None\<rparr>"

definition publish_error_from_transport :: "transport_error \<Rightarrow> publish_error" where
  "publish_error_from_transport e = \<lparr>pe_kind = TransportKind, pe_message = te_message e, pe_transport_source = Some e\<rparr>"

type_synonym publish_result = "publish_error + publish_outcome"

text \<open>A waiter: what its oneshot channel delivers, \<open>None\<close> when the sender was dropped unsent.\<close>

definition publish_wait :: "publish_result option \<Rightarrow> publish_result" where
  "publish_wait received = (case received of
     Some r \<Rightarrow> r
   | None \<Rightarrow> Inl (publish_error_new ClosedPublish ''publisher actor closed before resolving the command''))"

text \<open>The collective wait: \<open>completed\<close> lists the waiters in completion order.\<close>

definition wait_all :: "(nat \<times> publish_result option) list \<Rightarrow> (nat \<times> publish_result) list" where
  "wait_all completed = sort_key fst (map (\<lambda>(i, r). (i, publish_wait r)) completed)"

section \<open>Delayed routing\<close>

record delayed_route =
  dr_exchange :: string
  dr_routing_key :: string
  dr_delay_ms :: u64
  dr_queue :: "queue_spec option"

definition delay_route :: "(bytes \<Rightarrow> bytes) \<Rightarrow> delay_strategy \<Rightarrow> destination \<Rightarrow> i64 \<Rightarrow> delay_error + delayed_route" where
  "delay_route sha strategy d delay_ms =
     (if sint delay_ms < 0 then Inl ''delay cannot be negative''
      else let delay = from_millis (unat delay_ms) in
        (case strategy of
           PluginStrategy \<Rightarrow> Inr \<lparr>dr_exchange = delayed_exchange_name (dest_exchange d),
             dr_routing_key = dest_routing_key d, dr_delay_ms = delay_ms, dr_queue = None\<rparr>
         | TtlBuckets plan \<Rightarrow> bind_res (queue_for sha plan d delay) (\<lambda>q.
             Inr \<lparr>dr_exchange = [], dr_routing_key = q_name q, dr_delay_ms = delay_ms, dr_queue = Some q\<rparr>)))"

text \<open>\<^verbatim>\<open>i64::try_from(v).unwrap_or(i64::MAX)\<close>\<close>

definition i64_clamp :: "u64 \<Rightarrow> i64" where
  "i64_clamp v = (if v \<le> 0x7FFFFFFFFFFFFFFF then v else 0x7FFFFFFFFFFFFFFF)"

definition invalid_request :: "delay_error + 'a \<Rightarrow> publish_error + 'a" where
  "invalid_request = map_err (publish_error_new InvalidRequest)"

definition route_transport_request ::
    "(bytes \<Rightarrow> bytes) \<Rightarrow> pub_request \<Rightarrow> delay_strategy option \<Rightarrow> bool \<Rightarrow> publish_error + publish_request" where
  "route_transport_request sha r strategy mandatory =
     (let requested_delay = (case mp_delay_ms (pq_properties r) of Some v \<Rightarrow> v | None \<Rightarrow> 0) in
      bind_res
        (if requested_delay = 0 then Inr None
         else bind_res (ok_or (publish_error_new InvalidRequest ''delay_ms is set but no delay strategy is configured'') strategy)
           (\<lambda>s. bind_res (invalid_request (delay_route sha s (pq_destination r) (i64_clamp requested_delay)))
             (\<lambda>route. Inr (Some (dr_exchange route, dr_routing_key route,
                if dr_queue route = None then Some (dr_delay_ms route) else None)))))
        (\<lambda>routed.
          let (exchange, routing_key, delay_ms, mandatory) =
            (case routed of
               Some (exchange, routing_key, delay_ms) \<Rightarrow> (exchange, routing_key, delay_ms, mandatory \<and> delay_ms = None)
             | None \<Rightarrow> (dest_exchange (pq_destination r), dest_routing_key (pq_destination r),
                 mp_delay_ms (pq_properties r), mandatory)) in
          Inr \<lparr>pr_exchange = exchange, pr_routing_key = routing_key, pr_payload = pq_payload r,
            pr_mandatory = mandatory,
            pr_properties = \<lparr>pp_content_type = mp_content_type (pq_properties r),
              pp_correlation_id = mp_correlation_id (pq_properties r),
              pp_message_id = Some (mp_message_id (pq_properties r)), pp_delay_ms = delay_ms,
              pp_headers = mp_headers (pq_properties r), pp_persistent = True\<rparr>\<rparr>))"

text \<open>A declaration awaited with its error turned into a terminal failure of the one publication.\<close>

definition declare_once :: "('e \<Rightarrow> unit transport_result \<times> 'e) \<Rightarrow> string \<Rightarrow> string set \<Rightarrow> 'e \<Rightarrow>
    (publish_error + unit) \<times> string set \<times> 'e" where
  "declare_once call name declared e =
     (if name \<in> declared then (Inr (), declared, e)
      else (case call e of
        (Inr _, e') \<Rightarrow> (Inr (), insert name declared, e')
      | (Inl err, e') \<Rightarrow> (Inl (publish_error_new TransportKind (te_message err)), declared, e')))"

definition ensure_delay_topology :: "(bytes \<Rightarrow> bytes) \<Rightarrow> ('e, 'm) topology_channel_scheme \<Rightarrow> delay_strategy \<Rightarrow>
    destination \<Rightarrow> u64 \<Rightarrow> string set \<Rightarrow> 'e \<Rightarrow> (publish_error + unit) \<times> string set \<times> 'e" where
  "ensure_delay_topology sha ch strategy d delay_ms declared e =
     (case invalid_request (delay_route sha strategy d (i64_clamp delay_ms)) of
        Inl err \<Rightarrow> (Inl err, declared, e)
      | Inr route \<Rightarrow>
          (case dr_queue route of
             None \<Rightarrow> declare_once (declare_exchange ch (delayed_exchange_spec (dr_exchange route))) (dr_exchange route) declared e
           | Some q \<Rightarrow> declare_once (declare_queue ch q) (q_name q) declared e))"

section \<open>The reservation contract\<close>

text \<open>
  What a client of a byte budget relies on: a granted reservation adds its bytes and stays within
  the cap, a refused one changes nothing and is refused only when the cap would be exceeded, and
  releasing held bytes subtracts them. Clients hold one guard per reservation; the lemma is that
  the budget always equals the bytes of the live guards.
\<close>

datatype budget_event = Reserve u64 | DropGuard nat

text \<open>A client's state is the budget and its live guards, each holding the bytes it releases when dropped.\<close>

fun guard_step :: "(u64 \<Rightarrow> 'b \<Rightarrow> bool \<times> 'b) \<Rightarrow> (u64 \<Rightarrow> 'b \<Rightarrow> 'b) \<Rightarrow> budget_event \<Rightarrow> 'b \<times> u64 list \<Rightarrow> 'b \<times> u64 list" where
  "guard_step reserve rel (Reserve n) (b, gs) = (case reserve n b of (True, b') \<Rightarrow> (b', gs @ [n]) | (False, b') \<Rightarrow> (b', gs))"
| "guard_step reserve rel (DropGuard i) (b, gs) =
     (if i < length gs then (rel (gs ! i) b, take i gs @ drop (Suc i) gs) else (b, gs))"

locale byte_reservation =
  fixes reserve :: "u64 \<Rightarrow> 'b \<Rightarrow> bool \<times> 'b"
    and rel :: "u64 \<Rightarrow> 'b \<Rightarrow> 'b"
    and used :: "'b \<Rightarrow> nat"
    and cap :: "'b \<Rightarrow> nat"
    and ok :: "'b \<Rightarrow> bool"
  assumes granted: "ok b \<Longrightarrow> reserve n b = (True, b') \<Longrightarrow>
      ok b' \<and> used b' = used b + unat n \<and> cap b' = cap b"
    and refused: "ok b \<Longrightarrow> reserve n b = (False, b') \<Longrightarrow> b' = b \<and> cap b < used b + unat n"
    and released: "ok b \<Longrightarrow> unat n \<le> used b \<Longrightarrow>
      ok (rel n b) \<and> used (rel n b) = used b - unat n \<and> cap (rel n b) = cap b"
    and within: "ok b \<Longrightarrow> used b \<le> cap b"
begin

definition accounted :: "'b \<times> u64 list \<Rightarrow> bool" where
  "accounted s \<longleftrightarrow> ok (fst s) \<and> used (fst s) = sum_list (map unat (snd s))"

lemma sum_remove_nth: "i < length gs \<Longrightarrow>
    sum_list (map unat gs) = unat (gs ! i :: u64) + sum_list (map unat (take i gs @ drop (Suc i) gs))"
proof -
  assume i: "i < length gs"
  from id_take_nth_drop [OF this] have "sum_list (map unat gs) = sum_list (map unat (take i gs @ gs ! i # drop (Suc i) gs))"
    by simp
  then show ?thesis by simp
qed

lemma guard_step_accounted: "accounted s \<Longrightarrow> accounted (guard_step reserve rel ev s)"
proof (cases ev)
  case (Reserve n)
  assume a: "accounted s"
  obtain b gs where s: "s = (b, gs)" by (cases s)
  obtain r b' where r: "reserve n b = (r, b')" by (cases "reserve n b")
  show ?thesis
  proof (cases r)
    case True
    with granted [of b n b'] a s r Reserve show ?thesis by (simp add: accounted_def)
  next
    case False
    with refused [of b n b'] a s r Reserve show ?thesis by (simp add: accounted_def)
  qed
next
  case (DropGuard i)
  assume a: "accounted s"
  obtain b gs where s: "s = (b, gs)" by (cases s)
  show ?thesis
  proof (cases "i < length gs")
    case True
    from released [of b "gs ! i"] a s sum_remove_nth [OF True] DropGuard True show ?thesis
      by (simp add: accounted_def)
  next
    case False
    with a s DropGuard show ?thesis by simp
  qed
qed

lemma cap_step: "accounted s \<Longrightarrow> cap (fst (guard_step reserve rel ev s)) = cap (fst s)"
proof (cases ev)
  case (Reserve n)
  assume a: "accounted s"
  obtain b gs where s: "s = (b, gs)" by (cases s)
  obtain r b' where r: "reserve n b = (r, b')" by (cases "reserve n b")
  from granted [of b n b'] refused [of b n b'] a s r Reserve show ?thesis by (cases r) (simp_all add: accounted_def)
next
  case (DropGuard i)
  assume a: "accounted s"
  obtain b gs where s: "s = (b, gs)" by (cases s)
  from released [of b "gs ! i"] a s sum_remove_nth [of i gs] DropGuard show ?thesis by (simp add: accounted_def)
qed

lemma client_accounts:
  "accounted s \<Longrightarrow> accounted (fold (guard_step reserve rel) evs s) \<and> cap (fst (fold (guard_step reserve rel) evs s)) = cap (fst s)"
  by (induction evs arbitrary: s) (simp_all add: guard_step_accounted cap_step)

end

definition budget_ok :: "byte_budget \<Rightarrow> bool" where
  "budget_ok b \<longleftrightarrow> bb_max b \<noteq> - 1 \<and> bb_current b \<le> bb_max b"

lemma max_word_iff: "(w :: u64) \<noteq> - 1 \<longleftrightarrow> unat w < 2 ^ 64 - 1"
proof -
  have "w = - 1 \<longleftrightarrow> unat w = 2 ^ 64 - 1" by (simp add: word_unat_eq_iff unat_max_word)
  then show ?thesis using unat_bound [of w] by auto
qed

lemma try_reserve_cases:
  assumes "budget_ok b"
  shows "try_reserve n b =
    (if unat (bb_current b) + unat n \<le> unat (bb_max b) then (True, b\<lparr>bb_current := bb_current b + n\<rparr>) else (False, b))"
proof (cases "unat (bb_current b) + unat n < 2 ^ 64")
  case True
  then show ?thesis
    by (simp add: try_reserve_def Let_def word_less_nat_alt unat_sat_add not_less min_def)
      (simp add: sat_add_def)
next
  case False
  moreover have "unat (bb_max b) < 2 ^ 64 - 1" using assms max_word_iff [of "bb_max b"] by (simp add: budget_ok_def)
  ultimately show ?thesis
    by (simp add: try_reserve_def Let_def word_less_nat_alt unat_sat_add min_def)
qed

interpretation pb: byte_reservation try_reserve release "\<lambda>b. unat (bb_current b)" "\<lambda>b. unat (bb_max b)" budget_ok
proof
  fix b n b'
  assume ok: "budget_ok b"
  have sum: "unat (bb_current b + n) = unat (bb_current b) + unat n"
    if "unat (bb_current b) + unat n \<le> unat (bb_max b)"
    using that unat_bound [of "bb_max b"] by (simp add: unat_word_ariths)
  show "budget_ok b' \<and> unat (bb_current b') = unat (bb_current b) + unat n \<and> unat (bb_max b') = unat (bb_max b)"
    if "try_reserve n b = (True, b')"
    using that ok sum unfolding try_reserve_cases [OF ok]
    by (auto simp: budget_ok_def word_le_nat_alt split: if_splits)
  show "b' = b \<and> unat (bb_max b) < unat (bb_current b) + unat n" if "try_reserve n b = (False, b')"
    using that unfolding try_reserve_cases [OF ok] by (auto split: if_splits)
  show "budget_ok (release n b) \<and> unat (bb_current (release n b)) = unat (bb_current b) - unat n \<and>
      unat (bb_max (release n b)) = unat (bb_max b)" if "unat n \<le> unat (bb_current b)"
    using that ok by (auto simp: release_def budget_ok_def word_le_nat_alt unat_sat_sub)
  show "unat (bb_current b) \<le> unat (bb_max b)" using ok by (simp add: budget_ok_def word_le_nat_alt)
qed

section \<open>Lemmas on routing\<close>

lemma sint_i64_clamp: "\<not> sint (i64_clamp v) < 0"
proof -
  have "unat (i64_clamp v) < 2 ^ 63"
    by (auto simp: i64_clamp_def word_le_nat_alt)
  then have "uint (i64_clamp v) < 2 ^ 63" by (simp add: uint_nat del: of_nat_unat)
  then have "signed_take_bit 63 (uint (i64_clamp v)) = uint (i64_clamp v)"
    by (intro signed_take_bit_int_eq_self) (rule order_trans [of _ 0], simp_all)
  then have "sint (i64_clamp v) = uint (i64_clamp v)" by (simp add: sint_uint)
  then show ?thesis by simp
qed

lemma unat_i64_clamp: "unat (i64_clamp v) = min (unat v) (2 ^ 63 - 1)"
  by (auto simp: i64_clamp_def word_le_nat_alt)

lemma delayed_exchange_name_differs: "delayed_exchange_name x \<noteq> x"
  by (auto simp: delayed_exchange_name_def DELAYED_EXCHANGE_NAME_def)

lemma delay_route_clamped:
  "delay_route sha strategy d (i64_clamp v) =
     (case strategy of
        PluginStrategy \<Rightarrow> Inr \<lparr>dr_exchange = delayed_exchange_name (dest_exchange d),
          dr_routing_key = dest_routing_key d, dr_delay_ms = i64_clamp v, dr_queue = None\<rparr>
      | TtlBuckets plan \<Rightarrow> bind_res (queue_for sha plan d (from_millis (unat (i64_clamp v)))) (\<lambda>q.
          Inr \<lparr>dr_exchange = [], dr_routing_key = q_name q, dr_delay_ms = i64_clamp v, dr_queue = Some q\<rparr>))"
  using sint_i64_clamp [of v] by (simp add: delay_route_def Let_def)

lemma declare_once_declared: "declare_once call n D e = (Inr (), D', e') \<Longrightarrow> n \<in> D' \<and> D \<subseteq> D'"
  by (auto simp: declare_once_def split: if_splits prod.splits sum.splits)

lemma declare_once_again: "n \<in> D \<Longrightarrow> declare_once call n D e = (Inr (), D, e)"
  by (simp add: declare_once_def)

section \<open>Properties\<close>

text \<open>A budget reservation is linearizable: whatever other threads store while the
  compare-and-swap loop retries, its result and its effect are those of one atomic reservation at
  the value the counter had when the loop's last iteration read it; a release likewise.\<close>

lemma reserve_linearizable:
  "(\<exists>v \<in> insert (bb_current b) (set vs).
      try_reserve_racing vs n b = try_reserve n (b\<lparr>bb_current := v\<rparr>)) \<and>
   (\<exists>v \<in> insert (bb_current b) (set vs). release_racing vs n b = release n (b\<lparr>bb_current := v\<rparr>))"
proof (induction vs arbitrary: b)
  case Nil
  show ?case by (simp add: try_reserve_def release_def)
next
  case (Cons v vs)
  from Cons.IH [of "b\<lparr>bb_current := v\<rparr>"] show ?case
    by (auto simp: Let_def try_reserve_def release_def)
qed

text \<open>Byte accounting: for every sequence of reservations and guard drops on a fresh budget whose
  cap is below the 64-bit maximum, the counter is exactly the sum of the live guards and never
  exceeds the cap.\<close>

lemma byte_budget_accounts:
  assumes "max_bytes \<noteq> - 1"
  shows "let (b, guards) = fold (guard_step try_reserve release) evs (byte_budget_new max_bytes, []) in
    unat (bb_current b) = sum_list (map unat guards) \<and> bb_current b \<le> max_bytes"
proof -
  have "pb.accounted (byte_budget_new max_bytes, [])"
    using assms by (simp add: pb.accounted_def byte_budget_new_def budget_ok_def)
  from pb.client_accounts [OF this, of evs]
  have acc: "pb.accounted (fold (guard_step try_reserve release) evs (byte_budget_new max_bytes, []))"
    and cap: "unat (bb_max (fst (fold (guard_step try_reserve release) evs (byte_budget_new max_bytes, [])))) = unat max_bytes"
    by (simp_all add: byte_budget_new_def)
  from acc cap show ?thesis
    by (auto simp: pb.accounted_def budget_ok_def word_le_nat_alt split: prod.splits)
qed

text \<open>Where a publication goes: an undelayed one keeps its destination and its mandatory flag; a
  delayed one is never sent to its own exchange, but either to the delayed exchange with the
  requested delay (capped at the signed range) and no mandatory flag, or to the queue that
  the TTL plan synthesizes for the delay, mandatory and without a delay property; a delay that
  nothing can honour is an invalid request. The message is otherwise unchanged and persistent.\<close>

lemma route_transport_request_exact:
  "let delay = (case mp_delay_ms (pq_properties r) of Some v \<Rightarrow> v | None \<Rightarrow> 0); d = pq_destination r in
   case route_transport_request sha r strategy mandatory of
     Inr t \<Rightarrow>
       pr_payload t = pq_payload r \<and> pp_message_id (pr_properties t) = Some (mp_message_id (pq_properties r)) \<and>
       pp_headers (pr_properties t) = mp_headers (pq_properties r) \<and>
       pp_content_type (pr_properties t) = mp_content_type (pq_properties r) \<and>
       pp_correlation_id (pr_properties t) = mp_correlation_id (pq_properties r) \<and> pp_persistent (pr_properties t) \<and>
       (if delay = 0
        then pr_exchange t = dest_exchange d \<and> pr_routing_key t = dest_routing_key d \<and> pr_mandatory t = mandatory
        else (case the strategy of
          PluginStrategy \<Rightarrow> strategy \<noteq> None \<and> pr_exchange t = delayed_exchange_name (dest_exchange d) \<and>
            pr_exchange t \<noteq> dest_exchange d \<and> pr_routing_key t = dest_routing_key d \<and> \<not> pr_mandatory t \<and>
            map_option unat (pp_delay_ms (pr_properties t)) = Some (min (unat delay) (2 ^ 63 - 1))
        | TtlBuckets plan \<Rightarrow> strategy \<noteq> None \<and> pr_exchange t = [] \<and> pr_mandatory t = mandatory \<and>
            pp_delay_ms (pr_properties t) = None \<and>
            (\<exists>q. queue_for sha plan d (from_millis (min (unat delay) (2 ^ 63 - 1))) = Inr q \<and> pr_routing_key t = q_name q)))
   | Inl err \<Rightarrow> pe_kind err = InvalidRequest \<and> delay \<noteq> 0 \<and>
       (strategy = None \<or> (\<exists>plan m. strategy = Some (TtlBuckets plan) \<and>
          queue_for sha plan d (from_millis (min (unat delay) (2 ^ 63 - 1))) = Inl m))"
proof (cases "mp_delay_ms (pq_properties r) = None \<or> mp_delay_ms (pq_properties r) = Some 0")
  case True
  then show ?thesis by (auto simp: route_transport_request_def Let_def)
next
  case False
  then obtain v where v: "mp_delay_ms (pq_properties r) = Some v" "v \<noteq> 0" by auto
  show ?thesis
  proof (cases strategy)
    case None
    with v show ?thesis by (simp add: route_transport_request_def ok_or_def publish_error_new_def)
  next
    case (Some s)
    show ?thesis
    proof (cases s)
      case PluginStrategy
      with v Some show ?thesis
        by (simp add: route_transport_request_def ok_or_def delay_route_clamped invalid_request_def Let_def
            delayed_exchange_name_differs unat_i64_clamp)
    next
      case (TtlBuckets plan)
      with v Some show ?thesis
        by (cases "queue_for sha plan (pq_destination r) (from_millis (min (unat v) (2 ^ 63 - 1)))")
          (simp_all add: route_transport_request_def ok_or_def delay_route_clamped invalid_request_def Let_def
            unat_i64_clamp publish_error_new_def)
    qed
  qed
qed


definition demo_request :: pub_request where
  "demo_request = \<lparr>pq_destination = demo_dest, pq_payload = [1, 2], pq_properties = (message_properties_new ''m1'')
     \<lparr>mp_delay_ms := Some 1500\<rparr>, pq_deadline = 0\<rparr>"


end
