(* ===== verification/Publisher_Actor.thy ===== *)
theory Publisher_Actor
  imports Publisher Metrics
begin

text \<open>
  The confirmed-publish actor of \<^verbatim>\<open>publisher/actor.rs\<close>: the handle's \<open>try_publish\<close>, the command
  mailbox, the actor's state and every handler of its loop. Clock reads, channel calls and the
  first poll of a wire write come from an environment (\<open>publisher_env\<close>) over a state \<open>'e\<close>; the
  futures an actor keeps are the data they were built from, and the event that one of them is
  ready carries its result. A dropped or resolved publication gives back its permit and its bytes
  and settles its waiter; \<open>sh_settled\<close> lists what every waiter received, \<open>None\<close> for a sender that was
  dropped unsent.
\<close>

section \<open>State\<close>

record retained =
  rp_request :: pub_request
  rp_completion :: nat
  rp_accepted_at :: instant
  rp_sequence :: u64
  rp_bytes :: u64
  rp_timeout :: duration
  rp_retried :: bool

record in_flight =
  if_retained :: retained
  if_generation :: u64

datatype confirmation_result = ConfCompleted "publish_confirmation transport_result" | ConfTimedOut

text \<open>The receipt of a completed write is opaque: it only becomes the confirmation future.\<close>

datatype wire_write_outcome = WriteCompleted "unit transport_result" | WriteTimedOut

datatype phase = PhaseReady | PhaseSuspended | PhaseFailedPermanent

text \<open>What the handles and the actor share: the budget, the permits, the metrics and the oneshots.\<close>

record shared =
  sh_budget :: byte_budget
  sh_permits :: nat
  sh_metrics :: metrics
  sh_settled :: "(nat \<times> publish_result option) list"

record 'c actor_state =
  st_config :: publisher_config
  st_phase :: phase
  st_generation :: u64
  st_channel :: "'c option"
  st_replay :: "retained list"
  st_publishing :: "(u64 \<times> retained) list"
  st_ledger :: "(u64 \<times> in_flight) list"
  st_confirmations :: "(u64 \<times> u64 \<times> instant) list"
  st_publish_in_flight :: "(u64 \<times> instant) list"
  st_sequence :: u64
  st_permanent_error :: "publish_error option"
  st_delay_strategy :: "delay_strategy option"
  st_declared :: "string set"
  st_shared :: shared

record ('c, 'e) publisher_env =
  env_now :: "'e \<Rightarrow> instant \<times> 'e"
  env_topology :: "'c \<Rightarrow> 'e topology_channel"
  env_enable_confirms :: "'c \<Rightarrow> 'e \<Rightarrow> unit transport_result \<times> 'e"
  env_publish_poll :: "'c \<Rightarrow> publish_request \<Rightarrow> instant \<Rightarrow> 'e \<Rightarrow> wire_write_outcome option \<times> 'e"
  env_close :: "'c \<Rightarrow> 'e \<Rightarrow> 'e"

definition actor_state_new :: "'c \<Rightarrow> publisher_config \<Rightarrow> delay_strategy option \<Rightarrow> shared \<Rightarrow> 'c actor_state" where
  "actor_state_new ch cfg strategy sh = \<lparr>st_config = cfg, st_phase = PhaseReady, st_generation = 1,
     st_channel = Some ch, st_replay = [], st_publishing = [], st_ledger = [], st_confirmations = [],
     st_publish_in_flight = [], st_sequence = 0, st_permanent_error = None, st_delay_strategy = strategy,
     st_declared = {}, st_shared = sh\<rparr>"

section \<open>Settling a publication\<close>

text \<open>Dropping a retained publication: the guard releases its bytes, the permit returns, and the
  waiter has received \<open>res\<close> or a closed channel.\<close>

definition settle :: "retained \<Rightarrow> publish_result option \<Rightarrow> shared \<Rightarrow> shared" where
  "settle r res sh = sh\<lparr>sh_budget := release (rp_bytes r) (sh_budget sh), sh_permits := sh_permits sh + 1,
     sh_settled := sh_settled sh @ [(rp_completion r, res)]\<rparr>"

definition on_shared :: "(shared \<Rightarrow> shared) \<Rightarrow> 'c actor_state \<Rightarrow> 'c actor_state" where
  "on_shared f s = s\<lparr>st_shared := f (st_shared s)\<rparr>"

definition on_metrics :: "(metrics \<Rightarrow> metrics) \<Rightarrow> 'c actor_state \<Rightarrow> 'c actor_state" where
  "on_metrics f = on_shared (\<lambda>sh. sh\<lparr>sh_metrics := f (sh_metrics sh)\<rparr>)"

definition complete_outcome :: "retained \<Rightarrow> publish_outcome \<Rightarrow> 'c actor_state \<Rightarrow> 'c actor_state" where
  "complete_outcome r o1 = on_shared (settle r (Some (Inr o1)))"

definition complete_error :: "retained \<Rightarrow> publish_error \<Rightarrow> 'c actor_state \<Rightarrow> 'c actor_state" where
  "complete_error r err = on_shared (settle r (Some (Inl err)))"

definition fail_deadline_expired :: "retained \<Rightarrow> 'c actor_state \<Rightarrow> 'c actor_state" where
  "fail_deadline_expired r = complete_error r (publish_error_new Timeout ''publish deadline expired'')"

section \<open>Operations on the state\<close>

text \<open>\<^verbatim>\<open>HashMap\<close> as an association list; an insertion drops the value it displaces.\<close>

definition hm_remove :: "u64 \<Rightarrow> (u64 \<times> 'v) list \<Rightarrow> (u64 \<times> 'v) list" where
  "hm_remove k m = filter (\<lambda>p. fst p \<noteq> k) m"

definition hm_insert :: "u64 \<Rightarrow> 'v \<Rightarrow> (u64 \<times> 'v) list \<Rightarrow> (u64 \<times> 'v) list" where
  "hm_insert k v m = hm_remove k m @ [(k, v)]"

definition drop_displaced :: "retained option \<Rightarrow> 'c actor_state \<Rightarrow> 'c actor_state" where
  "drop_displaced old s = (case old of Some r \<Rightarrow> on_shared (settle r None) s | None \<Rightarrow> s)"

definition publishing_insert :: "u64 \<Rightarrow> retained \<Rightarrow> 'c actor_state \<Rightarrow> 'c actor_state" where
  "publishing_insert k r s = drop_displaced (map_of (st_publishing s) k)
     (s\<lparr>st_publishing := hm_insert k r (st_publishing s)\<rparr>)"

definition ledger_insert :: "u64 \<Rightarrow> in_flight \<Rightarrow> 'c actor_state \<Rightarrow> 'c actor_state" where
  "ledger_insert k i s = drop_displaced (map_option if_retained (map_of (st_ledger s) k))
     (s\<lparr>st_ledger := hm_insert k i (st_ledger s)\<rparr>)"

definition next_deadline :: "'c actor_state \<Rightarrow> instant option" where
  "next_deadline s = (case st_phase s of
     PhaseSuspended \<Rightarrow> (case st_replay s of [] \<Rightarrow> None
       | rs \<Rightarrow> Some (Min (set (map (pq_deadline \<circ> rp_request) rs))))
   | _ \<Rightarrow> None)"

definition suspend :: "u64 \<Rightarrow> 'c actor_state \<Rightarrow> 'c actor_state" where
  "suspend generation s = s\<lparr>
     st_generation := (if generation > 0 then max (st_generation s) generation else st_generation s),
     st_phase := PhaseSuspended, st_channel := None,
     st_replay := sort_key rp_sequence (st_replay s @ map snd (st_publishing s) @ map (if_retained \<circ> snd) (st_ledger s)),
     st_publishing := [], st_ledger := [], st_confirmations := [], st_publish_in_flight := []\<rparr>"

definition complete_all :: "publish_error \<Rightarrow> retained list \<Rightarrow> 'c actor_state \<Rightarrow> 'c actor_state" where
  "complete_all err rs = fold (\<lambda>r. complete_error r err) rs"

definition fail_all :: "publish_error \<Rightarrow> 'c actor_state \<Rightarrow> 'c actor_state" where
  "fail_all err s =
     (complete_all err (map snd (st_publishing s))
       (complete_all err (map (if_retained \<circ> snd) (st_ledger s))
         (complete_all err (st_replay s) s)))
     \<lparr>st_replay := [], st_ledger := [], st_publishing := [], st_confirmations := [], st_publish_in_flight := []\<rparr>"

fun expire_loop :: "instant \<Rightarrow> retained list \<Rightarrow> retained list \<Rightarrow> 'c actor_state \<Rightarrow> 'c actor_state" where
  "expire_loop now [] kept s = s\<lparr>st_replay := kept\<rparr>"
| "expire_loop now (r # rs) kept s =
     (if pq_deadline (rp_request r) \<le> now then
        if rp_retried r
        then expire_loop now rs kept (complete_error r
          (publish_error_new Timeout ''publish deadline expired during connection recovery'') s)
        else expire_loop now rs
          (kept @ [r\<lparr>rp_retried := True, rp_request := (rp_request r)\<lparr>pq_deadline := now + rp_timeout r\<rparr>\<rparr>])
          (on_metrics record_publication_retry s)
      else expire_loop now rs (kept @ [r]) s)"

definition expire_replay :: "instant \<Rightarrow> 'c actor_state \<Rightarrow> 'c actor_state" where
  "expire_replay now s = expire_loop now (st_replay s) [] s"

definition has_pending_publications :: "'c actor_state \<Rightarrow> bool" where
  "has_pending_publications s \<longleftrightarrow> st_replay s \<noteq> [] \<or> st_publishing s \<noteq> [] \<or> st_ledger s \<noteq> [] \<or>
     st_confirmations s \<noteq> [] \<or> st_publish_in_flight s \<noteq> []"

section \<open>Handlers\<close>

definition transport_publish_error :: "transport_error \<Rightarrow> publish_error" where
  "transport_publish_error = publish_error_from_transport"

definition handle_publish_completion :: "('c, 'e) publisher_env \<Rightarrow> u64 \<Rightarrow> wire_write_outcome \<Rightarrow>
    'c actor_state \<times> 'e \<Rightarrow> 'c actor_state \<times> 'e" where
  "handle_publish_completion env sequence result se =
     (case se of (s, e) \<Rightarrow>
      (case map_of (st_publishing s) sequence of
         None \<Rightarrow> (s, e)
       | Some r \<Rightarrow>
         let s1 = s\<lparr>st_publishing := hm_remove sequence (st_publishing s)\<rparr> in
         (case result of
            WriteCompleted (Inr _) \<Rightarrow>
              if enables_confirms (st_config s1) then
                (case env_now env e of (now, e1) \<Rightarrow>
                  let generation = st_generation s1;
                    deadline = min (pq_deadline (rp_request r)) (now + pc_confirm_timeout (st_config s1));
                    s2 = ledger_insert sequence \<lparr>if_retained = r, if_generation = generation\<rparr> s1 in
                  (s2\<lparr>st_confirmations := st_confirmations s2 @ [(sequence, generation, deadline)]\<rparr>, e1))
              else (complete_outcome r (Confirmed (mp_message_id (pq_properties (rp_request r)))) s1, e)
          | WriteTimedOut \<Rightarrow> (fail_deadline_expired r s1, e)
          | WriteCompleted (Inl err) \<Rightarrow>
              if is_recoverable err
              then (suspend (st_generation s1)
                (s1\<lparr>st_replay := st_replay s1 @ [r], st_publish_in_flight := []\<rparr>), e)
              else (complete_error r (transport_publish_error err) s1, e))))"

datatype delay_topology_outcome = TopologyReady | TopologyFailed publish_error

definition actor_ensure_delay_topology :: "(bytes \<Rightarrow> bytes) \<Rightarrow> ('c, 'e) publisher_env \<Rightarrow> 'c \<Rightarrow> retained \<Rightarrow>
    'c actor_state \<times> 'e \<Rightarrow> delay_topology_outcome \<times> 'c actor_state \<times> 'e" where
  "actor_ensure_delay_topology sha env ch r se =
     (case se of (s, e) \<Rightarrow>
      (case st_delay_strategy s of
         None \<Rightarrow> (TopologyReady, s, e)
       | Some strategy \<Rightarrow>
         (case mp_delay_ms (pq_properties (rp_request r)) of
            None \<Rightarrow> (TopologyReady, s, e)
          | Some delay_ms \<Rightarrow>
            if delay_ms = 0 then (TopologyReady, s, e)
            else (case ensure_delay_topology sha (env_topology env ch) strategy
                (pq_destination (rp_request r)) delay_ms (st_declared s) e of
              (Inr _, declared, e1) \<Rightarrow> (TopologyReady, s\<lparr>st_declared := declared\<rparr>, e1)
            | (Inl err, declared, e1) \<Rightarrow> (TopologyFailed err, s\<lparr>st_declared := declared\<rparr>, e1)))))"

text \<open>The body of the drain loop after the delay topology is in place: number the attempt, route it,
  keep it in \<open>publishing\<close> and poll its bounded wire write once. The flag says whether the loop stops.\<close>

definition attempt_write :: "(bytes \<Rightarrow> bytes) \<Rightarrow> ('c, 'e) publisher_env \<Rightarrow> 'c \<Rightarrow> instant \<Rightarrow> retained \<Rightarrow>
    'c actor_state \<times> 'e \<Rightarrow> bool \<times> 'c actor_state \<times> 'e" where
  "attempt_write sha env ch now r se =
     (case se of (s, e) \<Rightarrow>
      let sequence = sat_add (st_sequence s) 1;
        s1 = s\<lparr>st_sequence := sequence\<rparr>;
        r1 = r\<lparr>rp_sequence := sequence\<rparr> in
      (case route_transport_request sha (rp_request r1) (st_delay_strategy s1) (mandatory_flag (st_config s1)) of
         Inl err \<Rightarrow> (False, complete_error r1 err s1, e)
       | Inr request \<Rightarrow>
         let write_deadline = min (pq_deadline (rp_request r1)) (now + pc_confirm_timeout (st_config s1));
           s2 = publishing_insert sequence r1 s1 in
         (case env_publish_poll env ch request write_deadline e of
            (Some result, e1) \<Rightarrow>
              (case handle_publish_completion env sequence result (s2, e1) of
                (s3, e2) \<Rightarrow> (st_phase s3 = PhaseSuspended, s3, e2))
          | (None, e1) \<Rightarrow>
              (False, s2\<lparr>st_publish_in_flight := st_publish_in_flight s2 @ [(sequence, write_deadline)]\<rparr>, e1))))"

fun publish_queue_loop :: "(bytes \<Rightarrow> bytes) \<Rightarrow> ('c, 'e) publisher_env \<Rightarrow> instant \<Rightarrow> retained list \<Rightarrow>
    'c actor_state \<times> 'e \<Rightarrow> 'c actor_state \<times> 'e" where
  "publish_queue_loop sha env now [] se = se"
| "publish_queue_loop sha env now (r # pending) (s, e) =
     (if pq_deadline (rp_request r) \<le> now
      then publish_queue_loop sha env now pending (fail_deadline_expired r s, e)
      else (case st_channel s of
        None \<Rightarrow> (s\<lparr>st_replay := st_replay s @ r # pending\<rparr>, e)
      | Some ch \<Rightarrow>
        (case actor_ensure_delay_topology sha env ch r (s, e) of
           (topology, s1, e1) \<Rightarrow>
             (case env_now env e1 of
                (now1, e2) \<Rightarrow>
                  (case topology of
                     TopologyFailed err \<Rightarrow> publish_queue_loop sha env now1 pending (complete_error r err s1, e2)
                   | TopologyReady \<Rightarrow>
                       (case attempt_write sha env ch now1 r (s1, e2) of
                          (True, s2, e3) \<Rightarrow> (s2\<lparr>st_replay := st_replay s2 @ pending\<rparr>, e3)
                        | (False, s2, e3) \<Rightarrow> publish_queue_loop sha env now1 pending (s2, e3)))))))"

definition publish_queue :: "(bytes \<Rightarrow> bytes) \<Rightarrow> ('c, 'e) publisher_env \<Rightarrow> retained list \<Rightarrow>
    'c actor_state \<times> 'e \<Rightarrow> 'c actor_state \<times> 'e" where
  "publish_queue sha env pending se =
     (case se of (s, e) \<Rightarrow> (case env_now env e of (now, e1) \<Rightarrow> publish_queue_loop sha env now pending (s, e1)))"

definition accept_publish :: "(bytes \<Rightarrow> bytes) \<Rightarrow> ('c, 'e) publisher_env \<Rightarrow> retained list \<Rightarrow>
    'c actor_state \<times> 'e \<Rightarrow> 'c actor_state \<times> 'e" where
  "accept_publish sha env pending se =
     (case se of (s, e) \<Rightarrow>
      (case st_phase s of
         PhaseReady \<Rightarrow> publish_queue sha env pending (s, e)
       | PhaseSuspended \<Rightarrow> (s\<lparr>st_replay := st_replay s @ pending\<rparr>, e)
       | PhaseFailedPermanent \<Rightarrow>
           (complete_all (case st_permanent_error s of Some err \<Rightarrow> err
              | None \<Rightarrow> publish_error_new TransportKind ''publisher connection failed permanently'') pending s, e)))"

definition flush_replay :: "(bytes \<Rightarrow> bytes) \<Rightarrow> ('c, 'e) publisher_env \<Rightarrow> 'c actor_state \<times> 'e \<Rightarrow> 'c actor_state \<times> 'e" where
  "flush_replay sha env se =
     (case se of (s, e) \<Rightarrow>
      (case env_now env e of (now, e1) \<Rightarrow>
        let s1 = expire_replay now s in
        publish_queue sha env (st_replay s1) (s1\<lparr>st_replay := []\<rparr>, e1)))"

definition handle_connection_event :: "(bytes \<Rightarrow> bytes) \<Rightarrow> ('c, 'e) publisher_env \<Rightarrow> 'c publisher_connection_event \<Rightarrow>
    'c actor_state \<times> 'e \<Rightarrow> (publish_error + unit) \<times> 'c actor_state \<times> 'e" where
  "handle_connection_event sha env event se =
     (case se of (s, e) \<Rightarrow>
      (case event of
         RecoveringEvent generation \<Rightarrow> (Inr (), suspend generation s, e)
       | ReadyEvent generation channel topology_restored \<Rightarrow>
           if \<not> topology_restored
           then (Inl (publish_error_new TransportKind ''publisher topology is not restored''), s, e)
           else if generation < st_generation s
           then (Inl (publish_error_new TransportKind ''publisher recovery generation is stale''), s, e)
           else (case (if enables_confirms (st_config s) then env_enable_confirms env channel e else (Inr (), e)) of
             (Inl err, e1) \<Rightarrow> (Inl (transport_publish_error err), s, e1)
           | (Inr _, e1) \<Rightarrow> (Inr (), flush_replay sha env
               (s\<lparr>st_generation := generation, st_channel := Some channel, st_phase := PhaseReady,
                  st_permanent_error := None\<rparr>, e1)))
       | FailedPermanentEvent generation err \<Rightarrow>
           let perr = publish_error_new TransportKind (''publisher connection failed permanently: '' @ te_message err) in
           (Inr (), (fail_all perr (s\<lparr>st_generation := max (st_generation s) generation\<rparr>))
              \<lparr>st_phase := PhaseFailedPermanent, st_channel := None, st_permanent_error := Some perr\<rparr>, e)))"

definition resolve_confirmation :: "('c, 'e) publisher_env \<Rightarrow> u64 \<Rightarrow> u64 \<Rightarrow> confirmation_result \<Rightarrow>
    'c actor_state \<times> 'e \<Rightarrow> 'c actor_state \<times> 'e" where
  "resolve_confirmation env sequence generation result se =
     (case se of (s, e) \<Rightarrow>
      (case map_of (st_ledger s) sequence of
         None \<Rightarrow> (s, e)
       | Some entry \<Rightarrow>
         if if_generation entry \<noteq> generation
         then (s\<lparr>st_ledger := hm_insert sequence entry (st_ledger s)\<rparr>, e)
         else
           let r = if_retained entry;
             message_id = mp_message_id (pq_properties (rp_request r));
             s1 = s\<lparr>st_ledger := hm_remove sequence (st_ledger s)\<rparr> in
           (case (case result of
               ConfCompleted (Inr (Ack _)) \<Rightarrow> (case env_now env e of (now, e1) \<Rightarrow>
                 (on_metrics (record_confirmation (now - rp_accepted_at r)) s1, e1))
             | ConfCompleted (Inr (Nack _)) \<Rightarrow> (case env_now env e of (now, e1) \<Rightarrow>
                 (on_metrics (record_confirmation (now - rp_accepted_at r)) s1, e1))
             | _ \<Rightarrow> (s1, e)) of
             (s2, e2) \<Rightarrow>
               ((case result of
                  ConfTimedOut \<Rightarrow> complete_error r (publish_error_new Timeout ''publisher confirmation timed out'') s2
                | ConfCompleted (Inl err) \<Rightarrow>
                    if is_recoverable err then suspend generation (s2\<lparr>st_replay := st_replay s2 @ [r]\<rparr>)
                    else complete_error r (transport_publish_error err) s2
                | ConfCompleted (Inr conf) \<Rightarrow>
                    (case conf of
                       Ack (Some ret) \<Rightarrow> complete_outcome r (Returned message_id \<lparr>ri_code = rm_reply_code ret, ri_text = rm_reply_text ret,
                         ri_exchange = rm_exchange ret, ri_routing_key = rm_routing_key ret\<rparr>) (on_metrics record_return s2)
                     | Nack (Some ret) \<Rightarrow> complete_outcome r (Returned message_id \<lparr>ri_code = rm_reply_code ret, ri_text = rm_reply_text ret,
                         ri_exchange = rm_exchange ret, ri_routing_key = rm_routing_key ret\<rparr>) (on_metrics record_return s2)
                     | Ack None \<Rightarrow> complete_outcome r (Confirmed message_id) s2
                     | Nack None \<Rightarrow> complete_error r (publish_error_new NackKind ''broker negatively acknowledged the message'') s2
                     | NotRequested \<Rightarrow> complete_error r (publish_error_new Unconfirmed ''publisher confirms were not enabled'') s2)), e2))))"

text \<open>A future of the in-flight sets became ready: it leaves its set and its handler runs.\<close>

definition remove_nth :: "nat \<Rightarrow> 'a list \<Rightarrow> 'a list" where
  "remove_nth i xs = take i xs @ drop (Suc i) xs"

definition confirmation_ready :: "('c, 'e) publisher_env \<Rightarrow> nat \<Rightarrow> confirmation_result \<Rightarrow> 'c actor_state \<times> 'e \<Rightarrow> 'c actor_state \<times> 'e" where
  "confirmation_ready env i result se = (case se of (s, e) \<Rightarrow>
     if i < length (st_confirmations s) then
       (case st_confirmations s ! i of (sequence, generation, _) \<Rightarrow>
          resolve_confirmation env sequence generation result
            (s\<lparr>st_confirmations := remove_nth i (st_confirmations s)\<rparr>, e))
     else (s, e))"

definition publish_ready :: "('c, 'e) publisher_env \<Rightarrow> nat \<Rightarrow> wire_write_outcome \<Rightarrow> 'c actor_state \<times> 'e \<Rightarrow> 'c actor_state \<times> 'e" where
  "publish_ready env i result se = (case se of (s, e) \<Rightarrow>
     if i < length (st_publish_in_flight s) then
       (case st_publish_in_flight s ! i of (sequence, _) \<Rightarrow>
          handle_publish_completion env sequence result
            (s\<lparr>st_publish_in_flight := remove_nth i (st_publish_in_flight s)\<rparr>, e))
     else (s, e))"

datatype quiesce_event = QuiesceDeadline | QuiesceConfirmation nat confirmation_result | QuiescePublish nat wire_write_outcome

text \<open>The bounded wait of a close: the events of its window in the order the runtime yields them; the
  deadline ends it at the latest when they are exhausted.\<close>

fun quiesce_loop :: "('c, 'e) publisher_env \<Rightarrow> quiesce_event list \<Rightarrow> 'c actor_state \<times> 'e \<Rightarrow> 'c actor_state \<times> 'e" where
  "quiesce_loop env [] se = se"
| "quiesce_loop env (ev # evs) (s, e) =
     (if st_phase s = PhaseReady \<and> has_pending_publications s then
        (case ev of
           QuiesceDeadline \<Rightarrow> (s, e)
         | QuiesceConfirmation i result \<Rightarrow> quiesce_loop env evs (confirmation_ready env i result (s, e))
         | QuiescePublish i result \<Rightarrow> quiesce_loop env evs (publish_ready env i result (s, e)))
      else (s, e))"

definition quiesce_and_close :: "(bytes \<Rightarrow> bytes) \<Rightarrow> ('c, 'e) publisher_env \<Rightarrow> quiesce_event list \<Rightarrow>
    'c actor_state \<times> 'e \<Rightarrow> 'c actor_state \<times> 'e" where
  "quiesce_and_close sha env window se =
     (case se of (s, e) \<Rightarrow>
      (case (if st_phase s = PhaseReady
             then (case env_now env e of (_, e1) \<Rightarrow>
               quiesce_loop env window (publish_queue sha env (st_replay s) (s\<lparr>st_replay := []\<rparr>, e1)))
             else (s, e)) of
        (s1, e2) \<Rightarrow>
          let s2 = fail_all (publish_error_new ClosedPublish
            ''publisher actor was closed before the publication could be attempted'') s1 in
          (case st_channel s2 of
             Some ch \<Rightarrow> (s2\<lparr>st_channel := None\<rparr>, env_close env ch e2)
           | None \<Rightarrow> (s2, e2))))"

section \<open>Specification: outstanding publications are settled one by one\<close>

text \<open>
  The abstract machine the actor implements: a multiset of outstanding publications, each known by
  its waiter and its reserved bytes, and the shared state. All it can do is settle one outstanding
  publication, which removes it, and touch the metrics. Publications the actor is about to
  process, still outside its state, are the list \<open>X\<close>.
\<close>

definition key :: "retained \<Rightarrow> nat \<times> u64" where
  "key r = (rp_completion r, rp_bytes r)"

fun settle_key :: "nat \<times> u64 \<Rightarrow> publish_result option \<Rightarrow> shared \<Rightarrow> shared" where
  "settle_key (t, n) res sh = sh\<lparr>sh_budget := release n (sh_budget sh), sh_permits := sh_permits sh + 1,
     sh_settled := sh_settled sh @ [(t, res)]\<rparr>"

inductive resolves :: "(nat \<times> u64) multiset \<times> shared \<Rightarrow> (nat \<times> u64) multiset \<times> shared \<Rightarrow> bool" for a where
  start: "resolves a a"
| settled: "resolves a (add_mset k H, sh) \<Longrightarrow> resolves a (H, settle_key k res sh)"
| measured: "resolves a (H, sh) \<Longrightarrow> resolves a (H, sh\<lparr>sh_metrics := m\<rparr>)"

definition held :: "'c actor_state \<Rightarrow> retained list" where
  "held s = st_replay s @ map snd (st_publishing s) @ map (if_retained \<circ> snd) (st_ledger s)"

definition outstanding :: "retained list \<Rightarrow> 'c actor_state \<Rightarrow> (nat \<times> u64) multiset \<times> shared" where
  "outstanding X s = (mset (map key (X @ held s)), st_shared s)"

definition maps_ok :: "'c actor_state \<Rightarrow> bool" where
  "maps_ok s \<longleftrightarrow> distinct (map fst (st_publishing s)) \<and> distinct (map fst (st_ledger s))"

lemma resolves_trans: "resolves b c \<Longrightarrow> resolves a b \<Longrightarrow> resolves a c"
  by (induction rule: resolves.induct) (auto intro: resolves.intros)

lemma settle_key_of: "settle r res = settle_key (key r) res"
  by (rule ext) (simp add: settle_def key_def)

named_theorems resolution

lemma resolves_on_shared [resolution]:
  "resolves a (outstanding (r # X) s) \<Longrightarrow> resolves a (outstanding X (on_shared (settle r res) s))"
  by (simp add: outstanding_def on_shared_def held_def settle_key_of settled)

lemma resolves_complete [resolution]:
  "resolves a (outstanding (r # X) s) \<Longrightarrow> resolves a (outstanding X (complete_error r err s))"
  "resolves a (outstanding (r # X) s) \<Longrightarrow> resolves a (outstanding X (complete_outcome r o1 s))"
  "resolves a (outstanding (r # X) s) \<Longrightarrow> resolves a (outstanding X (fail_deadline_expired r s))"
  by (simp_all add: complete_error_def complete_outcome_def fail_deadline_expired_def resolves_on_shared)

lemma resolves_metrics [resolution]:
  "resolves a (outstanding X s) \<Longrightarrow> resolves a (outstanding X (on_metrics f s))"
  by (simp add: outstanding_def on_metrics_def on_shared_def held_def measured)

lemma map_of_hm_remove: "map_of (hm_remove k m) j = (if j = k then None else map_of m j)"
  by (induction m) (auto simp: hm_remove_def)

lemma hm_remove_mset:
  "distinct (map fst m) \<Longrightarrow> map_of m k = Some v \<Longrightarrow> mset m = add_mset (k, v) (mset (hm_remove k m))"
proof (induction m)
  case (Cons p m)
  show ?case
  proof (cases "fst p = k")
    case True
    then have "hm_remove k (p # m) = m"
      using Cons.prems by (auto simp: hm_remove_def filter_id_conv image_iff)
    with True Cons.prems show ?thesis by (cases p) auto
  next
    case False
    with Cons show ?thesis by (auto simp: hm_remove_def)
  qed
qed simp

lemma hm_remove_None: "map_of m k = None \<Longrightarrow> hm_remove k m = m"
  by (force simp: hm_remove_def filter_id_conv map_of_eq_None_iff)

lemma distinct_hm [simp]:
  "distinct (map fst m) \<Longrightarrow> distinct (map fst (hm_remove k m))"
  "distinct (map fst m) \<Longrightarrow> distinct (map fst (hm_insert k v m))"
  "set (map fst (hm_remove k m)) = set (map fst m) - {k}"
  "set (map fst (hm_insert k v m)) = insert k (set (map fst m))"
  by (auto simp: hm_remove_def hm_insert_def distinct_map_filter)

lemma mset_map_hm_remove:
  assumes "distinct (map fst m)" "map_of m k = Some v"
  shows "mset (map (f \<circ> snd) m) = add_mset (f v) (mset (map (f \<circ> snd) (hm_remove k m)))"
  using arg_cong [OF hm_remove_mset [OF assms], of "image_mset (f \<circ> snd)"] by (simp flip: mset_map)

lemma take_publishing:
  assumes "maps_ok s" "map_of (st_publishing s) k = Some r"
  shows "outstanding X s = outstanding (r # X) (s\<lparr>st_publishing := hm_remove k (st_publishing s)\<rparr>)"
  using mset_map_hm_remove [of "st_publishing s" k r key] assms
  by (simp add: outstanding_def held_def maps_ok_def comp_assoc)

lemma take_ledger:
  assumes "maps_ok s" "map_of (st_ledger s) k = Some i"
  shows "outstanding X s = outstanding (if_retained i # X) (s\<lparr>st_ledger := hm_remove k (st_ledger s)\<rparr>)"
  using mset_map_hm_remove [of "st_ledger s" k i "key \<circ> if_retained"] assms
  by (simp add: outstanding_def held_def maps_ok_def comp_assoc)

lemma resolves_publishing_insert [resolution]:
  assumes "resolves a (outstanding (r # X) s)" "maps_ok s" "key r' = key r"
  shows "resolves a (outstanding X (publishing_insert k r' s))"
proof (cases "map_of (st_publishing s) k")
  case None
  with assms show ?thesis
    by (simp add: publishing_insert_def drop_displaced_def outstanding_def held_def hm_insert_def hm_remove_None)
next
  case (Some old)
  let ?s = "s\<lparr>st_publishing := hm_insert k r' (st_publishing s)\<rparr>"
  have "outstanding (r # X) s = outstanding (old # X) ?s"
    using take_publishing [OF assms(2) Some, of "r # X"] assms(3)
    by (simp add: outstanding_def held_def hm_insert_def)
  with assms(1) Some show ?thesis
    by (simp add: publishing_insert_def drop_displaced_def resolves_on_shared)
qed

lemma resolves_ledger_insert [resolution]:
  assumes "resolves a (outstanding (if_retained i # X) s)" "maps_ok s"
  shows "resolves a (outstanding X (ledger_insert k i s))"
proof (cases "map_of (st_ledger s) k")
  case None
  with assms show ?thesis
    by (simp add: ledger_insert_def drop_displaced_def outstanding_def held_def hm_insert_def hm_remove_None)
next
  case (Some old)
  let ?s = "s\<lparr>st_ledger := hm_insert k i (st_ledger s)\<rparr>"
  have "outstanding (if_retained i # X) s = outstanding (if_retained old # X) ?s"
    using take_ledger [OF assms(2) Some, of "if_retained i # X"]
    by (simp add: outstanding_def held_def hm_insert_def)
  with assms(1) Some show ?thesis
    by (simp add: ledger_insert_def drop_displaced_def resolves_on_shared)
qed

lemma outstanding_suspend [simp]: "outstanding X (suspend g s) = outstanding X s"
  by (simp add: outstanding_def suspend_def held_def multiset.map_comp)

lemma resolves_complete_all:
  "resolves a (outstanding (rs @ X) s) \<Longrightarrow> resolves a (outstanding X (complete_all err rs s))"
  by (induction rs arbitrary: s) (simp_all add: complete_all_def resolves_complete)

text \<open>Settling and measuring touch the shared state only.\<close>

lemma on_shared_fields [simp]:
  "st_config (on_shared f s) = st_config s" "st_phase (on_shared f s) = st_phase s"
  "st_generation (on_shared f s) = st_generation s" "st_channel (on_shared f s) = st_channel s"
  "st_replay (on_shared f s) = st_replay s" "st_publishing (on_shared f s) = st_publishing s"
  "st_ledger (on_shared f s) = st_ledger s" "st_confirmations (on_shared f s) = st_confirmations s"
  "st_publish_in_flight (on_shared f s) = st_publish_in_flight s" "st_sequence (on_shared f s) = st_sequence s"
  "st_permanent_error (on_shared f s) = st_permanent_error s"
  "st_delay_strategy (on_shared f s) = st_delay_strategy s" "st_declared (on_shared f s) = st_declared s"
  by (simp_all add: on_shared_def)

definition same_core :: "'c actor_state \<Rightarrow> 'c actor_state \<Rightarrow> bool" where
  "same_core s s' \<longleftrightarrow> (\<exists>sh. s' = s\<lparr>st_shared := sh\<rparr>)"

lemma same_core_intros [simp, intro]:
  "same_core s s" "same_core s (on_shared f s)" "same_core s (on_metrics g s)"
  "same_core s (complete_error r err s)" "same_core s (complete_outcome r o1 s)"
  "same_core s (fail_deadline_expired r s)" "same_core s (drop_displaced old s)"
  by (auto simp: same_core_def on_shared_def on_metrics_def complete_error_def complete_outcome_def
      fail_deadline_expired_def drop_displaced_def intro: exI [of _ "st_shared s"] split: option.splits)

lemma same_core_trans: "same_core s s' \<Longrightarrow> same_core s' s'' \<Longrightarrow> same_core s s''"
  by (auto simp: same_core_def)

lemma same_core_all [simp, intro]: "same_core s (complete_all err rs s)"
proof (induction rs arbitrary: s)
  case (Cons r rs)
  from Cons [of "complete_error r err s"] show ?case
    unfolding complete_all_def fold_Cons comp_def by (rule same_core_trans [rotated]) simp
qed (simp add: complete_all_def)

lemma same_coreD:
  assumes "same_core s s'"
  shows "st_config s' = st_config s" "st_phase s' = st_phase s" "st_generation s' = st_generation s"
    "st_channel s' = st_channel s" "st_replay s' = st_replay s" "st_publishing s' = st_publishing s"
    "st_ledger s' = st_ledger s" "st_confirmations s' = st_confirmations s"
    "st_publish_in_flight s' = st_publish_in_flight s" "st_sequence s' = st_sequence s"
    "st_permanent_error s' = st_permanent_error s" "st_delay_strategy s' = st_delay_strategy s"
    "st_declared s' = st_declared s"
  using assms by (auto simp: same_core_def)

lemmas settle_fields [simp] =
  same_coreD [OF same_core_intros(3)] same_coreD [OF same_core_intros(4)] same_coreD [OF same_core_intros(5)]
  same_coreD [OF same_core_intros(6)] same_coreD [OF same_core_intros(7)] same_coreD [OF same_core_all]

lemma maps_ok_core: "same_core s s' \<Longrightarrow> maps_ok s' = maps_ok s"
  by (simp add: maps_ok_def same_coreD)

lemma resolves_fail_all:
  assumes "resolves a (outstanding X s)"
  shows "resolves a (outstanding X (fail_all err s))"
proof -
  let ?s1 = "complete_all err (st_replay s) s"
  let ?s2 = "complete_all err (map (if_retained \<circ> snd) (st_ledger s)) ?s1"
  let ?s3 = "complete_all err (map snd (st_publishing s)) ?s2"
  let ?e = "\<lambda>s. s\<lparr>st_replay := [], st_ledger := [], st_publishing := [], st_confirmations := [], st_publish_in_flight := []\<rparr>"
  have shift: "outstanding X s = outstanding (st_replay s @ map (if_retained \<circ> snd) (st_ledger s) @ map snd (st_publishing s) @ X) (?e s)"
    by (simp add: outstanding_def held_def)
  have e1: "?e (complete_error r err t) = complete_error r err (?e t)" for r and t :: "'a actor_state"
    by (cases t) (simp add: complete_error_def on_shared_def)
  have e: "?e (complete_all err rs t) = complete_all err rs (?e t)" for rs and t :: "'a actor_state"
    unfolding complete_all_def by (induction rs arbitrary: t) (simp_all add: e1)
  have "resolves a (outstanding X (complete_all err (map snd (st_publishing s))
      (complete_all err (map (if_retained \<circ> snd) (st_ledger s)) (complete_all err (st_replay s) (?e s)))))"
    using assms unfolding shift by (intro resolves_complete_all) simp
  then show ?thesis by (simp add: fail_all_def e)
qed

lemma fail_all_fields [simp]:
  "held (fail_all err s) = []" "st_replay (fail_all err s) = []" "st_publishing (fail_all err s) = []"
  "st_ledger (fail_all err s) = []" "st_confirmations (fail_all err s) = []"
  "st_publish_in_flight (fail_all err s) = []" "st_channel (fail_all err s) = st_channel s"
  "st_phase (fail_all err s) = st_phase s" "st_sequence (fail_all err s) = st_sequence s"
  "st_generation (fail_all err s) = st_generation s" "st_config (fail_all err s) = st_config s"
  by (simp_all add: fail_all_def held_def)

lemma expire_loop_held:
  "resolves a (outstanding X (s\<lparr>st_replay := kept @ rs\<rparr>)) \<Longrightarrow> resolves a (outstanding X (expire_loop now rs kept s))"
proof (induction now rs kept s rule: expire_loop.induct)
  case prems: (2 now r rs kept s)
  let ?r = "r\<lparr>rp_retried := True, rp_request := (rp_request r)\<lparr>pq_deadline := now + rp_timeout r\<rparr>\<rparr>"
  have 1: "resolves a (outstanding X (complete_error r err s\<lparr>st_replay := kept @ rs\<rparr>))" for err
    using resolves_complete(1) [of a r X "s\<lparr>st_replay := kept @ rs\<rparr>" err] prems(4)
    by (simp add: outstanding_def held_def complete_error_def on_shared_def)
  have 2: "resolves a (outstanding X (on_metrics record_publication_retry s\<lparr>st_replay := kept @ ?r # rs\<rparr>))"
    using resolves_metrics [of a X "s\<lparr>st_replay := kept @ r # rs\<rparr>" record_publication_retry] prems(4)
    by (simp add: outstanding_def held_def on_metrics_def on_shared_def key_def)
  from 1 2 prems show ?case by simp
qed simp

lemma expire_loop_fields [simp]:
  "st_config (expire_loop now rs kept s) = st_config s" "st_phase (expire_loop now rs kept s) = st_phase s"
  "st_channel (expire_loop now rs kept s) = st_channel s" "st_generation (expire_loop now rs kept s) = st_generation s"
  "st_publishing (expire_loop now rs kept s) = st_publishing s" "st_ledger (expire_loop now rs kept s) = st_ledger s"
  "st_confirmations (expire_loop now rs kept s) = st_confirmations s"
  "st_publish_in_flight (expire_loop now rs kept s) = st_publish_in_flight s"
  "st_sequence (expire_loop now rs kept s) = st_sequence s"
  "st_permanent_error (expire_loop now rs kept s) = st_permanent_error s"
  "st_delay_strategy (expire_loop now rs kept s) = st_delay_strategy s"
  by (induction now rs kept s rule: expire_loop.induct) simp_all

lemma resolves_expire [resolution]:
  "resolves a (outstanding X s) \<Longrightarrow> resolves a (outstanding X (expire_replay now s))"
  unfolding expire_replay_def by (rule expire_loop_held) simp

section \<open>Every handler implements the specification\<close>

lemma outstanding_fields [simp]:
  "outstanding X (s\<lparr>st_confirmations := c\<rparr>) = outstanding X s"
  "outstanding X (s\<lparr>st_publish_in_flight := p\<rparr>) = outstanding X s"
  "outstanding X (s\<lparr>st_sequence := q\<rparr>) = outstanding X s"
  "outstanding X (s\<lparr>st_declared := d\<rparr>) = outstanding X s"
  "outstanding X (s\<lparr>st_channel := ch\<rparr>) = outstanding X s"
  "outstanding X (s\<lparr>st_generation := g\<rparr>) = outstanding X s"
  "outstanding X (s\<lparr>st_phase := ph\<rparr>) = outstanding X s"
  "outstanding X (s\<lparr>st_permanent_error := pe\<rparr>) = outstanding X s"
  by (simp_all add: outstanding_def held_def)

lemma outstanding_replay:
  "outstanding X (s\<lparr>st_replay := st_replay s @ rs\<rparr>) = outstanding (rs @ X) s"
  "outstanding X s = outstanding (st_replay s @ X) (s\<lparr>st_replay := []\<rparr>)"
  by (simp_all add: outstanding_def held_def)

lemma maps_ok_simps [simp]:
  "maps_ok (s\<lparr>st_confirmations := c\<rparr>) = maps_ok s" "maps_ok (s\<lparr>st_publish_in_flight := p\<rparr>) = maps_ok s"
  "maps_ok (s\<lparr>st_sequence := q\<rparr>) = maps_ok s" "maps_ok (s\<lparr>st_declared := d\<rparr>) = maps_ok s"
  "maps_ok (s\<lparr>st_channel := ch\<rparr>) = maps_ok s" "maps_ok (s\<lparr>st_generation := g\<rparr>) = maps_ok s"
  "maps_ok (s\<lparr>st_phase := ph\<rparr>) = maps_ok s" "maps_ok (s\<lparr>st_permanent_error := pe\<rparr>) = maps_ok s"
  "maps_ok (s\<lparr>st_replay := rs\<rparr>) = maps_ok s" "maps_ok (suspend g s)" "maps_ok (fail_all err s)"
  "maps_ok (expire_replay now s) = maps_ok s"
  by (simp_all add: maps_ok_def suspend_def expire_replay_def)

lemma maps_ok_hm [simp]:
  "maps_ok s \<Longrightarrow> maps_ok (s\<lparr>st_publishing := hm_remove k (st_publishing s)\<rparr>)"
  "maps_ok s \<Longrightarrow> maps_ok (s\<lparr>st_ledger := hm_remove k (st_ledger s)\<rparr>)"
  "maps_ok s \<Longrightarrow> maps_ok (s\<lparr>st_ledger := hm_insert k i (st_ledger s)\<rparr>)"
  "maps_ok s \<Longrightarrow> maps_ok (publishing_insert k r s)" "maps_ok s \<Longrightarrow> maps_ok (ledger_insert k i s)"
  by (simp_all add: maps_ok_def publishing_insert_def ledger_insert_def)

lemmas maps_ok_settle [simp] =
  maps_ok_core [OF same_core_intros(3)] maps_ok_core [OF same_core_intros(4)] maps_ok_core [OF same_core_intros(5)]
  maps_ok_core [OF same_core_intros(6)] maps_ok_core [OF same_core_all]

text \<open>A state transformer implements the specification when it only settles publications.\<close>

definition implements :: "retained list \<Rightarrow> 'c actor_state \<Rightarrow> retained list \<Rightarrow> 'c actor_state \<Rightarrow> bool" where
  "implements X s Y s' \<longleftrightarrow> maps_ok s \<longrightarrow> maps_ok s' \<and> resolves (outstanding X s) (outstanding Y s')"

lemma implements_trans: "implements X s Y s' \<Longrightarrow> implements Y s' Z s'' \<Longrightarrow> implements X s Z s''"
  by (auto simp: implements_def intro: resolves_trans)

lemma handle_publish_completion_implements:
  "implements X s X (fst (handle_publish_completion env k res (s, e)))"
proof (cases "map_of (st_publishing s) k")
  case None
  then show ?thesis by (simp add: handle_publish_completion_def implements_def start)
next
  case (Some r)
  let ?s = "s\<lparr>st_publishing := hm_remove k (st_publishing s)\<rparr>"
  show ?thesis unfolding implements_def
  proof (intro impI)
    assume ok: "maps_ok s"
    have st: "outstanding X s = outstanding (r # X) ?s" by (rule take_publishing [OF ok Some])
    have base: "resolves (outstanding X s) (outstanding (r # X) ?s)" unfolding st by (rule start)
    have susp: "resolves (outstanding X s) (outstanding X (suspend g (?s\<lparr>st_replay := st_replay ?s @ [r], st_publish_in_flight := []\<rparr>)))" for g
      using base outstanding_replay(1) [of X ?s "[r]"] by simp
    show "maps_ok (fst (handle_publish_completion env k res (s, e))) \<and>
      resolves (outstanding X s) (outstanding X (fst (handle_publish_completion env k res (s, e))))"
      using Some ok susp
      by (auto simp: handle_publish_completion_def Let_def split: wire_write_outcome.splits sum.splits prod.splits
          intro!: resolves_complete resolves_ledger_insert base)
  qed
qed

end
