(* ===== verification/Publisher_System.thy ===== *)
theory Publisher_System
  imports Publisher_Actor
begin

text \<open>
  tbd
\<close>

section \<open>Every handler implements the specification, continued\<close>

lemma resolve_confirmation_implements:
  "implements X s X (fst (resolve_confirmation env k g res (s, e)))"
proof (cases "map_of (st_ledger s) k")
  case None
  then show ?thesis by (simp add: resolve_confirmation_def implements_def start)
next
  case (Some i)
  let ?s = "s\<lparr>st_ledger := hm_remove k (st_ledger s)\<rparr>"
  show ?thesis unfolding implements_def
  proof (intro impI)
    assume ok: "maps_ok s"
    have st: "outstanding X s = outstanding (if_retained i # X) ?s" by (rule take_ledger [OF ok Some])
    have base: "resolves (outstanding X s) (outstanding (if_retained i # X) ?s)" unfolding st by (rule start)
    have reinsert: "outstanding X (s\<lparr>st_ledger := hm_insert k i (st_ledger s)\<rparr>) = outstanding X s"
      unfolding st by (simp add: outstanding_def held_def hm_insert_def)
    have susp: "resolves (outstanding X s) (outstanding X (suspend g (?s\<lparr>st_replay := st_replay ?s @ [if_retained i]\<rparr>)))" for g
      using base outstanding_replay(1) [of X ?s "[if_retained i]"] by simp
    show "maps_ok (fst (resolve_confirmation env k g res (s, e))) \<and>
      resolves (outstanding X s) (outstanding X (fst (resolve_confirmation env k g res (s, e))))"
    proof (cases "if_generation i = g")
      case False
      with Some ok show ?thesis by (simp add: resolve_confirmation_def reinsert start)
    next
      case True
      with Some ok susp show ?thesis
        by (auto simp: resolve_confirmation_def Let_def
            split: confirmation_result.splits sum.splits prod.splits publish_confirmation.splits option.splits
            intro!: resolves_complete resolves_metrics base)
    qed
  qed
qed

lemma attempt_write_implements:
  assumes "attempt_write sha env ch now r (s, e) = (b, s', e')"
  shows "implements (r # X) s X s'"
  unfolding implements_def
proof (intro impI)
  assume ok: "maps_ok s"
  let ?k = "sat_add (st_sequence s) 1"
  let ?r = "r\<lparr>rp_sequence := ?k\<rparr>"
  let ?s = "s\<lparr>st_sequence := ?k\<rparr>"
  have key: "key ?r = key r" by (simp add: key_def)
  then have same: "outstanding (?r # X) ?s = outstanding (r # X) s" by (simp add: outstanding_def held_def)
  have ins: "implements (r # X) s X (publishing_insert ?k ?r ?s)"
    unfolding implements_def using ok key same
    by (auto intro!: resolves_publishing_insert [of _ r] simp: start)
  have fail: "resolves (outstanding (r # X) s) (outstanding X (complete_error ?r err ?s))" for err
    using resolves_complete(1) [of "outstanding (r # X) s" ?r X ?s err] same by (simp add: start)
  have "implements (r # X) s X s'"
  proof (cases "route_transport_request sha (rp_request ?r) (st_delay_strategy ?s) (mandatory_flag (st_config ?s))")
    case (Inl err)
    with assms ok fail show ?thesis by (auto simp: attempt_write_def Let_def implements_def)
  next
    case (Inr req)
    let ?d = "min (pq_deadline (rp_request ?r)) (now + pc_confirm_timeout (st_config ?s))"
    obtain o1 e1 where poll: "env_publish_poll env ch req ?d e = (o1, e1)"
      by (cases "env_publish_poll env ch req ?d e")
    show ?thesis
    proof (cases o1)
      case None
      with assms ok ins Inr poll show ?thesis by (auto simp: attempt_write_def Let_def implements_def)
    next
      case (Some w)
      from implements_trans [OF ins handle_publish_completion_implements [of X _ env ?k w e1]] assms Inr poll Some
      show ?thesis by (auto simp: attempt_write_def Let_def split: prod.splits)
    qed
  qed
  with ok show "maps_ok s' \<and> resolves (outstanding (r # X) s) (outstanding X s')" by (simp add: implements_def)
qed

lemma actor_ensure_delay_topology_state:
  assumes "actor_ensure_delay_topology sha env ch r (s, e) = (t, s', e')"
  shows "\<exists>d. s' = s\<lparr>st_declared := d\<rparr>"
  using assms unfolding actor_ensure_delay_topology_def
  by (auto split: option.splits if_splits prod.splits sum.splits intro: exI [of _ "st_declared s"])

lemma publish_queue_loop_implements:
  "implements (pending @ X) s X (fst (publish_queue_loop sha env now pending (s, e)))"
proof (induction pending arbitrary: now s e)
  case Nil
  then show ?case by (simp add: implements_def start)
next
  case (Cons r pending)
  let ?Y = "pending @ X"
  have comp: "implements (r # ?Y) s ?Y (complete_error r err (s\<lparr>st_declared := d\<rparr>))"
    "implements (r # ?Y) s ?Y (fail_deadline_expired r s)" for err d
    by (simp_all add: implements_def resolves_complete start)
  show ?case
  proof (cases "pq_deadline (rp_request r) \<le> now")
    case True
    with implements_trans [OF comp(2) Cons.IH] show ?thesis by simp
  next
    case live: False
    show ?thesis
    proof (cases "st_channel s")
      case None
      with live show ?thesis by (simp add: implements_def outstanding_replay(1) start)
    next
      case (Some ch)
      obtain t s1 e1 where topo: "actor_ensure_delay_topology sha env ch r (s, e) = (t, s1, e1)"
        by (cases "actor_ensure_delay_topology sha env ch r (s, e)")
      from actor_ensure_delay_topology_state [OF topo] obtain d where s1: "s1 = s\<lparr>st_declared := d\<rparr>" by blast
      obtain now1 e2 where now: "env_now env e1 = (now1, e2)" by (cases "env_now env e1")
      show ?thesis
      proof (cases t)
        case (TopologyFailed err)
        with live Some topo now s1 implements_trans [OF comp(1) Cons.IH] show ?thesis by simp
      next
        case TopologyReady
        obtain b s2 e3 where w: "attempt_write sha env ch now1 r (s1, e2) = (b, s2, e3)"
          by (cases "attempt_write sha env ch now1 r (s1, e2)")
        have step: "implements (r # ?Y) s ?Y s2"
          using attempt_write_implements [OF w, of ?Y] s1 by (simp add: implements_def)
        show ?thesis
        proof (cases b)
          case True
          with live Some topo now TopologyReady w step show ?thesis
            by (simp add: implements_def outstanding_replay(1))
        next
          case False
          with live Some topo now TopologyReady w implements_trans [OF step Cons.IH] show ?thesis by simp
        qed
      qed
    qed
  qed
qed

lemma publish_queue_implements: "implements (pending @ X) s X (fst (publish_queue sha env pending (s, e)))"
  by (auto simp: publish_queue_def split: prod.splits intro: publish_queue_loop_implements)

lemma accept_publish_implements: "implements (pending @ X) s X (fst (accept_publish sha env pending (s, e)))"
proof (cases "st_phase s")
  case PhaseReady
  with publish_queue_implements show ?thesis by (simp add: accept_publish_def)
next
  case PhaseSuspended
  then show ?thesis by (simp add: accept_publish_def implements_def outstanding_replay(1) start)
next
  case PhaseFailedPermanent
  then show ?thesis by (simp add: accept_publish_def implements_def resolves_complete_all start)
qed

lemma flush_replay_implements: "implements X s X (fst (flush_replay sha env (s, e)))"
proof -
  obtain now e1 where now: "env_now env e = (now, e1)" by (cases "env_now env e")
  let ?s = "expire_replay now s"
  have 1: "implements X s X ?s" by (simp add: implements_def resolves_expire start)
  have 2: "implements X ?s (st_replay ?s @ X) (?s\<lparr>st_replay := []\<rparr>)"
    using outstanding_replay(2) [of X ?s] by (simp add: implements_def start)
  from now implements_trans [OF 1 implements_trans [OF 2 publish_queue_implements]] show ?thesis
    by (simp add: flush_replay_def Let_def)
qed

lemma handle_connection_event_implements:
  "implements X s X (fst (snd (handle_connection_event sha env ev (s, e))))"
proof (cases ev)
  case (RecoveringEvent g)
  then show ?thesis by (simp add: handle_connection_event_def implements_def start)
next
  case (ReadyEvent g ch ok)
  let ?s = "s\<lparr>st_generation := g, st_channel := Some ch, st_phase := PhaseReady, st_permanent_error := None\<rparr>"
  have "implements X s X ?s" by (simp add: implements_def start)
  from implements_trans [OF this flush_replay_implements]
  have flush: "implements X s X (fst (flush_replay sha env (?s, e1)))" for e1 .
  obtain res e1 where conf: "(if enables_confirms (st_config s) then env_enable_confirms env ch e else (Inr (), e)) = (res, e1)"
    by (cases "if enables_confirms (st_config s) then env_enable_confirms env ch e else (Inr (), e)")
  have same: "implements X s X s" by (simp add: implements_def start)
  show ?thesis
    unfolding handle_connection_event_def ReadyEvent prod.case publisher_connection_event.case conf
    using flush same by (cases res) simp_all
next
  case (FailedPermanentEvent g err)
  then show ?thesis
    by (simp add: handle_connection_event_def Let_def implements_def resolves_fail_all start)
qed

lemma ready_implements:
  "implements X s X (fst (confirmation_ready env i c (s, e)))" "implements X s X (fst (publish_ready env i w (s, e)))"
proof -
  have same: "implements X s X (s\<lparr>st_confirmations := cs\<rparr>)" "implements X s X (s\<lparr>st_publish_in_flight := ps\<rparr>)"
    "implements X s X s" for cs ps
    by (simp_all add: implements_def start)
  show "implements X s X (fst (confirmation_ready env i c (s, e)))"
    by (cases "st_confirmations s ! i")
      (simp add: confirmation_ready_def implements_trans [OF same(1) resolve_confirmation_implements] same(3))
  show "implements X s X (fst (publish_ready env i w (s, e)))"
    by (cases "st_publish_in_flight s ! i")
      (simp add: publish_ready_def implements_trans [OF same(2) handle_publish_completion_implements] same(3))
qed

lemma quiesce_loop_implements: "implements X s X (fst se) \<Longrightarrow> implements X s X (fst (quiesce_loop env evs se))"
proof (induction evs arbitrary: se)
  case (Cons ev evs)
  obtain t e where se: "se = (t, e)" by (cases se)
  have step: "implements X s X (fst (confirmation_ready env i c (t, e)))" "implements X s X (fst (publish_ready env i w (t, e)))" for i c w
    using implements_trans [OF _ ready_implements(1)] implements_trans [OF _ ready_implements(2)] Cons.prems se by simp_all
  show ?case
  proof (cases "st_phase t = PhaseReady \<and> has_pending_publications t")
    case True
    with se Cons.prems Cons.IH [OF step(1)] Cons.IH [OF step(2)] show ?thesis by (cases ev) simp_all
  next
    case False
    with se Cons.prems show ?thesis by auto
  qed
qed simp

lemma quiesce_and_close_implements: "implements X s X (fst (quiesce_and_close sha env window (s, e)))"
proof -
  let ?fin = "\<lambda>s. fail_all (publish_error_new ClosedPublish
    ''publisher actor was closed before the publication could be attempted'') s"
  have fin: "implements X t X (?fin t)" "implements X t X ((?fin t)\<lparr>st_channel := ch\<rparr>)" for t ch
    by (simp_all add: implements_def resolves_fail_all start)
  have "implements X s (st_replay s @ X) (s\<lparr>st_replay := []\<rparr>)"
    using outstanding_replay(2) [of X s] by (simp add: implements_def start)
  from quiesce_loop_implements [OF implements_trans [OF this publish_queue_implements]]
  have q: "implements X s X (fst (quiesce_loop env window (publish_queue sha env (st_replay s) (s\<lparr>st_replay := []\<rparr>, e1))))" for e1 .
  define m where "m = (if st_phase s = PhaseReady
      then (case env_now env e of (_, e1) \<Rightarrow>
        quiesce_loop env window (publish_queue sha env (st_replay s) (s\<lparr>st_replay := []\<rparr>, e1))) else (s, e))"
  have pre: "implements X s X (fst m)"
    using q by (cases "env_now env e") (simp add: m_def implements_def start)
  show ?thesis
    unfolding quiesce_and_close_def prod.case m_def [symmetric]
    using implements_trans [OF pre fin(1)] implements_trans [OF pre fin(2) [of _ None]]
    by (cases m) (simp add: Let_def split: option.splits)
qed

lemma quiesce_and_close_empty: "held (fst (quiesce_and_close sha env window (s, e))) = []"
  by (auto simp: quiesce_and_close_def Let_def held_def split: prod.splits option.splits)

section \<open>The system: handles, mailbox and actor\<close>

datatype 'c command = CmdPublish retained | CmdConnectionEvent "'c publisher_connection_event" | CmdClose

text \<open>
  \<open>ps_next\<close> names the next oneshot: the waiters handed out so far are \<open>0..<ps_next\<close>.
  \<open>ps_replies\<close> lists the answers to connection events.
\<close>

record 'c publisher_system =
  ps_actor :: "'c actor_state"
  ps_mailbox :: "'c command list"
  ps_capacity :: nat
  ps_next :: nat
  ps_running :: bool
  ps_replies :: "(publish_error + unit) list"

definition on_actor :: "('c actor_state \<Rightarrow> 'c actor_state) \<Rightarrow> 'c publisher_system \<Rightarrow> 'c publisher_system" where
  "on_actor f sy = sy\<lparr>ps_actor := f (ps_actor sy)\<rparr>"

definition try_publish :: "('c, 'e) publisher_env \<Rightarrow> pub_request \<Rightarrow> 'c publisher_system \<times> 'e \<Rightarrow>
    (publish_error + nat) \<times> 'c publisher_system \<times> 'e" where
  "try_publish env request sye =
     (case sye of (sy, e) \<Rightarrow>
      let payload_bytes = u64_clamp (length (pq_payload request));
        sh = st_shared (ps_actor sy) in
      (case try_reserve payload_bytes (sh_budget sh) of
         (False, b) \<Rightarrow>
           (Inl (publish_error_new Backpressure ''publisher byte budget is exhausted''),
            on_actor (on_metrics record_backpressure \<circ> on_shared (\<lambda>sh. sh\<lparr>sh_budget := b\<rparr>)) sy, e)
       | (True, b) \<Rightarrow>
         if sh_permits sh = 0 then
           (Inl (publish_error_new Backpressure ''publisher global capacity is exhausted''),
            on_actor (on_metrics record_backpressure \<circ> on_shared (\<lambda>sh. sh\<lparr>sh_budget := release payload_bytes b\<rparr>)) sy, e)
         else
           (case env_now env e of (now, e1) \<Rightarrow> (case env_now env e1 of (accepted_at, e2) \<Rightarrow>
             let r = \<lparr>rp_request = request, rp_completion = ps_next sy, rp_accepted_at = accepted_at,
                 rp_sequence = 0, rp_bytes = payload_bytes, rp_timeout = pq_deadline request - now, rp_retried = False\<rparr>;
               held_back = on_shared (\<lambda>sh. sh\<lparr>sh_budget := release payload_bytes b\<rparr>) in
             if \<not> ps_running sy then
               (Inl (publish_error_new ClosedPublish ''publisher actor is closed''), on_actor held_back sy, e2)
             else if length (ps_mailbox sy) \<ge> ps_capacity sy then
               (Inl (publish_error_new Backpressure ''publisher command buffer is full''),
                on_actor (on_metrics record_backpressure \<circ> held_back) sy, e2)
             else
               (Inr (ps_next sy),
                on_actor (on_metrics record_publish \<circ> on_shared (\<lambda>sh. sh\<lparr>sh_budget := b, sh_permits := sh_permits sh - 1\<rparr>)) sy
                  \<lparr>ps_mailbox := ps_mailbox sy @ [CmdPublish r], ps_next := Suc (ps_next sy)\<rparr>, e2)))))"

text \<open>The actor's receiver is dropped: so are the commands still queued.\<close>

fun drop_command :: "'c command \<Rightarrow> 'c actor_state \<Rightarrow> 'c actor_state" where
  "drop_command (CmdPublish r) s = on_shared (settle r None) s"
| "drop_command (CmdConnectionEvent ev) s = s"
| "drop_command CmdClose s = s"

definition stop :: "'c publisher_system \<Rightarrow> 'c publisher_system" where
  "stop sy = sy\<lparr>ps_actor := fold drop_command (ps_mailbox sy) (ps_actor sy), ps_mailbox := [], ps_running := False\<rparr>"

text \<open>The publish commands at the head of the mailbox, coalesced into one drain, and the rest.\<close>

fun coalesce :: "'c command list \<Rightarrow> retained list \<times> 'c command list" where
  "coalesce (CmdPublish r # cs) = (case coalesce cs of (rs, rest) \<Rightarrow> (r # rs, rest))"
| "coalesce cs = ([], cs)"

text \<open>One turn of the actor on its mailbox. The window is that of the close, if the turn closes.\<close>

definition receive :: "(bytes \<Rightarrow> bytes) \<Rightarrow> ('c, 'e) publisher_env \<Rightarrow> quiesce_event list \<Rightarrow>
    'c publisher_system \<times> 'e \<Rightarrow> 'c publisher_system \<times> 'e" where
  "receive sha env window sye =
     (case sye of (sy, e) \<Rightarrow>
      (case coalesce (ps_mailbox sy) of (pending, rest) \<Rightarrow>
       (case (if pending = [] then (ps_actor sy, e) else accept_publish sha env pending (ps_actor sy, e)) of
         (s1, e1) \<Rightarrow>
          (case rest of
             [] \<Rightarrow> (sy\<lparr>ps_actor := s1, ps_mailbox := []\<rparr>, e1)
           | CmdPublish r # rest' \<Rightarrow> (case accept_publish sha env [r] (s1, e1) of
               (s2, e2) \<Rightarrow> (sy\<lparr>ps_actor := s2, ps_mailbox := rest'\<rparr>, e2))
           | CmdConnectionEvent ev # rest' \<Rightarrow> (case handle_connection_event sha env ev (s1, e1) of
               (result, s2, e2) \<Rightarrow> (sy\<lparr>ps_actor := s2, ps_mailbox := rest', ps_replies := ps_replies sy @ [result]\<rparr>, e2))
           | CmdClose # rest' \<Rightarrow> (case quiesce_and_close sha env window (s1, e1) of
               (s2, e2) \<Rightarrow> (stop (sy\<lparr>ps_actor := s2, ps_mailbox := rest'\<rparr>), e2))))))"

definition handles_dropped :: "'c publisher_system \<Rightarrow> 'c publisher_system" where
  "handles_dropped sy = stop (on_actor
     (fail_all (publish_error_new ClosedPublish ''all publisher handles were dropped'')) sy)"

definition deadline_tick :: "('c, 'e) publisher_env \<Rightarrow> 'c publisher_system \<times> 'e \<Rightarrow> 'c publisher_system \<times> 'e" where
  "deadline_tick env sye = (case sye of (sy, e) \<Rightarrow>
     if st_phase (ps_actor sy) = PhaseSuspended
     then (case env_now env e of (now, e1) \<Rightarrow> (on_actor (expire_replay now) sy, e1))
     else (sy, e))"

text \<open>
  An event: a handle publishes or sends a command (a send without room waits, so nothing happens
  yet), the last handle goes away, or the actor's \<^verbatim>\<open>select!\<close> takes one of its ready branches.
\<close>

datatype 'c system_event =
    HandlePublish pub_request
  | HandleConnectionEvent "'c publisher_connection_event"
  | HandleClose
  | HandlesDropped
  | Receive "quiesce_event list"
  | DeadlineTick
  | ConfirmationReady nat confirmation_result
  | WriteReady nat wire_write_outcome

definition enqueue :: "'c command \<Rightarrow> 'c publisher_system \<Rightarrow> 'c publisher_system" where
  "enqueue c sy = (if ps_running sy \<and> length (ps_mailbox sy) < ps_capacity sy
     then sy\<lparr>ps_mailbox := ps_mailbox sy @ [c]\<rparr> else sy)"

definition lift_actor :: "('c actor_state \<times> 'e \<Rightarrow> 'c actor_state \<times> 'e) \<Rightarrow> 'c publisher_system \<times> 'e \<Rightarrow> 'c publisher_system \<times> 'e" where
  "lift_actor f sye = (case sye of (sy, e) \<Rightarrow> (case f (ps_actor sy, e) of (s, e1) \<Rightarrow> (sy\<lparr>ps_actor := s\<rparr>, e1)))"

fun system_step :: "(bytes \<Rightarrow> bytes) \<Rightarrow> ('c, 'e) publisher_env \<Rightarrow> 'c system_event \<Rightarrow>
    'c publisher_system \<times> 'e \<Rightarrow> 'c publisher_system \<times> 'e" where
  "system_step sha env (HandlePublish request) (sy, e) = snd (try_publish env request (sy, e))"
| "system_step sha env (HandleConnectionEvent ev) (sy, e) = (enqueue (CmdConnectionEvent ev) sy, e)"
| "system_step sha env HandleClose (sy, e) = (enqueue CmdClose sy, e)"
| "system_step sha env HandlesDropped (sy, e) =
     (if ps_running sy \<and> ps_mailbox sy = [] then (handles_dropped sy, e) else (sy, e))"
| "system_step sha env (Receive window) (sy, e) = (if ps_running sy then receive sha env window (sy, e) else (sy, e))"
| "system_step sha env DeadlineTick (sy, e) = (if ps_running sy then deadline_tick env (sy, e) else (sy, e))"
| "system_step sha env (ConfirmationReady i result) (sy, e) =
     (if ps_running sy then lift_actor (confirmation_ready env i result) (sy, e) else (sy, e))"
| "system_step sha env (WriteReady i result) (sy, e) =
     (if ps_running sy then lift_actor (publish_ready env i result) (sy, e) else (sy, e))"

definition system_start :: "('c, 'e) publisher_env \<Rightarrow> 'c \<Rightarrow> publisher_config \<Rightarrow> delay_strategy option \<Rightarrow> 'e \<Rightarrow> 'c publisher_system \<times> 'e" where
  "system_start env ch cfg strategy e =
     (let cap = max (pc_buffer_capacity cfg) 1;
        s = actor_state_new ch cfg strategy \<lparr>sh_budget = byte_budget_new (pc_max_buffered_bytes cfg), sh_permits = cap,
          sh_metrics = metrics_default, sh_settled = []\<rparr> in
      (case (if enables_confirms cfg then env_enable_confirms env ch e else (Inr (), e)) of
         (res, e1) \<Rightarrow>
           (\<lparr>ps_actor = (case res of Inl err \<Rightarrow> s\<lparr>st_phase := PhaseFailedPermanent, st_permanent_error := Some (transport_publish_error err)\<rparr>
               | Inr _ \<Rightarrow> s),
             ps_mailbox = [], ps_capacity = cap, ps_next = 0, ps_running = True, ps_replies = []\<rparr>, e1)))"

section \<open>Accounting\<close>

text \<open>What the abstract machine keeps: bytes, permits and waiters are exact.\<close>

definition accounts :: "u64 \<Rightarrow> nat \<Rightarrow> nat \<Rightarrow> (nat \<times> u64) multiset \<times> shared \<Rightarrow> bool" where
  "accounts max_bytes cap n a \<longleftrightarrow> (case a of (H, sh) \<Rightarrow>
     budget_ok (sh_budget sh) \<and> bb_max (sh_budget sh) = max_bytes \<and>
     unat (bb_current (sh_budget sh)) = (\<Sum>k\<in>#H. unat (snd k)) \<and>
     sh_permits sh + size H = cap \<and>
     image_mset fst H + mset (map fst (sh_settled sh)) = mset [0..<n])"

lemma settle_key_accounts:
  assumes "accounts m c n (add_mset k H, sh)"
  shows "accounts m c n (H, settle_key k res sh)"
proof -
  obtain t b where k: "k = (t, b)" by (cases k)
  from assms k have "budget_ok (sh_budget sh)" "unat b \<le> unat (bb_current (sh_budget sh))"
    by (simp_all add: accounts_def)
  from pb.released [OF this] assms k show ?thesis by (auto simp: accounts_def release_def)
qed

lemma resolves_accounts: "resolves a b \<Longrightarrow> accounts m c n a \<Longrightarrow> accounts m c n b"
proof (induction rule: resolves.induct)
  case (settled k H sh res)
  then show ?case using settle_key_accounts by blast
next
  case (measured H sh m')
  then show ?case by (simp add: accounts_def)
qed

fun queued :: "'c command list \<Rightarrow> retained list" where
  "queued [] = []"
| "queued (CmdPublish r # cs) = r # queued cs"
| "queued (CmdConnectionEvent ev # cs) = queued cs"
| "queued (CmdClose # cs) = queued cs"

lemma queued_append [simp]: "queued (cs @ ds) = queued cs @ queued ds"
  by (induction cs rule: queued.induct) simp_all

lemma coalesce_queued: "coalesce cs = (rs, rest) \<Longrightarrow> queued cs = rs @ queued rest"
  by (induction cs arbitrary: rs rule: coalesce.induct) (auto split: prod.splits)

definition system_accounts :: "u64 \<Rightarrow> nat \<Rightarrow> 'c publisher_system \<times> 'e \<Rightarrow> bool" where
  "system_accounts m c sye \<longleftrightarrow> (case sye of (sy, _) \<Rightarrow> maps_ok (ps_actor sy) \<and>
     accounts m c (ps_next sy) (outstanding (queued (ps_mailbox sy)) (ps_actor sy)) \<and>
     (\<not> ps_running sy \<longrightarrow> ps_mailbox sy = [] \<and> held (ps_actor sy) = []))"

lemma implements_accounts:
  assumes "implements X s Y s'" "maps_ok s" "accounts m c n (outstanding X s)"
  shows "maps_ok s'" "accounts m c n (outstanding Y s')"
  using assms by (auto simp: implements_def intro: resolves_accounts)

lemma on_shared_held [simp]:
  "held (on_shared f s) = held s" "held (on_metrics g s) = held s" "maps_ok (on_shared f s) = maps_ok s"
  by (simp_all add: held_def maps_ok_def)

lemma drop_commands_implements: "implements (queued cs @ X) s X (fold drop_command cs s)"
proof (induction cs arbitrary: s rule: queued.induct)
  case (2 r cs)
  have "implements (r # queued cs @ X) s (queued cs @ X) (on_shared (settle r None) s)"
    by (simp add: implements_def resolves_on_shared start)
  from implements_trans [OF this 2] show ?case by simp
qed (simp_all add: implements_def start)

lemma held_drop_command [simp]: "held (fold drop_command cs s) = held s"
  by (induction cs arbitrary: s rule: queued.induct) (simp_all add: held_def)

lemma stop_accounts:
  assumes "maps_ok (ps_actor sy)" "accounts m c (ps_next sy) (outstanding (queued (ps_mailbox sy)) (ps_actor sy))"
    and "held (ps_actor sy) = []"
  shows "system_accounts m c (stop sy, e)"
  using implements_accounts [OF drop_commands_implements [of "ps_mailbox sy" "[]"] assms(1), of m c "ps_next sy"] assms(2,3)
  by (simp add: system_accounts_def stop_def)

lemma try_publish_accounts:
  assumes "system_accounts m c (sy, e)"
  shows "system_accounts m c (snd (try_publish env request (sy, e)))"
proof -
  let ?n = "u64_clamp (length (pq_payload request))"
  let ?sh = "st_shared (ps_actor sy)"
  let ?H = "mset (map key (queued (ps_mailbox sy) @ held (ps_actor sy)))"
  have acc: "accounts m c (ps_next sy) (?H, ?sh)" and ok: "maps_ok (ps_actor sy)"
    and fin: "\<not> ps_running sy \<Longrightarrow> ps_mailbox sy = [] \<and> held (ps_actor sy) = []"
    using assms by (simp_all add: system_accounts_def outstanding_def)
  then have bok: "budget_ok (sh_budget ?sh)" by (simp add: accounts_def)
  obtain g b where g: "try_reserve ?n (sh_budget ?sh) = (g, b)" by (cases "try_reserve ?n (sh_budget ?sh)")
  show ?thesis
  proof (cases g)
    case False
    with pb.refused [OF bok] g have "b = sh_budget ?sh" by simp
    with False g acc ok fin show ?thesis
      by (simp add: try_publish_def Let_def system_accounts_def on_actor_def outstanding_def accounts_def)
        (simp add: on_metrics_def on_shared_def)
  next
    case True
    with pb.granted [OF bok] g
    have b: "budget_ok b" "unat (bb_current b) = unat (bb_current (sh_budget ?sh)) + unat ?n" "bb_max b = bb_max (sh_budget ?sh)"
      by (auto simp: word_unat_eq_iff)
    have undo: "budget_ok (release ?n b)" "unat (bb_current (release ?n b)) = unat (bb_current (sh_budget ?sh))"
        "bb_max (release ?n b) = bb_max (sh_budget ?sh)"
      using pb.released [OF b(1), of ?n] b(2,3) by (auto simp: word_unat_eq_iff)
    obtain now e1 where now: "env_now env e = (now, e1)" by (cases "env_now env e")
    obtain acc_at e2 where acc_at: "env_now env e1 = (acc_at, e2)" by (cases "env_now env e1")
    show ?thesis
      using True g acc ok fin b undo now acc_at
      by (auto simp: try_publish_def Let_def system_accounts_def on_actor_def outstanding_def accounts_def key_def)
        (auto simp: on_metrics_def on_shared_def atLeastLessThanSuc)
  qed
qed

lemma receive_accounts:
  assumes "system_accounts m c (sy, e)" "ps_running sy"
  shows "system_accounts m c (receive sha env window (sy, e))"
proof -
  obtain rs rest where co: "coalesce (ps_mailbox sy) = (rs, rest)" by (cases "coalesce (ps_mailbox sy)")
  let ?n = "ps_next sy"
  define m1 where "m1 = (if rs = [] then (ps_actor sy, e) else accept_publish sha env rs (ps_actor sy, e))"
  obtain s1 e1 where m1: "m1 = (s1, e1)" by (cases m1)
  have acc: "accounts m c ?n (outstanding (rs @ queued rest) (ps_actor sy))" and ok: "maps_ok (ps_actor sy)"
    using assms coalesce_queued [OF co] by (simp_all add: system_accounts_def)
  have "implements (rs @ queued rest) (ps_actor sy) (queued rest) s1"
    using m1 accept_publish_implements [of rs "queued rest" "ps_actor sy" sha env e]
    by (cases "rs = []") (simp_all add: m1_def implements_def start)
  from implements_accounts [OF this ok acc] have acc1: "maps_ok s1" "accounts m c ?n (outstanding (queued rest) s1)" .
  note unf = receive_def co m1_def [symmetric] m1
  show ?thesis
  proof (cases rest)
    case Nil
    with acc1 assms(2) show ?thesis by (simp add: unf system_accounts_def)
  next
    case (Cons cmd rest')
    show ?thesis
    proof (cases cmd)
      case (CmdPublish r)
      obtain s2 e2 where a: "accept_publish sha env [r] (s1, e1) = (s2, e2)" by (cases "accept_publish sha env [r] (s1, e1)")
      have "implements (queued rest) s1 (queued rest') s2"
        using accept_publish_implements [of "[r]" "queued rest'" s1 sha env e1] Cons CmdPublish a by simp
      from implements_accounts [OF this acc1] Cons CmdPublish a assms(2) show ?thesis by (simp add: unf system_accounts_def)
    next
      case (CmdConnectionEvent ev)
      obtain res s2 e2 where a: "handle_connection_event sha env ev (s1, e1) = (res, s2, e2)"
        by (cases "handle_connection_event sha env ev (s1, e1)")
      have "implements (queued rest) s1 (queued rest') s2"
        using handle_connection_event_implements [of "queued rest'" s1 sha env ev e1] Cons CmdConnectionEvent a by simp
      from implements_accounts [OF this acc1] Cons CmdConnectionEvent a assms(2) show ?thesis
        by (simp add: unf system_accounts_def)
    next
      case CmdClose
      obtain s2 e2 where a: "quiesce_and_close sha env window (s1, e1) = (s2, e2)"
        by (cases "quiesce_and_close sha env window (s1, e1)")
      have "implements (queued rest) s1 (queued rest') s2"
        using quiesce_and_close_implements [of "queued rest'" s1 sha env window e1] Cons CmdClose a by simp
      from implements_accounts [OF this acc1]
      have "system_accounts m c (stop (sy\<lparr>ps_actor := s2, ps_mailbox := rest'\<rparr>), e2)"
        using quiesce_and_close_empty [of sha env window s1 e1] a by (intro stop_accounts) simp_all
      with Cons CmdClose a show ?thesis by (simp add: unf)
    qed
  qed
qed

lemma lift_actor_accounts:
  assumes "system_accounts m c (sy, e)" "ps_running sy"
    and "\<And>X. implements X (ps_actor sy) X (fst (f (ps_actor sy, e)))"
  shows "system_accounts m c (lift_actor f (sy, e))"
  using implements_accounts [OF assms(3) [of "queued (ps_mailbox sy)"], of m c "ps_next sy"] assms(1,2)
  by (cases "f (ps_actor sy, e)") (simp add: lift_actor_def system_accounts_def)

lemma handles_dropped_accounts:
  assumes "system_accounts m c (sy, e)"
  shows "system_accounts m c (handles_dropped sy, e)"
  unfolding handles_dropped_def
proof (rule stop_accounts)
  let ?s = "fail_all (publish_error_new ClosedPublish ''all publisher handles were dropped'') (ps_actor sy)"
  have "implements X (ps_actor sy) X ?s" for X by (simp add: implements_def resolves_fail_all start)
  from implements_accounts(2) [OF this [of "queued (ps_mailbox sy)"], of m c "ps_next sy"] assms
  show "accounts m c (ps_next (on_actor (fail_all (publish_error_new ClosedPublish ''all publisher handles were dropped'')) sy))
     (outstanding (queued (ps_mailbox (on_actor (fail_all (publish_error_new ClosedPublish ''all publisher handles were dropped'')) sy)))
       (ps_actor (on_actor (fail_all (publish_error_new ClosedPublish ''all publisher handles were dropped'')) sy)))"
    by (simp add: on_actor_def system_accounts_def)
qed (simp_all add: on_actor_def)

lemma enqueue_accounts: "system_accounts m c (sy, e) \<Longrightarrow> \<forall>r. cmd \<noteq> CmdPublish r \<Longrightarrow> system_accounts m c (enqueue cmd sy, e)"
  by (cases cmd) (simp_all add: enqueue_def system_accounts_def)

lemma deadline_tick_accounts:
  assumes "system_accounts m c (sy, e)" "ps_running sy"
  shows "system_accounts m c (deadline_tick env (sy, e))"
proof -
  have "implements X (ps_actor sy) X (expire_replay now (ps_actor sy))" for X now
    by (simp add: implements_def resolves_expire start)
  from implements_accounts [OF this [of "queued (ps_mailbox sy)"], of m c "ps_next sy"] assms show ?thesis
    by (cases "env_now env e") (simp add: deadline_tick_def system_accounts_def on_actor_def)
qed

interpretation publisher_accounting: invariant_machine "system_step sha env" "system_accounts m c"
proof
  fix s :: "'a publisher_system \<times> 'b" and ev
  assume inv: "system_accounts m c s"
  obtain sy e where s: "s = (sy, e)" by (cases s)
  note acc = inv [unfolded s]
  have "system_accounts m c (system_step sha env ev (sy, e))"
  proof (cases ev)
    case (HandlePublish request)
    with try_publish_accounts [OF acc] show ?thesis by simp
  next
    case (Receive window)
    with acc receive_accounts [OF acc] show ?thesis by simp
  next
    case (ConfirmationReady i result)
    with acc lift_actor_accounts [where f = "confirmation_ready env i result", OF acc _ ready_implements(1)] show ?thesis by simp
  next
    case (WriteReady i result)
    with acc lift_actor_accounts [where f = "publish_ready env i result", OF acc _ ready_implements(2)] show ?thesis by simp
  qed (use acc enqueue_accounts [OF acc] handles_dropped_accounts [OF acc] deadline_tick_accounts [OF acc] in simp_all)
  then show "system_accounts m c (system_step sha env ev s)" by (simp add: s)
qed

lemma system_start_accounts:
  assumes "pc_max_buffered_bytes cfg \<noteq> - 1"
  shows "system_accounts (pc_max_buffered_bytes cfg) (max (pc_buffer_capacity cfg) 1) (system_start env ch cfg strategy e)"
proof -
  obtain res e1 where "(if enables_confirms cfg then env_enable_confirms env ch e else (Inr (), e)) = (res, e1)"
    by (cases "if enables_confirms cfg then env_enable_confirms env ch e else (Inr (), e)")
  with assms show ?thesis
    by (cases res)
      (simp_all add: system_start_def Let_def system_accounts_def accounts_def outstanding_def held_def maps_ok_def
        actor_state_new_def byte_budget_new_def budget_ok_def)
qed

section \<open>Properties: accounting\<close>

text \<open>The waiters of the publications still outstanding, in the mailbox or in the actor.\<close>

definition waiting :: "'c publisher_system \<Rightarrow> nat list" where
  "waiting sy = map rp_completion (queued (ps_mailbox sy) @ held (ps_actor sy))"

lemma system_run_accounts:
  assumes "pc_max_buffered_bytes cfg \<noteq> - 1"
  shows "system_accounts (pc_max_buffered_bytes cfg) (max (pc_buffer_capacity cfg) 1)
    (run_events (system_step sha env) evs (system_start env ch cfg strategy e))"
  by (rule publisher_accounting.run_inv [OF system_start_accounts [OF assms]])

lemma waiting_outstanding: "mset (waiting sy) = image_mset fst (fst (outstanding (queued (ps_mailbox sy)) (ps_actor sy)))"
  by (simp add: waiting_def outstanding_def multiset.map_comp key_def comp_def)

text \<open>(C1) No publication is lost or answered twice: after any sequence of publishes, connection
  events, closes, deadlines, write completions and confirmations, the waiters handed out are exactly
  those of the outstanding publications together with the settled ones, each once.\<close>

theorem publisher_exactly_once:
  assumes "pc_max_buffered_bytes cfg \<noteq> - 1"
    and "run_events (system_step sha env) evs (system_start env ch cfg strategy e) = (sy, e')"
  shows "mset (waiting sy) + mset (map fst (sh_settled (st_shared (ps_actor sy)))) = mset [0..<ps_next sy] \<and>
    distinct (waiting sy @ map fst (sh_settled (st_shared (ps_actor sy))))"
proof -
  have "accounts (pc_max_buffered_bytes cfg) (max (pc_buffer_capacity cfg) 1) (ps_next sy)
      (outstanding (queued (ps_mailbox sy)) (ps_actor sy))"
    using system_run_accounts [OF assms(1), of sha env evs ch strategy e] assms(2) by (simp add: system_accounts_def)
  then have eq: "mset (waiting sy) + mset (map fst (sh_settled (st_shared (ps_actor sy)))) = mset [0..<ps_next sy]"
    unfolding waiting_outstanding by (simp add: accounts_def outstanding_def)
  then have "mset (waiting sy @ map fst (sh_settled (st_shared (ps_actor sy)))) = mset [0..<ps_next sy]"
    by (simp only: mset_append)
  then have "distinct (waiting sy @ map fst (sh_settled (st_shared (ps_actor sy)))) = distinct [0..<ps_next sy]"
    by (rule mset_eq_imp_distinct_iff)
  with eq show ?thesis by simp
qed

text \<open>(C4) Capacity and bytes are exact: at every moment the permits in use are the outstanding
  publications and the reserved bytes are their payload bytes, so neither leaks and both limits
  hold.\<close>

theorem publisher_capacity_exact:
  assumes "pc_max_buffered_bytes cfg \<noteq> - 1"
    and "run_events (system_step sha env) evs (system_start env ch cfg strategy e) = (sy, e')"
  shows "sh_permits (st_shared (ps_actor sy)) + length (waiting sy) = max (pc_buffer_capacity cfg) 1 \<and>
    unat (bb_current (sh_budget (st_shared (ps_actor sy)))) =
      sum_list (map (unat \<circ> rp_bytes) (queued (ps_mailbox sy) @ held (ps_actor sy))) \<and>
    bb_current (sh_budget (st_shared (ps_actor sy))) \<le> pc_max_buffered_bytes cfg"
proof -
  let ?H = "mset (map key (queued (ps_mailbox sy) @ held (ps_actor sy)))"
  have "accounts (pc_max_buffered_bytes cfg) (max (pc_buffer_capacity cfg) 1) (ps_next sy) (?H, st_shared (ps_actor sy))"
    using system_run_accounts [OF assms(1), of sha env evs ch strategy e] assms(2)
    by (simp add: system_accounts_def outstanding_def)
  moreover have "(\<Sum>k\<in>#?H. unat (snd k)) = sum_list (map (unat \<circ> rp_bytes) (queued (ps_mailbox sy) @ held (ps_actor sy)))"
    by (simp add: key_def comp_def image_mset.compositionality flip: sum_mset_sum_list mset_map)
  ultimately show ?thesis by (auto simp: accounts_def budget_ok_def waiting_def)
qed

text \<open>(C5) Shutdown answers everyone: once the actor stopped, by a close or because every handle was
  dropped, no publication is outstanding, all permits and bytes are back, and every waiter ever
  handed out has been settled exactly once.\<close>

theorem publisher_shutdown_settles_all:
  assumes "pc_max_buffered_bytes cfg \<noteq> - 1"
    and "run_events (system_step sha env) evs (system_start env ch cfg strategy e) = (sy, e')"
    and "\<not> ps_running sy"
  shows "waiting sy = [] \<and> sh_permits (st_shared (ps_actor sy)) = max (pc_buffer_capacity cfg) 1 \<and>
    bb_current (sh_budget (st_shared (ps_actor sy))) = 0 \<and>
    mset (map fst (sh_settled (st_shared (ps_actor sy)))) = mset [0..<ps_next sy]"
proof -
  have "system_accounts (pc_max_buffered_bytes cfg) (max (pc_buffer_capacity cfg) 1) (sy, e')"
    using system_run_accounts [OF assms(1), of sha env evs ch strategy e] assms(2) by simp
  with assms(3) show ?thesis
    by (auto simp: system_accounts_def waiting_def accounts_def outstanding_def word_unat_eq_iff)
qed

section \<open>A run\<close>

text \<open>A broker that accepts everything at once and a clock that ticks at every read.\<close>

definition demo_env :: "(unit, nat) publisher_env" where
  "demo_env = \<lparr>env_now = (\<lambda>e. (e, Suc e)),
     env_topology = (\<lambda>_. \<lparr>declare_exchange = (\<lambda>_ e. (Inr (), e)), verify_exchange = (\<lambda>_ e. (Inr (), e)),
       declare_queue = (\<lambda>_ e. (Inr (), e)), verify_queue = (\<lambda>_ e. (Inr (), e)), bind_queue = (\<lambda>_ e. (Inr (), e)),
       queue_size = (\<lambda>_ e. (Inr 0, e)), delete_queue = (\<lambda>_ e. (Inr (), e))\<rparr>),
     env_enable_confirms = (\<lambda>_ e. (Inr (), e)),
     env_publish_poll = (\<lambda>_ _ _ e. (Some (WriteCompleted (Inr ())), e)), env_close = (\<lambda>_ e. e)\<rparr>"

definition demo_publisher_config :: publisher_config where
  "demo_publisher_config = \<lparr>pc_buffer_capacity = 2, pc_confirm_timeout = 50, pc_max_buffered_bytes = 3, pc_safety = Safe\<rparr>"

definition demo_publication :: pub_request where
  "demo_publication = \<lparr>pq_destination = demo_dest, pq_payload = [1, 2], pq_properties = message_properties_new ''m1'', pq_deadline = 40\<rparr>"

definition demo_events :: "unit system_event list" where
  "demo_events = [HandlePublish demo_publication, HandlePublish demo_publication, Receive [],
     ConfirmationReady 0 (ConfCompleted (Inr (Ack None))), HandlePublish demo_publication, HandleClose]"

definition demo_run :: "unit system_event list \<Rightarrow> unit publisher_system \<times> nat" where
  "demo_run evs = run_events (system_step (\<lambda>x. x) demo_env) evs (system_start demo_env () demo_publisher_config None 0)"

lemma demo_waiting: "waiting (fst (demo_run demo_events)) = [1] \<and>
    sh_settled (st_shared (ps_actor (fst (demo_run demo_events)))) = [(0, Some (Inr (Confirmed ''m1'')))]"
  by code_simp

lemma demo_stopped: "\<not> ps_running (fst (demo_run (demo_events @ [Receive []]))) \<and>
    ps_next (fst (demo_run (demo_events @ [Receive []]))) = 2"
  by code_simp

theorem publisher_exactly_once_witness:
  "waiting (fst (demo_run demo_events)) = [1] \<and> mset [1] + mset (map fst (sh_settled (st_shared (ps_actor (fst (demo_run demo_events)))))) =
     mset [0..<ps_next (fst (demo_run demo_events))]"
proof -
  have "pc_max_buffered_bytes demo_publisher_config \<noteq> - 1" by (simp add: demo_publisher_config_def)
  from publisher_exactly_once [OF this, of "\<lambda>x. x" demo_env demo_events "()" None 0 "fst (demo_run demo_events)" "snd (demo_run demo_events)"]
  show ?thesis using demo_waiting by (simp add: demo_run_def)
qed

theorem publisher_capacity_exact_witness:
  "sh_permits (st_shared (ps_actor (fst (demo_run demo_events)))) + length [1 :: nat] = 2"
proof -
  have "pc_max_buffered_bytes demo_publisher_config \<noteq> - 1" by (simp add: demo_publisher_config_def)
  from publisher_capacity_exact [OF this, of "\<lambda>x. x" demo_env demo_events "()" None 0 "fst (demo_run demo_events)" "snd (demo_run demo_events)"]
  show ?thesis using demo_waiting by (simp add: demo_run_def) (simp add: demo_publisher_config_def)
qed

theorem publisher_shutdown_settles_all_witness:
  "mset (map fst (sh_settled (st_shared (ps_actor (fst (demo_run (demo_events @ [Receive []]))))))) = mset [0, 1]"
proof -
  have "pc_max_buffered_bytes demo_publisher_config \<noteq> - 1" by (simp add: demo_publisher_config_def)
  from publisher_shutdown_settles_all [OF this, of "\<lambda>x. x" demo_env "demo_events @ [Receive []]" "()" None 0
      "fst (demo_run (demo_events @ [Receive []]))" "snd (demo_run (demo_events @ [Receive []]))"]
  show ?thesis using demo_stopped by (simp add: demo_run_def) (simp add: numeral_2_eq_2 atLeastLessThanSuc)
qed

end
