(* ===== verification/Publisher_Recovery.thy ===== *)
theory Publisher_Recovery
  imports Publisher_System
begin

text \<open>
  The structural invariant of the publisher actor and what recovery does with publications: which
  futures exist for which publications, how attempts are numbered, how a suspension orders the
  replay queue, how often a deadline is re-armed and which connection events are refused. The
  invariant holds as long as the 64-bit attempt counter has not saturated.
\<close>

section \<open>The invariant\<close>

definition sequences :: "retained list \<Rightarrow> 'c actor_state \<Rightarrow> u64 multiset" where
  "sequences X s = image_mset rp_sequence (mset (X @ held s))"

text \<open>Attempt numbers are unique and bounded by the counter; \<open>0\<close> means never attempted.\<close>

definition seq_ok :: "u64 \<Rightarrow> u64 multiset \<Rightarrow> bool" where
  "seq_ok n S \<longleftrightarrow> (\<forall>q. q \<noteq> 0 \<longrightarrow> count S q \<le> 1) \<and> (\<forall>q\<in>#S. q \<le> n)"

definition keyed :: "'c actor_state \<Rightarrow> bool" where
  "keyed s \<longleftrightarrow> (\<forall>p\<in>set (st_publishing s). rp_sequence (snd p) = fst p \<and> fst p \<noteq> 0) \<and>
     (\<forall>p\<in>set (st_ledger s). rp_sequence (if_retained (snd p)) = fst p \<and> fst p \<noteq> 0)"

text \<open>Every publication on the wire has its write future, every unconfirmed one its confirmation
  future of the same generation; \<open>ws\<close> and \<open>cs\<close> are futures just taken out of their sets.\<close>

definition writes_ok :: "u64 list \<Rightarrow> 'c actor_state \<Rightarrow> bool" where
  "writes_ok ws s \<longleftrightarrow> mset (map fst (st_publishing s)) = mset ws + mset (map fst (st_publish_in_flight s))"

definition confs_ok :: "(u64 \<times> u64) list \<Rightarrow> 'c actor_state \<Rightarrow> bool" where
  "confs_ok cs s \<longleftrightarrow> mset (map (\<lambda>(k, i). (k, if_generation i)) (st_ledger s)) =
     mset cs + mset (map (\<lambda>(k, g, _). (k, g)) (st_confirmations s))"

definition phase_ok :: "'c actor_state \<Rightarrow> bool" where
  "phase_ok s \<longleftrightarrow> (case st_phase s of
     PhaseReady \<Rightarrow> st_channel s \<noteq> None \<and> st_replay s = []
   | PhaseSuspended \<Rightarrow> st_channel s = None \<and> st_publishing s = [] \<and> st_ledger s = []
   | PhaseFailedPermanent \<Rightarrow> held s = [] \<and> st_permanent_error s \<noteq> None)"

definition actor_inv_upto :: "u64 list \<Rightarrow> (u64 \<times> u64) list \<Rightarrow> retained list \<Rightarrow> 'c actor_state \<Rightarrow> bool" where
  "actor_inv_upto ws cs X s \<longleftrightarrow> maps_ok s \<and> keyed s \<and> seq_ok (st_sequence s) (sequences X s) \<and>
     writes_ok ws s \<and> confs_ok cs s \<and> phase_ok s"

definition actor_inv :: "retained list \<Rightarrow> 'c actor_state \<Rightarrow> bool" where
  "actor_inv = actor_inv_upto [] []"

text \<open>As long as the counter is not saturated.\<close>

definition good :: "retained list \<Rightarrow> 'c actor_state \<Rightarrow> bool" where
  "good X s \<longleftrightarrow> st_sequence s \<noteq> - 1 \<longrightarrow> actor_inv X s"

section \<open>Numbering\<close>

lemma seq_ok_mono: "seq_ok n S \<Longrightarrow> T \<subseteq># S \<Longrightarrow> n \<le> n' \<Longrightarrow> seq_ok n' T"
  unfolding seq_ok_def by (meson mset_subset_eqD mset_subset_eq_count order_trans)

lemma seq_ok_zeros: "seq_ok n S \<Longrightarrow> \<forall>q\<in>#Z. q = 0 \<Longrightarrow> seq_ok n (Z + S)"
  by (auto simp: seq_ok_def) (metis add_0 not_in_iff)

lemma seq_ok_fresh:
  assumes "seq_ok n S" "n \<noteq> - 1"
  shows "seq_ok (n + 1) (add_mset (n + 1) S)"
proof -
  have "unat (n + 1) = unat n + 1" using assms(2) unfolding max_word_iff by (simp add: unat_word_ariths)
  then have lt: "n < n + 1" by (simp add: word_less_nat_alt)
  have "count S (n + 1) = 0"
    using assms(1) lt by (auto simp: seq_ok_def count_eq_zero_iff not_le dest: bspec)
  with assms(1) lt show ?thesis
    unfolding seq_ok_def by (auto intro: order_trans less_imp_le)
qed

lemma sequences_take_publishing:
  assumes "maps_ok s" "map_of (st_publishing s) k = Some r"
  shows "sequences X s = add_mset (rp_sequence r) (sequences X (s\<lparr>st_publishing := hm_remove k (st_publishing s)\<rparr>))"
  using mset_map_hm_remove [of "st_publishing s" k r rp_sequence] assms
  by (simp add: sequences_def held_def maps_ok_def multiset.map_comp comp_def)

lemma sequences_take_ledger:
  assumes "maps_ok s" "map_of (st_ledger s) k = Some i"
  shows "sequences X s = add_mset (rp_sequence (if_retained i)) (sequences X (s\<lparr>st_ledger := hm_remove k (st_ledger s)\<rparr>))"
  using mset_map_hm_remove [of "st_ledger s" k i "rp_sequence \<circ> if_retained"] assms
  by (simp add: sequences_def held_def maps_ok_def multiset.map_comp comp_def)

lemma sequences_core: "same_core s s' \<Longrightarrow> sequences X s' = sequences X s"
  by (simp add: sequences_def held_def same_coreD)

lemma invariant_core:
  assumes "same_core s s'"
  shows "keyed s' = keyed s" "writes_ok ws s' = writes_ok ws s" "confs_ok cs s' = confs_ok cs s"
    "phase_ok s' = phase_ok s" "sequences X s' = sequences X s" "maps_ok s' = maps_ok s" "st_sequence s' = st_sequence s"
    "actor_inv_upto ws cs X s' = actor_inv_upto ws cs X s"
proof -
  show 1: "keyed s' = keyed s" "writes_ok ws s' = writes_ok ws s" "confs_ok cs s' = confs_ok cs s"
    "phase_ok s' = phase_ok s" "sequences X s' = sequences X s" "maps_ok s' = maps_ok s" "st_sequence s' = st_sequence s"
    using assms
    by (simp_all add: keyed_def writes_ok_def confs_ok_def phase_ok_def sequences_core maps_ok_core same_coreD held_def
        cong: phase.case_cong)
  show "actor_inv_upto ws cs X s' = actor_inv_upto ws cs X s" by (simp add: actor_inv_upto_def 1)
qed

lemmas core_simps [simp] =
  invariant_core [OF same_core_intros(2)] invariant_core [OF same_core_intros(3)]
  invariant_core [OF same_core_intros(4)] invariant_core [OF same_core_intros(5)]
  invariant_core [OF same_core_intros(6)] invariant_core [OF same_core_all]

lemma keyed_not_both:
  assumes "maps_ok s" "keyed s" "seq_ok n (sequences X s)" "map_of (st_publishing s) k = Some r"
  shows "map_of (st_ledger s) k = None" and "rp_sequence r = k" "k \<noteq> 0"
proof -
  have r: "rp_sequence r = k \<and> k \<noteq> 0"
    using assms(2) map_of_SomeD [OF assms(4)] unfolding keyed_def by fastforce
  show "rp_sequence r = k" "k \<noteq> 0" using r by simp_all
  show "map_of (st_ledger s) k = None"
  proof (rule ccontr)
    assume "map_of (st_ledger s) k \<noteq> None"
    then obtain i where i: "map_of (st_ledger s) k = Some i" by blast
    have "rp_sequence (if_retained i) = k"
      using assms(2) map_of_SomeD [OF i] unfolding keyed_def by fastforce
    then have "k \<in># sequences X (s\<lparr>st_publishing := hm_remove k (st_publishing s)\<rparr>)"
      using map_of_SomeD [OF i] by (force simp: sequences_def held_def)
    then have "count (sequences X s) k \<ge> 2"
      using sequences_take_publishing [OF assms(1,4), of X] r by (simp flip: count_greater_zero_iff)
    with assms(3) r show False unfolding seq_ok_def by fastforce
  qed
qed

lemma mset_fst_hm_remove:
  assumes "distinct (map fst m)" "map_of m k = Some v"
  shows "mset (map f m) = add_mset (f (k, v)) (mset (map f (hm_remove k m)))"
  using arg_cong [OF hm_remove_mset [OF assms], of "image_mset f"] by (simp flip: mset_map)

lemma keyed_hm_remove [simp]:
  "keyed s \<Longrightarrow> keyed (s\<lparr>st_publishing := hm_remove k (st_publishing s)\<rparr>)"
  "keyed s \<Longrightarrow> keyed (s\<lparr>st_ledger := hm_remove k (st_ledger s)\<rparr>)"
  by (simp_all add: keyed_def hm_remove_def)

text \<open>A publication whose write future is out of its set leaves \<open>publishing\<close>.\<close>

lemma inv_take_publishing:
  assumes "actor_inv_upto [k] cs X s" "map_of (st_publishing s) k = Some r" "st_phase s = PhaseReady"
  shows "actor_inv_upto [] cs (r # X) (s\<lparr>st_publishing := hm_remove k (st_publishing s)\<rparr>)"
proof -
  let ?s = "s\<lparr>st_publishing := hm_remove k (st_publishing s)\<rparr>"
  have ok: "maps_ok s" and ph: "phase_ok s" using assms(1) by (simp_all add: actor_inv_upto_def)
  have "sequences (r # X) ?s = sequences X s"
    using sequences_take_publishing [OF ok assms(2), of X] by (simp add: sequences_def held_def)
  moreover have "writes_ok [] ?s"
    using assms(1) mset_fst_hm_remove [of "st_publishing s" k r fst] ok assms(2)
    by (simp add: actor_inv_upto_def writes_ok_def maps_ok_def)
  moreover have "confs_ok cs ?s = confs_ok cs s" by (simp add: confs_ok_def)
  moreover have "phase_ok ?s" using ph assms(3) by (simp add: phase_ok_def)
  ultimately show ?thesis using assms(1) by (simp add: actor_inv_upto_def)
qed

lemma inv_take_ledger:
  assumes "actor_inv_upto ws [(k, g)] X s" "map_of (st_ledger s) k = Some i" "st_phase s = PhaseReady"
  shows "actor_inv_upto ws [] (if_retained i # X) (s\<lparr>st_ledger := hm_remove k (st_ledger s)\<rparr>)" "if_generation i = g"
proof -
  let ?s = "s\<lparr>st_ledger := hm_remove k (st_ledger s)\<rparr>"
  have ok: "maps_ok s" and ph: "phase_ok s" using assms(1) by (simp_all add: actor_inv_upto_def)
  let ?f = "\<lambda>(k, i). (k, if_generation i)"
  have rem: "mset (map ?f (st_ledger s)) = add_mset (k, if_generation i) (mset (map ?f (hm_remove k (st_ledger s))))"
    using mset_fst_hm_remove [of "st_ledger s" k i ?f] ok assms(2) by (simp add: maps_ok_def)
  have cf: "mset (map ?f (st_ledger s)) = add_mset (k, g) (mset (map (\<lambda>(k, g, _). (k, g)) (st_confirmations s)))"
    using assms(1) by (simp add: actor_inv_upto_def confs_ok_def)
  have "(k, g) \<in># mset (map ?f (st_ledger s))" unfolding cf by simp
  then obtain j where "(k, j) \<in> set (st_ledger s)" "if_generation j = g" by auto
  moreover from this have "j = i" using ok assms(2) by (simp add: maps_ok_def)
  ultimately show g: "if_generation i = g" by simp
  have "sequences (if_retained i # X) ?s = sequences X s"
    using sequences_take_ledger [OF ok assms(2), of X] by (simp add: sequences_def held_def)
  moreover have "confs_ok [] ?s" using rem cf g by (simp add: confs_ok_def)
  moreover have "writes_ok ws ?s = writes_ok ws s" by (simp add: writes_ok_def)
  moreover have "phase_ok ?s" using ph assms(3) by (simp add: phase_ok_def)
  ultimately show "actor_inv_upto ws [] (if_retained i # X) ?s" using assms(1) by (simp add: actor_inv_upto_def)
qed

lemma inv_drop: "actor_inv_upto ws cs (r # X) s \<Longrightarrow> actor_inv_upto ws cs X s"
  using seq_ok_mono [of "st_sequence s" "sequences (r # X) s" "sequences X s" "st_sequence s"]
  by (simp add: actor_inv_upto_def sequences_def)

lemma sequences_suspend [simp]: "sequences X (suspend g s) = sequences X s"
  by (simp add: sequences_def held_def suspend_def multiset.map_comp comp_def)

lemma inv_suspend: "seq_ok (st_sequence s) (sequences X s) \<Longrightarrow> actor_inv_upto [] [] X (suspend g s)"
  by (simp add: actor_inv_upto_def)
    (simp add: suspend_def keyed_def writes_ok_def confs_ok_def phase_ok_def)

lemma inv_suspend_replay:
  "actor_inv_upto ws cs (r # X) s \<Longrightarrow> actor_inv_upto [] [] X (suspend g (s\<lparr>st_replay := st_replay s @ [r]\<rparr>))"
  by (rule inv_suspend) (simp add: actor_inv_upto_def sequences_def held_def)

lemma suspend_forgets: "suspend g (s\<lparr>st_publish_in_flight := p\<rparr>) = suspend g s"
  by (simp add: suspend_def)

lemma handle_publish_completion_inv:
  assumes "actor_inv_upto [k] [] X s" "st_phase s = PhaseReady"
  shows "actor_inv_upto [] [] X (fst (handle_publish_completion env k res (s, e))) \<and>
    st_sequence (fst (handle_publish_completion env k res (s, e))) = st_sequence s"
proof -
  have "k \<in># mset (map fst (st_publishing s))"
    using assms(1) by (simp add: actor_inv_upto_def writes_ok_def)
  then obtain r where r: "map_of (st_publishing s) k = Some r"
    by (metis in_multiset_in_set map_of_eq_None_iff not_Some_eq set_map)
  let ?s = "s\<lparr>st_publishing := hm_remove k (st_publishing s)\<rparr>"
  note t = inv_take_publishing [OF assms(1) r assms(2)]
  have nl: "map_of (st_ledger s) k = None" and rk: "rp_sequence r = k" "k \<noteq> 0"
    using keyed_not_both [of s "st_sequence s" X k r] assms(1) r by (simp_all add: actor_inv_upto_def)
  have confirm: "actor_inv_upto [] [] X ((ledger_insert k i ?s)
      \<lparr>st_confirmations := st_confirmations (ledger_insert k i ?s) @ [(k, if_generation i, d)]\<rparr>)"
    if "if_retained i = r" for i d
    using t nl rk that assms(2)
    by (simp add: actor_inv_upto_def ledger_insert_def drop_displaced_def)
      (auto simp: keyed_def writes_ok_def confs_ok_def phase_ok_def sequences_def held_def maps_ok_def hm_insert_def hm_remove_None
        map_of_eq_None_iff)
  have susp: "actor_inv_upto [] [] X (suspend g (?s\<lparr>st_replay := st_replay ?s @ [r], st_publish_in_flight := []\<rparr>))" for g
    using inv_suspend_replay [OF t] by (simp add: suspend_forgets)
  show ?thesis
    using r confirm [of "\<lparr>if_retained = r, if_generation = st_generation s\<rparr>"] susp inv_drop [OF t]
    by (auto simp: handle_publish_completion_def Let_def ledger_insert_def suspend_def
        split: wire_write_outcome.splits sum.splits prod.splits)
qed

lemma resolve_confirmation_inv:
  assumes "actor_inv_upto [] [(k, g)] X s" "st_phase s = PhaseReady"
  shows "actor_inv_upto [] [] X (fst (resolve_confirmation env k g res (s, e))) \<and>
    st_sequence (fst (resolve_confirmation env k g res (s, e))) = st_sequence s"
proof -
  have "(k, g) \<in># mset (map (\<lambda>(k, i). (k, if_generation i)) (st_ledger s))"
    using assms(1) by (simp add: actor_inv_upto_def confs_ok_def)
  then have "k \<in> fst ` set (st_ledger s)" by force
  then obtain i where i: "map_of (st_ledger s) k = Some i" by (metis map_of_eq_None_iff not_Some_eq)
  note t = inv_take_ledger [OF assms(1) i assms(2)]
  let ?s = "s\<lparr>st_ledger := hm_remove k (st_ledger s)\<rparr>"
  have susp: "actor_inv_upto [] [] X (suspend g (?s\<lparr>st_replay := st_replay ?s @ [if_retained i]\<rparr>))"
    by (rule inv_suspend_replay [OF t(1)])
  show ?thesis
    using i t(2) susp inv_drop [OF t(1)]
    by (auto simp: resolve_confirmation_def Let_def suspend_def
        split: confirmation_result.splits sum.splits prod.splits publish_confirmation.splits option.splits)
qed

lemma attempt_write_good:
  assumes w: "attempt_write sha env ch now r (s, e) = (b, s', e')" and g: "good (r # X) s" and ph: "st_phase s = PhaseReady"
  shows "good X s'" and "\<not> b \<Longrightarrow> st_phase s' = PhaseReady"
    and "b \<Longrightarrow> st_phase s' = PhaseSuspended"
proof -
  let ?k = "sat_add (st_sequence s) 1"
  let ?r = "r\<lparr>rp_sequence := ?k\<rparr>"
  let ?s = "s\<lparr>st_sequence := ?k\<rparr>"
  let ?t = "publishing_insert ?k ?r ?s"
  have t: "st_sequence ?t = ?k" "st_phase ?t = PhaseReady" using ph by (simp_all add: publishing_insert_def)
  have pre: "actor_inv_upto [?k] [] X ?t \<and> actor_inv_upto [] [] X ?s" if "?k \<noteq> - 1"
  proof -
    have ne: "st_sequence s \<noteq> - 1" using that by (cases "st_sequence s = - 1") (simp_all add: sat_add_def unat_max_word)
    have k: "?k = st_sequence s + 1"
      using ne unfolding max_word_iff by (simp add: sat_add_def)
    from g ne have inv: "actor_inv_upto [] [] (r # X) s" by (simp add: good_def actor_inv_def)
    have fresh: "seq_ok ?k (add_mset ?k (sequences X s))"
      using seq_ok_fresh [OF _ ne, of "sequences X s"] inv_drop [OF inv] k by (simp add: actor_inv_upto_def)
    have le: "st_sequence s \<le> ?k" using unat_bound [of "st_sequence s"] by (simp add: word_le_nat_alt unat_sat_add min_def)
    have k0: "?k \<noteq> 0" using k ne by (metis add.right_inverse add_left_cancel add.commute)
    have "?k \<notin># sequences X s"
      using fresh k0 unfolding seq_ok_def by (auto simp: not_in_iff dest!: spec [of _ ?k])
    moreover have "?k \<in># sequences X s" if "map_of (st_publishing s) ?k = Some q" for q
    proof -
      have "(?k, q) \<in> set (st_publishing s)" by (rule map_of_SomeD [OF that])
      moreover from this have "rp_sequence q = ?k" using inv by (auto simp: actor_inv_upto_def keyed_def)
      ultimately show ?thesis by (force simp: sequences_def held_def)
    qed
    ultimately have none: "map_of (st_publishing s) ?k = None" by (cases "map_of (st_publishing s) ?k") auto
    have "actor_inv_upto [] [] X ?s"
      using inv_drop [OF inv] seq_ok_mono [OF _ _ le, of "sequences X s" "sequences X s"]
      by (simp add: actor_inv_upto_def) (simp add: keyed_def writes_ok_def confs_ok_def phase_ok_def sequences_def held_def cong: phase.case_cong)
    moreover from this have "actor_inv_upto [?k] [] X ?t"
      using fresh none k0 ph
      by (simp add: actor_inv_upto_def publishing_insert_def drop_displaced_def)
        (auto simp: keyed_def writes_ok_def confs_ok_def phase_ok_def sequences_def held_def maps_ok_def hm_insert_def hm_remove_None map_of_eq_None_iff)
    ultimately show ?thesis by simp
  qed
  have "good X s' \<and> (\<not> b \<longrightarrow> st_phase s' = PhaseReady) \<and> (b \<longrightarrow> st_phase s' = PhaseSuspended)"
  proof (cases "route_transport_request sha (rp_request ?r) (st_delay_strategy ?s) (mandatory_flag (st_config ?s))")
    case (Inl err)
    with w pre ph show ?thesis by (auto simp: attempt_write_def Let_def good_def actor_inv_def)
  next
    case (Inr req)
    let ?d = "min (pq_deadline (rp_request ?r)) (now + pc_confirm_timeout (st_config ?s))"
    obtain o1 e1 where poll: "env_publish_poll env ch req ?d e = (o1, e1)"
      by (cases "env_publish_poll env ch req ?d e")
    show ?thesis
    proof (cases o1)
      case None
      have "actor_inv_upto [] [] X (?t\<lparr>st_publish_in_flight := st_publish_in_flight ?t @ [(?k, ?d)]\<rparr>)" if "?k \<noteq> - 1"
        using pre [OF that] by (simp add: actor_inv_upto_def)
          (simp add: keyed_def writes_ok_def confs_ok_def phase_ok_def sequences_def held_def cong: phase.case_cong)
      with w Inr poll None t show ?thesis
        by (auto simp: attempt_write_def Let_def good_def actor_inv_def)
    next
      case (Some out)
      obtain s3 e3 where h: "handle_publish_completion env ?k out (?t, e1) = (s3, e3)"
        by (cases "handle_publish_completion env ?k out (?t, e1)")
      have inv3: "actor_inv_upto [] [] X s3 \<and> st_sequence s3 = ?k" if "?k \<noteq> - 1"
        using handle_publish_completion_inv [OF conjunct1 [OF pre [OF that]] t(2), of env out e1] h t(1) by simp
      from w Inr poll Some h have r: "s' = s3" "b = (st_phase s3 = PhaseSuspended)"
        by (auto simp: attempt_write_def Let_def)
      have "st_phase s3 = PhaseReady \<or> st_phase s3 = PhaseSuspended" "st_sequence s3 = ?k"
        using h t by (auto simp: handle_publish_completion_def Let_def ledger_insert_def suspend_def
            split: option.splits wire_write_outcome.splits sum.splits prod.splits if_splits)
      with r inv3 show ?thesis by (auto simp: good_def actor_inv_def)
    qed
  qed
  then show "good X s'" "\<not> b \<Longrightarrow> st_phase s' = PhaseReady" "b \<Longrightarrow> st_phase s' = PhaseSuspended"
    by simp_all
qed

lemma inv_declared [simp]: "actor_inv_upto ws cs X (s\<lparr>st_declared := d\<rparr>) = actor_inv_upto ws cs X s"
  by (simp add: actor_inv_upto_def)
    (simp add: keyed_def writes_ok_def confs_ok_def phase_ok_def sequences_def held_def cong: phase.case_cong)

lemma good_core: "same_core s s' \<Longrightarrow> good X s' = good X s"
  by (simp add: good_def actor_inv_def invariant_core)

lemma good_drop: "good (Y @ X) s \<Longrightarrow> good X s"
  by (induction Y) (auto simp: good_def actor_inv_def dest: inv_drop)

lemma good_park:
  assumes "good (rs @ X) s" "st_phase s = PhaseSuspended"
  shows "good X (s\<lparr>st_replay := st_replay s @ rs\<rparr>)"
proof -
  have "sequences X (s\<lparr>st_replay := st_replay s @ rs\<rparr>) = sequences (rs @ X) s" by (simp add: sequences_def held_def)
  with assms show ?thesis
    by (simp add: good_def actor_inv_def actor_inv_upto_def)
      (auto simp: keyed_def writes_ok_def confs_ok_def phase_ok_def)
qed

lemma publish_queue_loop_good:
  assumes "good (pending @ X) s" "st_phase s = PhaseReady"
  shows "good X (fst (publish_queue_loop sha env now pending (s, e)))"
  using assms
proof (induction pending arbitrary: now s e)
  case (Cons r pending)
  show ?case
  proof (cases "pq_deadline (rp_request r) \<le> now")
    case True
    have "good (pending @ X) (fail_deadline_expired r s)"
      using good_drop [of "[r]" "pending @ X" s] Cons.prems(1) by (simp add: good_core [OF same_core_intros(6)])
    from Cons.IH [OF this] True Cons.prems(2) show ?thesis by simp
  next
    case live: False
    show ?thesis
    proof (cases "st_channel s")
      case None
      with Cons.prems have "st_sequence s = - 1"
        by (auto simp: good_def actor_inv_def actor_inv_upto_def phase_ok_def)
      with live None show ?thesis by (simp add: good_def)
    next
      case (Some ch)
      obtain t s1 e1 where topo: "actor_ensure_delay_topology sha env ch r (s, e) = (t, s1, e1)"
        by (cases "actor_ensure_delay_topology sha env ch r (s, e)")
      from actor_ensure_delay_topology_state [OF topo] obtain d where s1: "s1 = s\<lparr>st_declared := d\<rparr>" by blast
      have g1: "good (r # pending @ X) s1" "st_phase s1 = PhaseReady"
        using Cons.prems s1 by (simp_all add: good_def actor_inv_def)
      obtain now1 e2 where now: "env_now env e1 = (now1, e2)" by (cases "env_now env e1")
      show ?thesis
      proof (cases t)
        case (TopologyFailed err)
        have "good (pending @ X) (complete_error r err s1)"
          using good_drop [of "[r]" "pending @ X" s1] g1(1) by (simp add: good_core [OF same_core_intros(4)])
        from Cons.IH [OF this] g1(2) live Some topo now TopologyFailed show ?thesis by simp
      next
        case TopologyReady
        obtain b s2 e3 where w: "attempt_write sha env ch now1 r (s1, e2) = (b, s2, e3)"
          by (cases "attempt_write sha env ch now1 r (s1, e2)")
        note a = attempt_write_good [OF w g1]
        show ?thesis
        proof (cases b)
          case True
          with live Some topo now TopologyReady w good_park [OF a(1) a(3)] show ?thesis by simp
        next
          case False
          with live Some topo now TopologyReady w Cons.IH [OF a(1) a(2)] show ?thesis by simp
        qed
      qed
    qed
  qed
qed simp

lemma publish_queue_good:
  "good (pending @ X) s \<Longrightarrow> st_phase s = PhaseReady \<Longrightarrow> good X (fst (publish_queue sha env pending (s, e)))"
  by (auto simp: publish_queue_def split: prod.splits intro: publish_queue_loop_good)

lemma accept_publish_good:
  assumes "good (pending @ X) s"
  shows "good X (fst (accept_publish sha env pending (s, e)))"
  using assms good_drop [OF assms] good_park [OF assms] publish_queue_good [OF assms]
  by (cases "st_phase s") (simp_all add: accept_publish_def good_core [OF same_core_all])

lemma expire_loop_sequences:
  "image_mset rp_sequence (mset (st_replay (expire_loop now rs kept s))) \<subseteq># image_mset rp_sequence (mset (kept @ rs))"
proof (induction now rs kept s rule: expire_loop.induct)
  case (2 now r rs kept s)
  then show ?case by (auto intro: subset_mset.order_trans)
qed simp

lemma good_flush_start:
  assumes "good X s" "g \<ge> st_generation s"
  shows "good (st_replay (expire_replay now (s\<lparr>st_generation := g, st_channel := Some ch, st_phase := PhaseReady, st_permanent_error := None\<rparr>)) @ X)
    (expire_replay now (s\<lparr>st_generation := g, st_channel := Some ch, st_phase := PhaseReady, st_permanent_error := None\<rparr>)\<lparr>st_replay := []\<rparr>)"
proof -
  let ?s = "s\<lparr>st_generation := g, st_channel := Some ch, st_phase := PhaseReady, st_permanent_error := None\<rparr>"
  let ?t = "expire_replay now ?s"
  have "sequences (st_replay ?t @ X) (?t\<lparr>st_replay := []\<rparr>) \<subseteq># sequences X s"
    using expire_loop_sequences [of now "st_replay ?s" "[]" ?s]
    by (simp add: sequences_def held_def expire_replay_def)
  then show ?thesis
    using assms(1) seq_ok_mono [of "st_sequence s" "sequences X s" _ "st_sequence s"]
    by (simp add: good_def actor_inv_def actor_inv_upto_def expire_replay_def)
      (simp add: keyed_def writes_ok_def confs_ok_def phase_ok_def maps_ok_def)
qed

lemma good_fail_all:
  "good X (fail_all err s\<lparr>st_phase := PhaseFailedPermanent, st_channel := None, st_permanent_error := Some perr\<rparr>)"
  if "good X s"
proof -
  have "sequences X (fail_all err s\<lparr>st_phase := PhaseFailedPermanent, st_channel := None, st_permanent_error := Some perr\<rparr>) \<subseteq># sequences X s"
    by (simp add: sequences_def held_def)
  with that seq_ok_mono [of "st_sequence s" "sequences X s" _ "st_sequence s"] show ?thesis
    by (simp add: good_def actor_inv_def actor_inv_upto_def)
      (simp add: keyed_def writes_ok_def confs_ok_def phase_ok_def maps_ok_def held_def)
qed

lemma handle_connection_event_good:
  assumes "good X s"
  shows "good X (fst (snd (handle_connection_event sha env ev (s, e))))"
proof (cases ev)
  case (RecoveringEvent g)
  have "good X (suspend g s)"
    using assms inv_suspend [of s X g] by (simp add: good_def actor_inv_def actor_inv_upto_def) (simp add: suspend_def)
  with RecoveringEvent show ?thesis by (simp add: handle_connection_event_def)
next
  case (ReadyEvent g ch ok)
  obtain res e1 where conf: "(if enables_confirms (st_config s) then env_enable_confirms env ch e else (Inr (), e)) = (res, e1)"
    by (cases "if enables_confirms (st_config s) then env_enable_confirms env ch e else (Inr (), e)")
  obtain now e2 where now: "env_now env e1 = (now, e2)" by (cases "env_now env e1")
  have "good X (fst (flush_replay sha env (s\<lparr>st_generation := g, st_channel := Some ch, st_phase := PhaseReady, st_permanent_error := None\<rparr>, e1)))"
    if "g \<ge> st_generation s"
    using publish_queue_good [OF good_flush_start [OF assms that, of now ch]] now
    by (simp add: flush_replay_def Let_def expire_replay_def)
  with assms show ?thesis
    unfolding handle_connection_event_def ReadyEvent prod.case publisher_connection_event.case conf
    by (cases res) (simp_all add: not_less)
next
  case (FailedPermanentEvent g err)
  have "good X (s\<lparr>st_generation := max (st_generation s) g\<rparr>)"
    using assms by (simp add: good_def actor_inv_def actor_inv_upto_def)
      (simp add: keyed_def writes_ok_def confs_ok_def phase_ok_def sequences_def held_def cong: phase.case_cong)
  from good_fail_all [OF this] FailedPermanentEvent show ?thesis by (simp add: handle_connection_event_def Let_def)
qed

lemma mset_remove_nth: "i < length xs \<Longrightarrow> mset xs = add_mset (xs ! i) (mset (remove_nth i xs))"
proof -
  assume "i < length xs"
  from id_take_nth_drop [OF this] have "mset xs = mset (take i xs @ xs ! i # drop (Suc i) xs)" by simp
  then show ?thesis by (simp add: remove_nth_def)
qed

lemma ready_good:
  assumes "good X s"
  shows "good X (fst (confirmation_ready env i c (s, e)))" "good X (fst (publish_ready env i w (s, e)))"
proof -
  show "good X (fst (confirmation_ready env i c (s, e)))"
  proof (cases "i < length (st_confirmations s) \<and> st_sequence s \<noteq> - 1")
    case True
    obtain k g d where f: "st_confirmations s ! i = (k, g, d)" by (cases "st_confirmations s ! i")
    let ?s = "s\<lparr>st_confirmations := remove_nth i (st_confirmations s)\<rparr>"
    have inv: "actor_inv_upto [] [] X s" using assms True by (simp add: good_def actor_inv_def)
    then have ne: "st_ledger s \<noteq> []" using True by (auto simp: actor_inv_upto_def confs_ok_def)
    then have ph: "st_phase s = PhaseReady"
      using inv by (cases "st_phase s") (auto simp: actor_inv_upto_def phase_ok_def held_def)
    have "mset (st_confirmations s) = add_mset (k, g, d) (mset (remove_nth i (st_confirmations s)))"
      using mset_remove_nth [of i "st_confirmations s"] True f by simp
    then have "actor_inv_upto [] [(k, g)] X ?s"
      using inv by (simp add: actor_inv_upto_def)
        (simp add: keyed_def writes_ok_def confs_ok_def phase_ok_def sequences_def held_def cong: phase.case_cong)
    from resolve_confirmation_inv [OF this, of env c e] ph f True show ?thesis
      by (simp add: confirmation_ready_def good_def actor_inv_def)
  next
    case False
    have keep: "st_sequence (fst (resolve_confirmation env k g c (t, e))) = st_sequence t" for k g t
      by (auto simp: resolve_confirmation_def Let_def suspend_def
        split: confirmation_result.splits sum.splits prod.splits publish_confirmation.splits option.splits)
    from False assms show ?thesis
      by (cases "st_confirmations s ! i") (auto simp: confirmation_ready_def good_def keep)
  qed
  show "good X (fst (publish_ready env i w (s, e)))"
  proof (cases "i < length (st_publish_in_flight s) \<and> st_sequence s \<noteq> - 1")
    case True
    obtain k d where f: "st_publish_in_flight s ! i = (k, d)" by (cases "st_publish_in_flight s ! i")
    let ?s = "s\<lparr>st_publish_in_flight := remove_nth i (st_publish_in_flight s)\<rparr>"
    have inv: "actor_inv_upto [] [] X s" using assms True by (simp add: good_def actor_inv_def)
    then have ne: "st_publishing s \<noteq> []" using True by (auto simp: actor_inv_upto_def writes_ok_def)
    then have ph: "st_phase s = PhaseReady"
      using inv by (cases "st_phase s") (auto simp: actor_inv_upto_def phase_ok_def held_def)
    have "mset (st_publish_in_flight s) = add_mset (k, d) (mset (remove_nth i (st_publish_in_flight s)))"
      using mset_remove_nth [of i "st_publish_in_flight s"] True f by simp
    then have "actor_inv_upto [k] [] X ?s"
      using inv by (simp add: actor_inv_upto_def)
        (simp add: keyed_def writes_ok_def confs_ok_def phase_ok_def sequences_def held_def cong: phase.case_cong)
    from handle_publish_completion_inv [OF this, of env w e] ph f True show ?thesis
      by (simp add: publish_ready_def good_def actor_inv_def)
  next
    case False
    have keep: "st_sequence (fst (handle_publish_completion env k w (t, e))) = st_sequence t" for k t
      by (auto simp: handle_publish_completion_def Let_def ledger_insert_def suspend_def
        split: wire_write_outcome.splits sum.splits prod.splits option.splits)
    from False assms show ?thesis
      by (cases "st_publish_in_flight s ! i") (auto simp: publish_ready_def good_def keep)
  qed
qed

section \<open>The invariant holds in every run\<close>

definition system_good :: "'c publisher_system \<times> 'e \<Rightarrow> bool" where
  "system_good sye \<longleftrightarrow> (case sye of (sy, _) \<Rightarrow> ps_running sy \<longrightarrow>
     (\<forall>r\<in>set (queued (ps_mailbox sy)). rp_sequence r = 0) \<and> good [] (ps_actor sy))"

lemma good_zeros:
  assumes "good [] s" "\<forall>r\<in>set rs. rp_sequence r = 0"
  shows "good rs s"
  using assms seq_ok_zeros [of "st_sequence s" "sequences [] s" "image_mset rp_sequence (mset rs)"]
  by (auto simp: good_def actor_inv_def actor_inv_upto_def sequences_def)

lemma receive_good:
  assumes "system_good (sy, e)" and run: "ps_running sy"
  shows "system_good (receive sha env window (sy, e))"
proof -
  obtain rs rest where co: "coalesce (ps_mailbox sy) = (rs, rest)" by (cases "coalesce (ps_mailbox sy)")
  define m1 where "m1 = (if rs = [] then (ps_actor sy, e) else accept_publish sha env rs (ps_actor sy, e))"
  obtain s1 e1 where m1: "m1 = (s1, e1)" by (cases m1)
  have z: "\<forall>r\<in>set (rs @ queued rest). rp_sequence r = 0" and g: "good [] (ps_actor sy)"
    using assms run coalesce_queued [OF co] by (simp_all add: system_good_def)
  have "good [] s1"
    using m1 g accept_publish_good [of rs "[]" "ps_actor sy" sha env e] good_zeros [OF g, of rs] z
    by (cases "rs = []") (simp_all add: m1_def)
  note unf = receive_def co m1_def [symmetric] m1
  show ?thesis
  proof (cases rest)
    case Nil
    with \<open>good [] s1\<close> show ?thesis by (simp add: unf system_good_def)
  next
    case (Cons cmd rest')
    show ?thesis
    proof (cases cmd)
      case (CmdPublish r)
      with accept_publish_good [of "[r]" "[]" s1 sha env e1] good_zeros [OF \<open>good [] s1\<close>, of "[r]"] z Cons
      show ?thesis by (cases "accept_publish sha env [r] (s1, e1)") (simp add: unf system_good_def)
    next
      case (CmdConnectionEvent ev)
      with handle_connection_event_good [OF \<open>good [] s1\<close>, of sha env ev e1] z Cons
      show ?thesis by (cases "handle_connection_event sha env ev (s1, e1)") (simp add: unf system_good_def)
    next
      case CmdClose
      with Cons show ?thesis
        by (cases "quiesce_and_close sha env window (s1, e1)") (simp add: unf system_good_def stop_def)
    qed
  qed
qed

lemma try_publish_good:
  assumes "system_good (sy, e)"
  shows "system_good (snd (try_publish env request (sy, e)))"
proof -
  let ?n = "u64_clamp (length (pq_payload request))"
  let ?sh = "st_shared (ps_actor sy)"
  obtain g b where g: "try_reserve ?n (sh_budget ?sh) = (g, b)" by (cases "try_reserve ?n (sh_budget ?sh)")
  obtain now e1 where now: "env_now env e = (now, e1)" by (cases "env_now env e")
  obtain acc_at e2 where acc_at: "env_now env e1 = (acc_at, e2)" by (cases "env_now env e1")
  have core: "good [] (on_metrics h (on_shared f s)) = good [] s" "good [] (on_shared f s) = good [] s" for h f and s :: "'a actor_state"
    by (simp_all add: good_core [OF same_core_intros(2)] good_core [OF same_core_intros(3)])
  from assms g now acc_at show ?thesis
    by (cases g) (simp_all add: try_publish_def Let_def system_good_def on_actor_def core)
qed

lemma expire_good: "good [] s \<Longrightarrow> st_phase s = PhaseSuspended \<Longrightarrow> good [] (expire_replay now s)"
proof -
  assume g: "good [] s" and ph: "st_phase s = PhaseSuspended"
  have "sequences [] (expire_replay now s) \<subseteq># sequences [] s"
    using expire_loop_sequences [of now "st_replay s" "[]" s] by (simp add: sequences_def held_def expire_replay_def)
  with g ph seq_ok_mono [of "st_sequence s" "sequences [] s" _ "st_sequence s"] show ?thesis
    by (simp add: good_def actor_inv_def actor_inv_upto_def expire_replay_def)
      (auto simp: keyed_def writes_ok_def confs_ok_def phase_ok_def maps_ok_def)
qed

interpretation publisher_structure: invariant_machine "system_step sha env" system_good
proof
  fix s :: "'a publisher_system \<times> 'b" and ev
  assume inv: "system_good s"
  obtain sy e where s: "s = (sy, e)" by (cases s)
  note acc = inv [unfolded s]
  have "system_good (system_step sha env ev (sy, e))"
  proof (cases ev)
    case (HandlePublish request)
    with try_publish_good [OF acc] show ?thesis by simp
  next
    case (Receive window)
    with acc receive_good [OF acc] show ?thesis by simp
  next
    case (ConfirmationReady i result)
    with acc ready_good(1) [of "[]" "ps_actor sy" env i result e] show ?thesis
      by (cases "confirmation_ready env i result (ps_actor sy, e)") (simp add: system_good_def lift_actor_def)
  next
    case (WriteReady i result)
    with acc ready_good(2) [of "[]" "ps_actor sy" env i result e] show ?thesis
      by (cases "publish_ready env i result (ps_actor sy, e)") (simp add: system_good_def lift_actor_def)
  next
    case DeadlineTick
    with acc expire_good [of "ps_actor sy"] show ?thesis
      by (cases "env_now env e") (simp add: system_good_def deadline_tick_def on_actor_def)
  qed (use acc in \<open>simp_all add: system_good_def enqueue_def handles_dropped_def stop_def\<close>)
  then show "system_good (system_step sha env ev s)" by (simp add: s)
qed

lemma system_start_good: "system_good (system_start env ch cfg strategy e)"
proof -
  obtain res e1 where "(if enables_confirms cfg then env_enable_confirms env ch e else (Inr (), e)) = (res, e1)"
    by (cases "if enables_confirms cfg then env_enable_confirms env ch e else (Inr (), e)")
  then show ?thesis
    by (cases res)
      (simp_all add: system_start_def Let_def system_good_def good_def actor_inv_def actor_inv_upto_def keyed_def
        writes_ok_def confs_ok_def phase_ok_def maps_ok_def sequences_def seq_ok_def held_def actor_state_new_def)
qed

section \<open>Generations\<close>

lemma publish_completion_generation:
  "st_generation (fst (handle_publish_completion env k w (s, e))) = st_generation s"
  by (auto simp: handle_publish_completion_def Let_def ledger_insert_def suspend_def
      split: wire_write_outcome.splits sum.splits prod.splits option.splits)

lemma resolve_confirmation_generation:
  "st_generation s \<le> st_generation (fst (resolve_confirmation env k g c (s, e)))"
  by (auto simp: resolve_confirmation_def Let_def suspend_def
      split: confirmation_result.splits sum.splits prod.splits publish_confirmation.splits option.splits)

lemma attempt_write_generation:
  assumes "attempt_write sha env ch now r (s, e) = (b, s', e')"
  shows "st_generation s' = st_generation s"
proof -
  let ?k = "sat_add (st_sequence s) 1"
  let ?r = "r\<lparr>rp_sequence := ?k\<rparr>"
  let ?s = "s\<lparr>st_sequence := ?k\<rparr>"
  let ?t = "publishing_insert ?k ?r ?s"
  have t: "st_generation ?t = st_generation s" by (simp add: publishing_insert_def)
  show ?thesis
  proof (cases "route_transport_request sha (rp_request ?r) (st_delay_strategy ?s) (mandatory_flag (st_config ?s))")
    case (Inl err)
    with assms show ?thesis by (auto simp: attempt_write_def Let_def)
  next
    case (Inr req)
    let ?d = "min (pq_deadline (rp_request ?r)) (now + pc_confirm_timeout (st_config ?s))"
    obtain o1 e1 where poll: "env_publish_poll env ch req ?d e = (o1, e1)"
      by (cases "env_publish_poll env ch req ?d e")
    show ?thesis
    proof (cases o1)
      case None
      with assms Inr poll t show ?thesis by (auto simp: attempt_write_def Let_def)
    next
      case (Some out)
      obtain s3 e3 where h: "handle_publish_completion env ?k out (?t, e1) = (s3, e3)"
        by (cases "handle_publish_completion env ?k out (?t, e1)")
      from assms Inr poll Some h have "s' = s3" by (auto simp: attempt_write_def Let_def)
      with publish_completion_generation [of env ?k out ?t e1] h t show ?thesis by simp
    qed
  qed
qed

lemma publish_queue_loop_generation:
  "st_generation (fst (publish_queue_loop sha env now pending (s, e))) = st_generation s"
proof (induction pending arbitrary: now s e)
  case (Cons r pending)
  show ?case
  proof (cases "st_channel s")
    case None
    with Cons.IH show ?thesis by simp
  next
    case (Some ch)
    obtain t s1 e1 where topo: "actor_ensure_delay_topology sha env ch r (s, e) = (t, s1, e1)"
      by (cases "actor_ensure_delay_topology sha env ch r (s, e)")
    from actor_ensure_delay_topology_state [OF topo] obtain d where s1: "s1 = s\<lparr>st_declared := d\<rparr>" by blast
    obtain now1 e2 where now: "env_now env e1 = (now1, e2)" by (cases "env_now env e1")
    obtain b s2 e3 where w: "attempt_write sha env ch now1 r (s1, e2) = (b, s2, e3)"
      by (cases "attempt_write sha env ch now1 r (s1, e2)")
    with attempt_write_generation [OF w] s1 have "st_generation s2 = st_generation s" by simp
    with Some topo now w s1 Cons.IH show ?thesis by (cases t; cases b) simp_all
  qed
qed simp

lemma flush_replay_generation: "st_generation (fst (flush_replay sha env (s, e))) = st_generation s"
  by (cases "env_now env e")
    (simp add: flush_replay_def Let_def publish_queue_def publish_queue_loop_generation expire_replay_def split: prod.splits)

section \<open>Stable sorting\<close>

text \<open>A stable sort is determined by the elements of each key in their order.\<close>

lemma filter_sort_key: "filter (\<lambda>x. k = f x) (sort_key f xs) = filter (\<lambda>x. k = f x) xs"
proof -
  have "(\<lambda>x. k = f x) = (\<lambda>x. f x = k)" by auto
  then show ?thesis by (simp only: sort_key_stable)
qed

lemma sort_key_eq_by_key:
  assumes "mset xs = mset ys" "\<And>q. filter (\<lambda>x. q = f x) xs = filter (\<lambda>x. q = f x) ys"
  shows "sort_key f xs = sort_key f ys"
proof (rule properties_for_sort_key)
  show "mset (sort_key f ys) = mset xs" using assms(1) by simp
  show "filter (\<lambda>x. f k = f x) (sort_key f ys) = filter (\<lambda>x. f k = f x) xs" for k
    by (simp only: filter_sort_key assms(2))
qed simp

lemma short_mset_eq: "mset xs = mset ys \<Longrightarrow> length ys \<le> 1 \<Longrightarrow> xs = ys"
  by (cases ys; cases "tl ys") auto

lemma sort_key_strict:
  assumes "distinct (map f xs)"
  shows "sorted_wrt (\<lambda>a b. f a < f b) (sort_key f xs)"
proof -
  have "distinct (map f (sort_key f xs))"
    using assms mset_eq_imp_distinct_iff [of "map f (sort_key f xs)" "map f xs"] by simp
  then have "sorted_wrt (<) (map f (sort_key f xs))"
    using sorted_sort_key [of f xs] by (simp add: strict_sorted_iff)
  then show ?thesis by (simp add: sorted_wrt_map)
qed

lemma distinct_nonzero:
  fixes f :: "'a \<Rightarrow> u64"
  assumes "\<forall>q. q \<noteq> 0 \<longrightarrow> length (filter (\<lambda>x. q = f x) xs) \<le> 1"
  shows "distinct (map f (filter (\<lambda>x. f x \<noteq> 0) xs))"
  using assms
proof (induction xs)
  case (Cons x xs)
  have "length (filter (\<lambda>x. q = f x) xs) \<le> 1" if "q \<noteq> 0" for q
    using Cons.prems [rule_format, OF that] by (simp split: if_splits)
  then have "distinct (map f (filter (\<lambda>x. f x \<noteq> 0) xs))" by (intro Cons.IH) simp
  moreover have "filter (\<lambda>y. f x = f y) xs = []" if "f x \<noteq> 0"
    using Cons.prems that by (auto dest: spec [of _ "f x"])
  ultimately show ?case by (auto simp: filter_empty_conv)
qed simp

lemma sort_key_zero_first:
  fixes f :: "'a \<Rightarrow> u64"
  shows "sort_key f xs = filter (\<lambda>x. f x = 0) xs @ sort_key f (filter (\<lambda>x. f x \<noteq> 0) xs)"
proof (rule properties_for_sort_key)
  show "mset (filter (\<lambda>x. f x = 0) xs @ sort_key f (filter (\<lambda>x. f x \<noteq> 0) xs)) = mset xs"
    by (simp flip: multiset_partition)
  have "sorted (map f (filter (\<lambda>x. f x = 0) xs))" by (induction xs) auto
  then show "sorted (map f (filter (\<lambda>x. f x = 0) xs @ sort_key f (filter (\<lambda>x. f x \<noteq> 0) xs)))"
    by (auto simp: sorted_append)
  show "filter (\<lambda>x. f y = f x) (filter (\<lambda>x. f x = 0) xs @ sort_key f (filter (\<lambda>x. f x \<noteq> 0) xs)) =
      filter (\<lambda>x. f y = f x) xs" for y
  proof (cases "f y = 0")
    case True
    then show ?thesis
      by (simp add: filter_sort_key)
  next
    case False
    have "filter (\<lambda>x. f y = f x) (filter (\<lambda>x. f x = 0) xs) = []" using False by (auto simp: filter_empty_conv)
    moreover have "filter (\<lambda>x. f y = f x) (filter (\<lambda>x. f x \<noteq> 0) xs) = filter (\<lambda>x. f y = f x) xs"
      unfolding filter_filter using False by (intro filter_cong) auto
    ultimately show ?thesis by (simp only: filter_append filter_sort_key append_Nil)
  qed
qed

section \<open>Properties: recovery\<close>

text \<open>(C9) The structure of a running publisher, in every reachable state before the attempt counter
  saturates: each publication on the wire has exactly one write future and each unconfirmed one exactly one
  confirmation future, of the generation it was written in, so none waits for nothing; attempt
  numbers are unique; a ready actor has a channel and nothing parked, a suspended one has no
  channel and nothing on the wire, a permanently failed one holds nothing and knows its error.\<close>

theorem publisher_structure_inv:
  assumes "run_events (system_step sha env) evs (system_start env ch cfg strategy e) = (sy, e')"
    and "ps_running sy" "st_sequence (ps_actor sy) \<noteq> - 1"
  shows "let s = ps_actor sy in
    mset (map fst (st_publish_in_flight s)) = mset (map fst (st_publishing s)) \<and>
    mset (map (\<lambda>(k, g, _). (k, g)) (st_confirmations s)) = mset (map (\<lambda>(k, i). (k, if_generation i)) (st_ledger s)) \<and>
    (\<forall>q. q \<noteq> 0 \<longrightarrow> length (filter (\<lambda>r. rp_sequence r = q) (held s)) \<le> 1) \<and>
    (case st_phase s of
       PhaseReady \<Rightarrow> st_channel s \<noteq> None \<and> st_replay s = []
     | PhaseSuspended \<Rightarrow> st_channel s = None \<and> st_publishing s = [] \<and> st_ledger s = []
     | PhaseFailedPermanent \<Rightarrow> held s = [] \<and> st_permanent_error s \<noteq> None)"
proof -
  have "system_good (sy, e')"
    using publisher_structure.run_inv [OF system_start_good [of env ch cfg strategy e], of sha env evs] assms(1) by simp
  with assms(2,3) have inv: "actor_inv_upto [] [] [] (ps_actor sy)"
    by (simp add: system_good_def good_def actor_inv_def)
  then have "\<forall>q. q \<noteq> 0 \<longrightarrow> count (image_mset rp_sequence (mset (held (ps_actor sy)))) q \<le> 1"
    by (simp add: actor_inv_upto_def seq_ok_def sequences_def)
  then have "\<forall>q. q \<noteq> 0 \<longrightarrow> length (filter (\<lambda>r. rp_sequence r = q) (held (ps_actor sy))) \<le> 1"
    by (simp add: count_mset count_list_eq_length_filter filter_map comp_def eq_commute flip: mset_map)
  with inv show ?thesis
    by (simp add: actor_inv_upto_def writes_ok_def confs_ok_def phase_ok_def Let_def)
qed

theorem publisher_structure_inv_witness:
  "st_phase (ps_actor (fst (demo_run [HandlePublish demo_publication, Receive []]))) = PhaseReady \<and>
   mset (map (\<lambda>(k, g, _). (k, g)) (st_confirmations (ps_actor (fst (demo_run [HandlePublish demo_publication, Receive []]))))) =
     mset [(1, 1)]"
proof -
  let ?evs = "[HandlePublish demo_publication, Receive []]"
  have run: "ps_running (fst (demo_run ?evs))" "st_sequence (ps_actor (fst (demo_run ?evs))) \<noteq> - 1"
    "map (\<lambda>(k, i). (k, if_generation i)) (st_ledger (ps_actor (fst (demo_run ?evs)))) = [(1, 1)]"
    "st_phase (ps_actor (fst (demo_run ?evs))) = PhaseReady"
    by code_simp+
  have "run_events (system_step (\<lambda>x. x) demo_env) ?evs (system_start demo_env () demo_publisher_config None 0) =
      (fst (demo_run ?evs), snd (demo_run ?evs))" by (simp add: demo_run_def)
  from publisher_structure_inv [OF this run(1,2)] run(3,4) show ?thesis by (simp only: Let_def mset.simps)
qed

text \<open>(C23) A suspension keeps every publication and its replay order does not depend on the order in which
  the hash maps are drained: first the parked publications never attempted, in their order, then the
  attempted ones by strictly increasing attempt number.\<close>

theorem suspend_replay_order:
  assumes "actor_inv [] s"
    and "mset pub = mset (st_publishing s)" "mset led = mset (st_ledger s)"
  shows "suspend g (s\<lparr>st_publishing := pub, st_ledger := led\<rparr>) = suspend g s \<and>
    mset (st_replay (suspend g s)) = mset (held s) \<and>
    (\<exists>attempted. st_replay (suspend g s) = filter (\<lambda>r. rp_sequence r = 0) (st_replay s) @ attempted \<and>
       sorted_wrt (\<lambda>a b. rp_sequence a < rp_sequence b) attempted)"
proof -
  have zero_eq: "(\<lambda>r. 0 = rp_sequence r) = (\<lambda>r. rp_sequence r = 0)" by auto
  let ?K = "\<lambda>p l. st_replay s @ map snd p @ map (if_retained \<circ> snd) l"
  have uniq: "\<forall>q. q \<noteq> 0 \<longrightarrow> count (image_mset rp_sequence (mset (held s))) q \<le> 1" and k: "keyed s"
    using assms(1) by (simp_all add: actor_inv_def actor_inv_upto_def seq_ok_def sequences_def)
  have zero: "filter (\<lambda>r. rp_sequence r = 0) (?K p l) = filter (\<lambda>r. rp_sequence r = 0) (st_replay s)"
    if "mset p = mset (st_publishing s)" "mset l = mset (st_ledger s)" for p l
  proof -
    have "set p = set (st_publishing s)" "set l = set (st_ledger s)" using that by (metis set_mset_mset)+
    with k show ?thesis by (auto simp: keyed_def filter_empty_conv)
  qed
  have eq: "sort_key rp_sequence (?K pub led) = sort_key rp_sequence (held s)"
  proof (rule sort_key_eq_by_key)
    show "mset (?K pub led) = mset (held s)" using assms(2,3) by (simp add: held_def)
    fix q :: u64
    show "filter (\<lambda>r. q = rp_sequence r) (?K pub led) = filter (\<lambda>r. q = rp_sequence r) (held s)"
    proof (cases "q = 0")
      case True
      with zero [OF assms(2,3)] zero [of "st_publishing s" "st_ledger s"] show ?thesis unfolding held_def by (simp only: zero_eq)
    next
      case False
      have "mset (filter (\<lambda>r. q = rp_sequence r) (?K pub led)) = mset (filter (\<lambda>r. q = rp_sequence r) (held s))"
        using assms(2,3) by (simp add: held_def mset_filter)
      moreover have "length (filter (\<lambda>r. q = rp_sequence r) (held s)) \<le> 1"
        using uniq False by (simp add: count_list_eq_length_filter filter_map comp_def count_mset flip: mset_map)
      ultimately show ?thesis by (rule short_mset_eq)
    qed
  qed
  have "suspend g (s\<lparr>st_publishing := pub, st_ledger := led\<rparr>) = suspend g s"
    using eq by (simp add: suspend_def held_def)
  moreover have "mset (st_replay (suspend g s)) = mset (held s)" by (simp add: suspend_def held_def)
  moreover have "\<exists>attempted. sort_key rp_sequence (held s) = filter (\<lambda>r. rp_sequence r = 0) (st_replay s) @ attempted \<and>
       sorted_wrt (\<lambda>a b. rp_sequence a < rp_sequence b) attempted"
  proof -
    have "sorted_wrt (\<lambda>a b. rp_sequence a < rp_sequence b) (sort_key rp_sequence (filter (\<lambda>r. rp_sequence r \<noteq> 0) (held s)))"
    proof (rule sort_key_strict)
      show "distinct (map rp_sequence (filter (\<lambda>r. rp_sequence r \<noteq> 0) (held s)))"
        using uniq by (intro distinct_nonzero)
          (simp add: count_list_eq_length_filter filter_map comp_def count_mset flip: mset_map)
    qed
    moreover have "sort_key rp_sequence (held s) =
        filter (\<lambda>r. rp_sequence r = 0) (held s) @ sort_key rp_sequence (filter (\<lambda>r. rp_sequence r \<noteq> 0) (held s))"
      by (rule sort_key_zero_first)
    ultimately show ?thesis using zero [of "st_publishing s" "st_ledger s"] by (auto simp: held_def)
  qed
  ultimately show ?thesis by (simp add: suspend_def held_def)
qed

definition demo_two :: "unit publisher_system \<times> nat" where
  "demo_two = run_events (system_step (\<lambda>x. x) demo_env) [HandlePublish demo_publication, HandlePublish demo_publication, Receive []]
     (system_start demo_env () (demo_publisher_config\<lparr>pc_max_buffered_bytes := 10\<rparr>) None 0)"

theorem suspend_replay_order_witness:
  "let s = ps_actor (fst demo_two) in length (st_ledger s) = 2 \<and>
     suspend 2 (s\<lparr>st_publishing := [], st_ledger := rev (st_ledger s)\<rparr>) = suspend 2 s"
proof -
  let ?s = "ps_actor (fst demo_two)"
  have run: "ps_running (fst demo_two)" "st_sequence ?s \<noteq> - 1" "st_publishing ?s = []" "length (st_ledger ?s) = 2"
    by code_simp+
  have "system_good demo_two" unfolding demo_two_def by (rule publisher_structure.run_inv [OF system_start_good])
  with run have inv: "actor_inv [] ?s" by (simp add: system_good_def good_def case_prod_beta)
  have "mset [] = mset (st_publishing ?s)" "mset (rev (st_ledger ?s)) = mset (st_ledger ?s)" using run(3) by simp_all
  from suspend_replay_order [OF inv this, of 2] run(4) show ?thesis by (simp add: Let_def)
qed

text \<open>What happens to a parked publication when the recovery deadline of the queue fires.\<close>

definition rearm :: "instant \<Rightarrow> retained \<Rightarrow> retained" where
  "rearm now r = (if pq_deadline (rp_request r) \<le> now
     then r\<lparr>rp_retried := True, rp_request := (rp_request r)\<lparr>pq_deadline := now + rp_timeout r\<rparr>\<rparr> else r)"

lemma expire_loop_exact:
  "st_replay (expire_loop now rs kept s) =
     kept @ map (rearm now) (filter (\<lambda>r. \<not> (pq_deadline (rp_request r) \<le> now \<and> rp_retried r)) rs) \<and>
   sh_settled (st_shared (expire_loop now rs kept s)) = sh_settled (st_shared s) @
     map (\<lambda>r. (rp_completion r, Some (Inl (publish_error_new Timeout ''publish deadline expired during connection recovery''))))
       (filter (\<lambda>r. pq_deadline (rp_request r) \<le> now \<and> rp_retried r) rs)"
  by (induction now rs kept s rule: expire_loop.induct)
    (simp_all add: rearm_def complete_error_def on_shared_def settle_def on_metrics_def)

text \<open>A parked publication is re-armed exactly once: when its deadline has passed, its first
  expiry gives it one more full timeout and marks it, a marked one is answered with a
  timeout error and leaves the queue, every other publication stays untouched and in order.\<close>

lemma expire_rearms_once:
  "st_replay (expire_replay now s) =
     map (rearm now) (filter (\<lambda>r. \<not> (pq_deadline (rp_request r) \<le> now \<and> rp_retried r)) (st_replay s)) \<and>
   sh_settled (st_shared (expire_replay now s)) = sh_settled (st_shared s) @
     map (\<lambda>r. (rp_completion r, Some (Inl (publish_error_new Timeout ''publish deadline expired during connection recovery''))))
       (filter (\<lambda>r. pq_deadline (rp_request r) \<le> now \<and> rp_retried r) (st_replay s))"
  using expire_loop_exact [of now "st_replay s" "[]" s] by (simp add: expire_replay_def)


text \<open>A connection on which every write fails recoverably.\<close>

definition failing_env :: "(unit, nat) publisher_env" where
  "failing_env = demo_env\<lparr>env_publish_poll := (\<lambda>_ _ _ e. (Some (WriteCompleted (Inl (te_connection ''lost''))), e))\<rparr>"


end
