(* ===== verification/Connection_Actor.thy ===== *)
theory Connection_Actor
  imports Recovery_Policy Metrics
begin

text \<open>
  The lifecycle actor of one broker connection (\<^verbatim>\<open>pool/connection_actor.rs\<close>). Each handler of a phase is
  split at its awaits: what it does on entry is \<open>enter\<close>, what it does with a command, an event of the
  connection, the end of a connect attempt or of the back-off is one definition each. The transport and
  its connections are parameters over a broker state \<open>'e\<close>. A \<^verbatim>\<open>oneshot\<close> of a command is a number; the log of
  replies has one entry per completed one, \<open>Dropped\<close> when the sender was dropped. The watch of the
  connection state is the list of all values it had. The connections opened and closed and the numbers
  of the accepted commands are recorded beside the state, for the statements only.
\<close>

section \<open>Model\<close>

definition CONNECTION_COMMAND_CAPACITY :: nat where
  "CONNECTION_COMMAND_CAPACITY = 32"

definition CONNECT_TIMEOUT :: duration where
  "CONNECT_TIMEOUT = from_secs 10"

datatype conn_command =
    StartCmd
  | LostCmd transport_error
  | OpenPublisherCmd nat
  | OpenConsumerCmd nat
  | CloseCmd nat

datatype conn_phase =
    PhDisconnected
  | PhConnecting u32
  | PhReady
  | PhRecovering u32 transport_error
  | PhFailedPermanent
  | PhStopped

datatype transport_event = ErrorEv transport_error | BlockedEv string | UnblockedEv

datatype conn_reply = OpenReply "nat transport_result" | CloseReply | Dropped

text \<open>An operation that exceeds its budget answers \<open>None\<close>.\<close>

record 'e conn_env =
  cv_open_publisher :: "nat \<Rightarrow> 'e \<Rightarrow> nat transport_result option \<times> 'e"
  cv_open_consumer :: "nat \<Rightarrow> 'e \<Rightarrow> nat transport_result option \<times> 'e"
  cv_close :: "nat \<Rightarrow> 'e \<Rightarrow> 'e"
  cv_policy :: recovery_policy
  cv_jitter :: "duration \<Rightarrow> duration"

record 'e conn_actor =
  ca_phase :: conn_phase
  ca_connection :: "nat option"
  ca_events :: "nat option"
  ca_generation :: u64
  ca_connect_deadline :: instant
  ca_states :: "connection_state list"
  ca_mailbox :: "conn_command list"
  ca_handles :: bool
  ca_replies :: "(nat \<times> conn_reply) list"
  ca_metrics :: metrics
  ca_broker :: 'e
  ca_opened :: "nat list"
  ca_closed :: "nat list"
  ca_accepted :: "nat list"

definition conn_actor_spawn :: "metrics \<Rightarrow> 'e \<Rightarrow> 'e conn_actor" where
  "conn_actor_spawn m e = \<lparr>ca_phase = PhDisconnected, ca_connection = None, ca_events = None, ca_generation = 0, ca_connect_deadline = 0,
     ca_states = [Disconnected], ca_mailbox = [], ca_handles = True, ca_replies = [], ca_metrics = m, ca_broker = e,
     ca_opened = [], ca_closed = [], ca_accepted = []\<rparr>"

subsection \<open>Helpers\<close>

definition send_state :: "connection_state \<Rightarrow> 'e conn_actor \<Rightarrow> 'e conn_actor" where
  "send_state st a = a\<lparr>ca_states := ca_states a @ [st]\<rparr>"

definition reply :: "nat \<Rightarrow> conn_reply \<Rightarrow> 'e conn_actor \<Rightarrow> 'e conn_actor" where
  "reply i r a = a\<lparr>ca_replies := ca_replies a @ [(i, r)]\<rparr>"

fun command_slot :: "conn_command \<Rightarrow> nat option" where
  "command_slot (OpenPublisherCmd i) = Some i"
| "command_slot (OpenConsumerCmd i) = Some i"
| "command_slot (CloseCmd i) = Some i"
| "command_slot _ = None"

definition command_slots :: "conn_command list \<Rightarrow> nat list" where
  "command_slots cs = List.map_filter command_slot cs"

text \<open>The actor returns: the commands it has not received are dropped with their senders.\<close>

definition actor_returns :: "'e conn_actor \<Rightarrow> 'e conn_actor" where
  "actor_returns a = a\<lparr>ca_phase := PhStopped, ca_mailbox := [],
     ca_replies := ca_replies a @ map (\<lambda>i. (i, Dropped)) (command_slots (ca_mailbox a))\<rparr>"

definition publish_permanent_failure :: "transport_error \<Rightarrow> 'e conn_actor \<Rightarrow> 'e conn_actor" where
  "publish_permanent_failure e = send_state (FailedPermanent (te_kind e) (te_message e))"

definition close_connection :: "'e conn_env \<Rightarrow> 'e conn_actor \<Rightarrow> 'e conn_actor" where
  "close_connection env a =
     (case ca_connection a of
        None \<Rightarrow> a
      | Some c \<Rightarrow> a\<lparr>ca_connection := None, ca_broker := cv_close env c (ca_broker a), ca_closed := ca_closed a @ [c]\<rparr>)"

definition shutdown :: "'e conn_env \<Rightarrow> nat \<Rightarrow> 'e conn_actor \<Rightarrow> 'e conn_actor" where
  "shutdown env i a = reply i CloseReply (send_state ClosedState (close_connection env a))"

definition not_ready :: "nat \<Rightarrow> 'e conn_actor \<Rightarrow> 'e conn_actor" where
  "not_ready i = reply i (OpenReply (Inl (te_closed ''connection is not ready'')))"

definition route_loss :: "transport_error \<Rightarrow> 'e conn_actor \<Rightarrow> conn_phase \<times> 'e conn_actor" where
  "route_loss e a =
     (if is_recoverable e then (PhRecovering 1 e, a) else (PhFailedPermanent, publish_permanent_failure e a))"

definition bounded_channel_operation :: "nat transport_result option \<Rightarrow> transport_error + nat transport_result" where
  "bounded_channel_operation r = ok_or (te_connection ''channel operation timed out'') r"

subsection \<open>Entering a phase\<close>

definition enter :: "'e conn_env \<Rightarrow> conn_phase \<Rightarrow> 'e conn_actor \<Rightarrow> 'e conn_actor" where
  "enter env ph a =
     (case ph of
        PhConnecting previous_failures \<Rightarrow> send_state (Connecting (sat_add previous_failures 1)) a
      | PhRecovering failures e \<Rightarrow>
          send_state (Recovering failures (cv_jitter env (delay_for_failure (cv_policy env) failures)) (te_message e)) a
      | _ \<Rightarrow> a)\<lparr>ca_phase := ph\<rparr>"

text \<open>The select of the connecting loop builds its timeout anew on every turn.\<close>

definition arm_connect :: "instant \<Rightarrow> 'e conn_actor \<Rightarrow> 'e conn_actor" where
  "arm_connect now a = a\<lparr>ca_connect_deadline := now + CONNECT_TIMEOUT\<rparr>"

definition enter_connecting :: "'e conn_env \<Rightarrow> instant \<Rightarrow> u32 \<Rightarrow> 'e conn_actor \<Rightarrow> 'e conn_actor" where
  "enter_connecting env now previous_failures a = arm_connect now (enter env (PhConnecting previous_failures) a)"

subsection \<open>The handlers\<close>

fun handle_disconnected :: "'e conn_env \<Rightarrow> instant \<Rightarrow> conn_command \<Rightarrow> 'e conn_actor \<Rightarrow> 'e conn_actor" where
  "handle_disconnected env now StartCmd a = enter_connecting env now 0 a"
| "handle_disconnected env now (LostCmd _) a = enter env PhDisconnected a"
| "handle_disconnected env now (OpenPublisherCmd i) a = enter env PhDisconnected (not_ready i a)"
| "handle_disconnected env now (OpenConsumerCmd i) a = enter env PhDisconnected (not_ready i a)"
| "handle_disconnected env now (CloseCmd i) a = actor_returns (shutdown env i a)"

fun connecting_command :: "'e conn_env \<Rightarrow> instant \<Rightarrow> conn_command \<Rightarrow> 'e conn_actor \<Rightarrow> 'e conn_actor" where
  "connecting_command env now (CloseCmd i) a = actor_returns (shutdown env i a)"
| "connecting_command env now (OpenPublisherCmd i) a = arm_connect now (not_ready i a)"
| "connecting_command env now (OpenConsumerCmd i) a = arm_connect now (not_ready i a)"
| "connecting_command env now (LostCmd e) a =
     (if \<not> is_recoverable e then enter env PhFailedPermanent (publish_permanent_failure e a)
      else arm_connect now a)"
| "connecting_command env now StartCmd a = arm_connect now a"

definition connect_ends :: "'e conn_env \<Rightarrow> u32 \<Rightarrow> nat transport_result \<Rightarrow> 'e conn_actor \<Rightarrow> 'e conn_actor" where
  "connect_ends env previous_failures result a =
     (case result of
        Inr c \<Rightarrow>
          (let generation = sat_add (ca_generation a) 1;
               a1 = a\<lparr>ca_events := Some c, ca_connection := Some c, ca_generation := generation,
                      ca_opened := ca_opened a @ [c]\<rparr>;
               a2 = (if generation > 1 then ca_metrics_update record_reconnect a1 else a1) in
           enter env PhReady (send_state (ReadyAt generation) a2))
      | Inl e \<Rightarrow>
          if is_recoverable e then enter env (PhRecovering (sat_add previous_failures 1) e) a
          else enter env PhFailedPermanent (publish_permanent_failure e a))"

text \<open>The ways out of the ready phase drop the event stream.\<close>

definition connection_dies :: "'e conn_env \<Rightarrow> transport_error \<Rightarrow> 'e conn_actor \<Rightarrow> 'e conn_actor" where
  "connection_dies env e a =
     (case route_loss e (close_connection env (ca_metrics_update clear_connection_blocked (a\<lparr>ca_events := None\<rparr>))) of
        (ph, a1) \<Rightarrow> enter env ph a1)"

definition next_transport_event :: "transport_event option \<Rightarrow> transport_event" where
  "next_transport_event ev = (case ev of Some x \<Rightarrow> x | None \<Rightarrow> ErrorEv (te_connection ''transport event stream ended''))"

fun ready_event :: "'e conn_env \<Rightarrow> transport_event \<Rightarrow> 'e conn_actor \<Rightarrow> 'e conn_actor" where
  "ready_event env (ErrorEv e) a = connection_dies env e a"
| "ready_event env (BlockedEv reason) a = ca_metrics_update record_connection_blocked a"
| "ready_event env UnblockedEv a = ca_metrics_update clear_connection_blocked a"

text \<open>Opening a channel: a result is passed on; an operation beyond its budget answers its error and the
  connection is treated as lost.\<close>

definition ready_open :: "'e conn_env \<Rightarrow> (nat \<Rightarrow> 'e \<Rightarrow> nat transport_result option \<times> 'e) \<Rightarrow> nat \<Rightarrow> 'e conn_actor \<Rightarrow> 'e conn_actor" where
  "ready_open env op i a =
     (case ca_connection a of
        None \<Rightarrow> not_ready i a
      | Some c \<Rightarrow>
          (case op c (ca_broker a) of (r, e) \<Rightarrow>
            (let a1 = a\<lparr>ca_broker := e\<rparr> in
             case bounded_channel_operation r of
               Inr result \<Rightarrow> reply i (OpenReply result) a1
             | Inl err \<Rightarrow> connection_dies env err (reply i (OpenReply (Inl err)) a1))))"

fun ready_command :: "'e conn_env \<Rightarrow> conn_command \<Rightarrow> 'e conn_actor \<Rightarrow> 'e conn_actor" where
  "ready_command env (LostCmd e) a = connection_dies env e a"
| "ready_command env (OpenPublisherCmd i) a = ready_open env (cv_open_publisher env) i a"
| "ready_command env (OpenConsumerCmd i) a = ready_open env (cv_open_consumer env) i a"
| "ready_command env StartCmd a = a"
| "ready_command env (CloseCmd i) a =
     actor_returns (shutdown env i (ca_metrics_update clear_connection_blocked (a\<lparr>ca_events := None\<rparr>)))"

fun recovering_command :: "'e conn_env \<Rightarrow> conn_command \<Rightarrow> 'e conn_actor \<Rightarrow> 'e conn_actor" where
  "recovering_command env (CloseCmd i) a = actor_returns (shutdown env i a)"
| "recovering_command env (LostCmd e) a =
     (if \<not> is_recoverable e then enter env PhFailedPermanent (publish_permanent_failure e a) else a)"
| "recovering_command env (OpenPublisherCmd i) a = not_ready i a"
| "recovering_command env (OpenConsumerCmd i) a = not_ready i a"
| "recovering_command env StartCmd a = a"

fun handle_permanent_failure :: "'e conn_env \<Rightarrow> instant \<Rightarrow> conn_command \<Rightarrow> 'e conn_actor \<Rightarrow> 'e conn_actor" where
  "handle_permanent_failure env now StartCmd a = enter_connecting env now 0 a"
| "handle_permanent_failure env now (LostCmd _) a = enter env PhFailedPermanent a"
| "handle_permanent_failure env now (OpenPublisherCmd i) a = enter env PhFailedPermanent (not_ready i a)"
| "handle_permanent_failure env now (OpenConsumerCmd i) a = enter env PhFailedPermanent (not_ready i a)"
| "handle_permanent_failure env now (CloseCmd i) a = actor_returns (shutdown env i a)"

definition phase_command :: "'e conn_env \<Rightarrow> instant \<Rightarrow> conn_command \<Rightarrow> 'e conn_actor \<Rightarrow> 'e conn_actor" where
  "phase_command env now c a =
     (case ca_phase a of
        PhDisconnected \<Rightarrow> handle_disconnected env now c a
      | PhConnecting _ \<Rightarrow> connecting_command env now c a
      | PhReady \<Rightarrow> ready_command env c a
      | PhRecovering _ _ \<Rightarrow> recovering_command env c a
      | PhFailedPermanent \<Rightarrow> handle_permanent_failure env now c a
      | PhStopped \<Rightarrow> a)"

text \<open>Every sender is gone.\<close>

definition commands_closed :: "'e conn_env \<Rightarrow> 'e conn_actor \<Rightarrow> 'e conn_actor" where
  "commands_closed env a =
     (if ca_phase a = PhStopped then a
      else actor_returns (close_connection env
        (if ca_phase a = PhReady then ca_metrics_update clear_connection_blocked (a\<lparr>ca_events := None\<rparr>) else a)))"

subsection \<open>One event\<close>

datatype conn_event =
    Sends conn_command
  | HandlesGone
  | Receives instant
  | ConnectEnds "nat transport_result"
  | ConnectTimesOut instant
  | BackoffElapses instant
  | StreamYields "transport_event option"

fun conn_step :: "'e conn_env \<Rightarrow> conn_event \<Rightarrow> 'e conn_actor \<Rightarrow> 'e conn_actor" where
  "conn_step env (Sends c) a =
     (if ca_phase a \<noteq> PhStopped \<and> ca_handles a \<and> length (ca_mailbox a) < CONNECTION_COMMAND_CAPACITY
      then a\<lparr>ca_mailbox := ca_mailbox a @ [c], ca_accepted := ca_accepted a @ command_slots [c]\<rparr> else a)"
| "conn_step env HandlesGone a = a\<lparr>ca_handles := False\<rparr>"
| "conn_step env (Receives now) a =
     (case ca_mailbox a of
        c # cs \<Rightarrow> phase_command env now c (a\<lparr>ca_mailbox := cs\<rparr>)
      | [] \<Rightarrow> if ca_handles a then a else commands_closed env a)"
| "conn_step env (ConnectEnds r) a =
     (case ca_phase a of PhConnecting previous_failures \<Rightarrow> connect_ends env previous_failures r a | _ \<Rightarrow> a)"
| "conn_step env (ConnectTimesOut now) a =
     (case ca_phase a of
        PhConnecting previous_failures \<Rightarrow>
          if ca_connect_deadline a \<le> now
          then connect_ends env previous_failures (Inl (te_connection ''connect attempt timed out'')) a else a
      | _ \<Rightarrow> a)"
| "conn_step env (BackoffElapses now) a =
     (case ca_phase a of PhRecovering failures _ \<Rightarrow> enter_connecting env now failures a | _ \<Rightarrow> a)"
| "conn_step env (StreamYields ev) a =
     (if ca_phase a = PhReady \<and> ca_events a \<noteq> None then ready_event env (next_transport_event ev) a else a)"

text \<open>What the calls of a handle make of their answer; \<open>None\<close> is a command that could not be sent.\<close>

definition handle_open :: "conn_reply option \<Rightarrow> unit + nat" where
  "handle_open r = (case r of Some (OpenReply (Inr c)) \<Rightarrow> Inr c | _ \<Rightarrow> Inl ())"

definition handle_open_admin :: "conn_reply option \<Rightarrow> nat transport_result" where
  "handle_open_admin r = (case r of Some (OpenReply result) \<Rightarrow> result | _ \<Rightarrow> Inl (te_closed ''connection actor is closed''))"

section \<open>Invariants\<close>

lemmas conn_helper_defs = send_state_def reply_def actor_returns_def publish_permanent_failure_def close_connection_def
  shutdown_def not_ready_def route_loss_def enter_def arm_connect_def enter_connecting_def connect_ends_def
  connection_dies_def ready_open_def commands_closed_def phase_command_def Let_def

text \<open>What an invariant of the actor has to survive: each arm of each handler.\<close>

locale conn_property =
  fixes env :: "'e conn_env" and P :: "'e conn_actor \<Rightarrow> bool"
  assumes received: "P (a\<lparr>ca_mailbox := c # cs\<rparr>) \<Longrightarrow> P (phase_command env now c (a\<lparr>ca_mailbox := cs\<rparr>))"
    and senders_gone: "P a \<Longrightarrow> ca_mailbox a = [] \<Longrightarrow> P (commands_closed env a)"
    and sent: "P a \<Longrightarrow> ca_phase a \<noteq> PhStopped \<Longrightarrow>
      P (a\<lparr>ca_mailbox := ca_mailbox a @ [c], ca_accepted := ca_accepted a @ command_slots [c]\<rparr>)"
    and dropped: "P a \<Longrightarrow> P (a\<lparr>ca_handles := False\<rparr>)"
    and connect: "P a \<Longrightarrow> ca_phase a = PhConnecting n \<Longrightarrow> P (connect_ends env n r a)"
    and backoff: "P a \<Longrightarrow> ca_phase a = PhRecovering n err \<Longrightarrow> P (enter_connecting env now n a)"
    and event: "P a \<Longrightarrow> ca_phase a = PhReady \<Longrightarrow> P (ready_event env ev a)"
begin

lemma conn_step_preserves:
  assumes "P a" shows "P (conn_step env ev a)"
proof (cases ev)
  case (Receives now)
  show ?thesis
  proof (cases "ca_mailbox a")
    case (Cons c cs)
    then have "a\<lparr>ca_mailbox := c # cs\<rparr> = a"
      by (cases a) simp
    then have "P (a\<lparr>ca_mailbox := c # cs\<rparr>)"
      using assms by simp
    then show ?thesis
      using Receives Cons received by simp
  qed (use Receives assms senders_gone in auto)
qed (use assms sent dropped connect backoff event in \<open>auto split: conn_phase.splits\<close>)

end

sublocale conn_property \<subseteq> invariant_machine "conn_step env" P
  by unfold_locales (rule conn_step_preserves)

subsection \<open>Connections and replies\<close>

definition conn_owned :: "'e conn_actor \<Rightarrow> bool" where
  "conn_owned a \<longleftrightarrow> (ca_connection a \<noteq> None \<longleftrightarrow> ca_phase a = PhReady) \<and>
     (ca_phase a = PhReady \<longrightarrow> ca_events a = ca_connection a) \<and>
     mset (ca_opened a) = mset (ca_closed a) + mset (case ca_connection a of None \<Rightarrow> [] | Some c \<Rightarrow> [c])"

definition conn_answered :: "'e conn_actor \<Rightarrow> bool" where
  "conn_answered a \<longleftrightarrow> mset (ca_accepted a) = mset (map fst (ca_replies a)) + mset (command_slots (ca_mailbox a)) \<and>
     (ca_phase a = PhStopped \<longrightarrow> ca_mailbox a = [])"

lemma command_slots_simps [simp]:
  "command_slots [] = []"
  "command_slots (c # cs) = (case command_slot c of None \<Rightarrow> [] | Some i \<Rightarrow> [i]) @ command_slots cs"
  "command_slots (cs @ ds) = command_slots cs @ command_slots ds"
  by (auto simp: command_slots_def List.map_filter_def split: option.splits)

lemma conn_owned_command: "conn_owned a \<Longrightarrow> conn_owned (phase_command env now c a)"
  by (cases "ca_phase a"; cases c)
    (auto simp: conn_owned_def conn_helper_defs split: option.splits prod.splits sum.splits)

interpretation conn_ownership: conn_property env conn_owned
proof
  show "conn_owned (phase_command env now c (a\<lparr>ca_mailbox := cs\<rparr>))" if "conn_owned (a\<lparr>ca_mailbox := c # cs\<rparr>)" for a c cs now
    by (rule conn_owned_command) (use that in \<open>simp add: conn_owned_def\<close>)
  show "conn_owned (ready_event env ev a)" if "conn_owned a" "ca_phase a = PhReady" for a ev
    using that by (cases ev) (auto simp: conn_owned_def conn_helper_defs split: option.splits)
qed (auto simp: conn_owned_def conn_helper_defs split: sum.splits option.splits)

interpretation conn_replies: conn_property env conn_answered
proof
  show "conn_answered (phase_command env now c (a\<lparr>ca_mailbox := cs\<rparr>))"
    if "conn_answered (a\<lparr>ca_mailbox := c # cs\<rparr>)" for a c cs now
    using that by (cases "ca_phase a"; cases c)
      (auto simp: conn_answered_def conn_helper_defs comp_def split: option.splits prod.splits sum.splits)
  show "conn_answered (ready_event env ev a)" if "conn_answered a" "ca_phase a = PhReady" for a ev
    using that by (cases ev) (auto simp: conn_answered_def conn_helper_defs split: option.splits)
qed (auto simp: conn_answered_def conn_helper_defs split: sum.splits option.splits)

subsection \<open>The published states\<close>

text \<open>The transitions of the observable lifecycle.\<close>

fun lifecycle_next :: "'e conn_env \<Rightarrow> connection_state \<Rightarrow> connection_state \<Rightarrow> bool" where
  "lifecycle_next env Disconnected st \<longleftrightarrow> st = Connecting 1 \<or> st = ClosedState"
| "lifecycle_next env (Connecting n) st \<longleftrightarrow>
     (\<exists>g. st = ReadyAt g) \<or> (\<exists>r. st = Recovering n (cv_jitter env (delay_for_failure (cv_policy env) n)) r) \<or>
     (\<exists>k r. st = FailedPermanent k r) \<or> st = ClosedState"
| "lifecycle_next env (ReadyAt g) st \<longleftrightarrow>
     (\<exists>r. st = Recovering 1 (cv_jitter env (delay_for_failure (cv_policy env) 1)) r) \<or>
     (\<exists>k r. st = FailedPermanent k r) \<or> st = ClosedState"
| "lifecycle_next env (Recovering n d r) st \<longleftrightarrow>
     st = Connecting (sat_add n 1) \<or> (\<exists>k r. st = FailedPermanent k r) \<or> st = ClosedState"
| "lifecycle_next env (FailedPermanent k r) st \<longleftrightarrow> st = Connecting 1 \<or> st = ClosedState"
| "lifecycle_next env ClosedState st \<longleftrightarrow> False"

text \<open>What the phase of the actor says about the last published state; a stopped actor may leave any.\<close>

fun phase_shows :: "'e conn_env \<Rightarrow> conn_phase \<Rightarrow> u64 \<Rightarrow> connection_state \<Rightarrow> bool" where
  "phase_shows env PhDisconnected g st \<longleftrightarrow> st = Disconnected"
| "phase_shows env (PhConnecting n) g st \<longleftrightarrow> st = Connecting (sat_add n 1)"
| "phase_shows env PhReady g st \<longleftrightarrow> st = ReadyAt g"
| "phase_shows env (PhRecovering n e) g st \<longleftrightarrow>
     st = Recovering n (cv_jitter env (delay_for_failure (cv_policy env) n)) (te_message e)"
| "phase_shows env PhFailedPermanent g st \<longleftrightarrow> (\<exists>k r. st = FailedPermanent k r)"
| "phase_shows env PhStopped g st \<longleftrightarrow> True"

definition conn_lifecycle :: "'e conn_env \<Rightarrow> 'e conn_actor \<Rightarrow> bool" where
  "conn_lifecycle env a \<longleftrightarrow> ca_states a \<noteq> [] \<and> hd (ca_states a) = Disconnected \<and>
     successively (lifecycle_next env) (ca_states a) \<and> phase_shows env (ca_phase a) (ca_generation a) (last (ca_states a))"

lemma sat_add_zero_one [simp]: "sat_add (0 :: u32) 1 = 1"
  by (simp add: sat_add_def)

lemma conn_lifecycle_command: "conn_lifecycle env a \<Longrightarrow> conn_lifecycle env (phase_command env now c a)"
  by (cases "ca_phase a"; cases c)
    (auto simp: conn_lifecycle_def conn_helper_defs successively_append_iff split: option.splits prod.splits sum.splits)

interpretation conn_published: conn_property env "conn_lifecycle env"
proof
  show "conn_lifecycle env (phase_command env now c (a\<lparr>ca_mailbox := cs\<rparr>))"
    if "conn_lifecycle env (a\<lparr>ca_mailbox := c # cs\<rparr>)" for a c cs now
    by (rule conn_lifecycle_command) (use that in \<open>simp add: conn_lifecycle_def\<close>)
  show "conn_lifecycle env (ready_event env ev a)" if "conn_lifecycle env a" "ca_phase a = PhReady" for a ev
    using that by (cases ev) (auto simp: conn_lifecycle_def conn_helper_defs successively_append_iff split: option.splits)
qed (auto simp: conn_lifecycle_def conn_helper_defs successively_append_iff split: sum.splits option.splits)

subsection \<open>Generations\<close>

definition ready_generations :: "connection_state list \<Rightarrow> u64 list" where
  "ready_generations sts = List.map_filter (\<lambda>st. case st of ReadyAt g \<Rightarrow> Some g | _ \<Rightarrow> None) sts"

definition conn_generations :: "'e conn_actor \<Rightarrow> bool" where
  "conn_generations a \<longleftrightarrow>
     (let n = length (ready_generations (ca_states a)) in
      n < 2 ^ 64 \<longrightarrow> ready_generations (ca_states a) = map of_nat [1..<Suc n] \<and> ca_generation a = of_nat n)"

lemma ready_generations_simps [simp]:
  "ready_generations [] = []"
  "ready_generations (sts @ sts') = ready_generations sts @ ready_generations sts'"
  "ready_generations (st # sts) = (case st of ReadyAt g \<Rightarrow> [g] | _ \<Rightarrow> []) @ ready_generations sts"
  by (auto simp: ready_generations_def List.map_filter_def split: connection_state.splits)

lemma sat_add_of_nat: "Suc n < 2 ^ 64 \<Longrightarrow> sat_add (of_nat n :: u64) 1 = of_nat (Suc n)"
  by (simp add: sat_add_def unat_of_nat)

lemma conn_generations_command: "conn_generations a \<Longrightarrow> conn_generations (phase_command env now c a)"
  by (cases "ca_phase a"; cases c)
    (auto simp: conn_generations_def conn_helper_defs split: option.splits prod.splits sum.splits)

interpretation conn_numbering: conn_property env conn_generations
proof
  show "conn_generations (phase_command env now c (a\<lparr>ca_mailbox := cs\<rparr>))"
    if "conn_generations (a\<lparr>ca_mailbox := c # cs\<rparr>)" for a c cs now
    by (rule conn_generations_command) (use that in \<open>simp add: conn_generations_def\<close>)
  show "conn_generations (ready_event env ev a)" if "conn_generations a" "ca_phase a = PhReady" for a ev
    using that by (cases ev) (auto simp: conn_generations_def conn_helper_defs split: option.splits)
qed (auto simp: conn_generations_def conn_helper_defs sat_add_of_nat split: sum.splits option.splits)

section \<open>Properties\<close>

text \<open>The state after the events \<open>es\<close>.\<close>

definition conn_run :: "'e conn_env \<Rightarrow> conn_event list \<Rightarrow> metrics \<Rightarrow> 'e \<Rightarrow> 'e conn_actor" where
  "conn_run env es m e = run_events (conn_step env) es (conn_actor_spawn m e)"

lemma conn_spawn_ok [simp]:
  "conn_owned (conn_actor_spawn m e)" "conn_answered (conn_actor_spawn m e)"
  "conn_lifecycle env (conn_actor_spawn m e)" "conn_generations (conn_actor_spawn m e)"
  by (simp_all add: conn_owned_def conn_answered_def conn_lifecycle_def conn_generations_def conn_actor_spawn_def)

lemma conn_run_ok:
  "conn_owned (conn_run env es m e)" "conn_answered (conn_run env es m e)"
  "conn_lifecycle env (conn_run env es m e)" "conn_generations (conn_run env es m e)"
  unfolding conn_run_def
  by (rule conn_ownership.run_inv conn_replies.run_inv conn_published.run_inv conn_numbering.run_inv, rule conn_spawn_ok)+

text \<open>(C10) The published states of a connection follow its lifecycle: from the initial one every state is
  followed only by one the lifecycle allows. A recovery announces the number of the attempt that failed and the
  delay of the back-off policy for it, the attempt after it has the next number, a loss of a ready connection
  starts again at one, and nothing follows a close.\<close>

theorem connection_lifecycle:
  "let a = conn_run env es m e in hd (ca_states a) = Disconnected \<and> successively (lifecycle_next env) (ca_states a) \<and>
     phase_shows env (ca_phase a) (ca_generation a) (last (ca_states a))"
  using conn_run_ok(3) [of env es m e] by (simp add: conn_lifecycle_def Let_def)

text \<open>(C11) A connection has one owner and is closed once. In every run the actor holds a connection exactly in the
  ready phase, and the connections it was given are those it closed and the one it holds: no reconnect, loss or
  shutdown leaks one or closes one twice.\<close>

theorem connection_single_owner:
  "let a = conn_run env es m e in (ca_connection a \<noteq> None \<longleftrightarrow> ca_phase a = PhReady) \<and>
     mset (ca_opened a) = mset (ca_closed a) + mset (case ca_connection a of None \<Rightarrow> [] | Some c \<Rightarrow> [c])"
  using conn_run_ok(1) [of env es m e] by (simp add: conn_owned_def Let_def)

text \<open>(C12) No caller is left waiting. Once the actor stopped, every command that was accepted with an answer to
  give was answered exactly once, with a result or by dropping its sender.\<close>

theorem connection_commands_answered:
  assumes "ca_phase (conn_run env es m e) = PhStopped"
  shows "mset (map fst (ca_replies (conn_run env es m e))) = mset (ca_accepted (conn_run env es m e))"
  using conn_run_ok(2) [of env es m e] assms by (simp add: conn_answered_def)

definition demo_conn_env :: "unit conn_env" where
  "demo_conn_env = \<lparr>cv_open_publisher = (\<lambda>c e. (Some (Inr c), e)), cv_open_consumer = (\<lambda>_ e. (None, e)),
     cv_close = (\<lambda>_ e. e), cv_policy = recovery_policy_default, cv_jitter = identity_jitter\<rparr>"

definition demo_conn :: "conn_event list \<Rightarrow> unit conn_actor" where
  "demo_conn es = conn_run demo_conn_env es metrics_default ()"

definition demo_reconnect :: "conn_event list" where
  "demo_reconnect = [Sends StartCmd, Receives 0, ConnectEnds (Inr 4), Sends (OpenConsumerCmd 7), Receives 1,
     BackoffElapses 2, ConnectEnds (Inr 5)]"

lemmas demo_conn_eval = demo_conn_def conn_run_def demo_reconnect_def demo_conn_env_def conn_actor_spawn_def conn_helper_defs
  CONNECTION_COMMAND_CAPACITY_def bounded_channel_operation_def ok_or_def is_recoverable_def te_connection_def
  transport_error_new_def next_transport_event_def sat_add_def

theorem connection_commands_answered_witness:
  "mset (map fst (ca_replies (demo_conn (demo_reconnect @ [Sends (CloseCmd 8), Sends (OpenPublisherCmd 9), Receives 3])))) = {#7, 8, 9#}"
proof -
  let ?a = "demo_conn (demo_reconnect @ [Sends (CloseCmd 8), Sends (OpenPublisherCmd 9), Receives 3])"
  have v: "ca_phase ?a = PhStopped" "ca_accepted ?a = [7, 8, 9]"
    by (simp_all add: demo_conn_eval)
  show ?thesis
    using connection_commands_answered [of demo_conn_env "demo_reconnect @ [Sends (CloseCmd 8), Sends (OpenPublisherCmd 9), Receives 3]"
      metrics_default "()"] v by (simp add: demo_conn_def)
qed

text \<open>(C13) Generations number the connections. The generations published by a connection actor are one, two, three
  and so on without a gap or a repetition, so a later connection always has the larger one.\<close>

theorem connection_generations_count:
  assumes "ready_generations (ca_states (conn_run env es m e)) = gs" "length gs < 2 ^ 64"
  shows "gs = map of_nat [1..<Suc (length gs)] \<and> sorted_wrt (<) gs \<and> ca_generation (conn_run env es m e) = of_nat (length gs)"
proof -
  have eq: "gs = map of_nat [1..<Suc (length gs)]" "ca_generation (conn_run env es m e) = of_nat (length gs)"
    using conn_run_ok(4) [of env es m e] assms unfolding conn_generations_def Let_def by blast+
  have "sorted_wrt (\<lambda>x y. (of_nat x :: u64) < of_nat y) [1..<Suc (length gs)]"
    by (rule sorted_wrt_mono_rel [OF _ sorted_wrt_upt]) (use assms in \<open>auto simp: word_less_nat_alt unat_of_nat\<close>)
  then have "sorted_wrt (<) (map of_nat [1..<Suc (length gs)] :: u64 list)"
    unfolding sorted_wrt_map .
  then show ?thesis
    using eq by metis
qed

theorem connection_generations_count_witness:
  "ready_generations (ca_states (demo_conn demo_reconnect)) = [1, 2] \<and> ca_generation (demo_conn demo_reconnect) = 2"
proof -
  have l: "ready_generations (ca_states (demo_conn demo_reconnect)) = [1, 2]"
    by (simp add: demo_conn_eval)
  then show ?thesis
    using connection_generations_count [of demo_conn_env demo_reconnect metrics_default "()" "[1, 2]"]
    by (simp add: demo_conn_def)
qed

section \<open>Two behaviours the code does not mean\<close>

text \<open>Two connection actors over the registry they share.\<close>

fun shared_step :: "'e conn_env \<Rightarrow> bool \<times> conn_event \<Rightarrow> 'e conn_actor \<times> 'e conn_actor \<Rightarrow> 'e conn_actor \<times> 'e conn_actor" where
  "shared_step env (True, ev) (a, b) = (let a' = conn_step env ev a in (a', b\<lparr>ca_metrics := ca_metrics a'\<rparr>))"
| "shared_step env (False, ev) (a, b) = (let b' = conn_step env ev b in (a\<lparr>ca_metrics := ca_metrics b'\<rparr>, b'))"


text \<open>A request for a channel every nine seconds.\<close>

definition polls :: "nat \<Rightarrow> conn_event list" where
  "polls n = concat (map (\<lambda>k. [Sends (OpenPublisherCmd k), Receives (from_secs (9 * k))]) [1..<Suc n])"

definition attempt_runs :: "instant \<Rightarrow> 'e conn_actor \<Rightarrow> bool" where
  "attempt_runs now a \<longleftrightarrow> ca_phase a = PhConnecting 0 \<and> ca_connect_deadline a = now + CONNECT_TIMEOUT \<and>
     ca_mailbox a = [] \<and> ca_handles a"

lemma attempt_runs_poll:
  "attempt_runs t a \<Longrightarrow> attempt_runs now (run_events (conn_step env) [Sends (OpenPublisherCmd k), Receives now] a)"
  by (simp add: attempt_runs_def conn_helper_defs CONNECTION_COMMAND_CAPACITY_def)

lemma attempt_runs_start:
  "attempt_runs 0 (run_events (conn_step env) [Sends StartCmd, Receives 0] (conn_actor_spawn m e))"
  by (simp add: attempt_runs_def conn_actor_spawn_def conn_helper_defs CONNECTION_COMMAND_CAPACITY_def)

lemma attempt_runs_polls:
  assumes "attempt_runs 0 a" shows "attempt_runs (from_secs (9 * n)) (run_events (conn_step env) (polls n) a)"
proof (induction n)
  case (Suc n)
  have split: "polls (Suc n) = polls n @ [Sends (OpenPublisherCmd (Suc n)), Receives (from_secs (9 * Suc n))]"
    by (simp add: polls_def)
  show ?case
    unfolding split conn_replies.run_append by (rule attempt_runs_poll) (rule Suc)
qed (use assms in \<open>simp add: polls_def from_secs_def\<close>)


end
