(* ===== verification/Delivery.thy ===== *)
theory Delivery
  imports Publisher Attempts
begin

text \<open>
  Deliveries and their settlement tokens (\<^verbatim>\<open>consumer/delivery.rs\<close>): the state a token goes
  through, the fire-and-forget settlement that claims it and hands a command to the actor, and the
  consumer errors. Tokens are shared between the embedder, the actor and its ledgers: they live in a
  store, a list indexed by token number. Two settlements that race on one token are interleaved
  step by step.
\<close>

section \<open>Tokens\<close>

datatype delivery_state = Pending | Acked | Rejected | Lost | AutoAcked

fun delivery_state_code :: "delivery_state \<Rightarrow> u8" where
  "delivery_state_code Pending = 0"
| "delivery_state_code Acked = 2"
| "delivery_state_code Rejected = 3"
| "delivery_state_code Lost = 4"
| "delivery_state_code AutoAcked = 5"

definition delivery_state_of :: "u8 \<Rightarrow> delivery_state" where
  "delivery_state_of v =
     (if v = delivery_state_code Acked then Acked
      else if v = delivery_state_code Rejected then Rejected
      else if v = delivery_state_code Lost then Lost
      else if v = delivery_state_code AutoAcked then AutoAcked
      else Pending)"

type_synonym connection_key = bytes

record delivery_identity =
  di_subscription :: string
  di_connection_key :: connection_key
  di_generation :: u64
  di_channel_id :: u16
  di_delivery_tag :: u64

record token =
  tk_identity :: delivery_identity
  tk_message_id :: string
  tk_correlation_id :: "string option"
  tk_payload :: bytes
  tk_headers :: headers
  tk_attempts :: u32
  tk_reserved_at :: instant
  tk_state :: u8
  tk_settling :: bool
  tk_popped_at :: u64

definition token_new :: "delivery_identity \<Rightarrow> string \<Rightarrow> string option \<Rightarrow> bytes \<Rightarrow> headers \<Rightarrow> u32 \<Rightarrow>
    delivery_state \<Rightarrow> instant \<Rightarrow> token" where
  "token_new identity message_id correlation_id payload hs attempts st now =
     \<lparr>tk_identity = identity, tk_message_id = message_id, tk_correlation_id = correlation_id,
      tk_payload = payload, tk_headers = hs, tk_attempts = attempts, tk_reserved_at = now,
      tk_state = delivery_state_code st, tk_settling = False, tk_popped_at = 0\<rparr>"

definition token_pending :: "delivery_identity \<Rightarrow> string \<Rightarrow> string option \<Rightarrow> bytes \<Rightarrow> headers \<Rightarrow> u32 \<Rightarrow> instant \<Rightarrow> token" where
  "token_pending identity message_id correlation_id payload hs attempts =
     token_new identity message_id correlation_id payload hs attempts Pending"

definition token_auto_acked :: "delivery_identity \<Rightarrow> string \<Rightarrow> string option \<Rightarrow> bytes \<Rightarrow> headers \<Rightarrow> u32 \<Rightarrow> instant \<Rightarrow> token" where
  "token_auto_acked identity message_id correlation_id payload hs attempts =
     token_new identity message_id correlation_id payload hs attempts AutoAcked"

definition token_state :: "token \<Rightarrow> delivery_state" where
  "token_state t = delivery_state_of (tk_state t)"

text \<open>Nanoseconds since the process anchor \<open>epoch\<close>.\<close>

definition mark_popped :: "instant \<Rightarrow> instant \<Rightarrow> token \<Rightarrow> token" where
  "mark_popped epoch now t = t\<lparr>tk_popped_at := u64_clamp (now - epoch)\<rparr>"

definition controller_latency :: "instant \<Rightarrow> instant \<Rightarrow> token \<Rightarrow> duration" where
  "controller_latency epoch now t =
     (if tk_popped_at t = 0 then now - tk_reserved_at t else now - (epoch + unat (tk_popped_at t)))"

type_synonym token_id = nat
type_synonym token_store = "token list"

definition store_token :: "(token \<Rightarrow> token) \<Rightarrow> token_id \<Rightarrow> token_store \<Rightarrow> token_store" where
  "store_token f i ts = ts[i := f (ts ! i)]"

section \<open>Errors and settlements\<close>

datatype settlement = AckS | ReleaseS duration | RejectS bool

datatype consumer_error_kind =
  ConsumerClosed | StaleGeneration | SourceReplaced | AlreadySettled | AlreadySettling | SettlementInProgress |
  TransportFailure | PublishFailure | MissingPublisher | InvalidSubscription | MaxAttemptsExceeded | InvalidDelay

record consumer_error =
  ce_kind :: consumer_error_kind
  ce_message :: string
  ce_transport_source :: "transport_error option"

definition consumer_error_new :: "consumer_error_kind \<Rightarrow> string \<Rightarrow> consumer_error" where
  "consumer_error_new k m = \<lparr>ce_kind = k, ce_message = m, ce_transport_source = None\<rparr>"

definition consumer_error_from_transport :: "transport_error \<Rightarrow> consumer_error" where
  "consumer_error_from_transport e = \<lparr>ce_kind = TransportFailure, ce_message = te_message e, ce_transport_source = Some e\<rparr>"

definition consumer_error_closed :: consumer_error where
  "consumer_error_closed = consumer_error_new ConsumerClosed ''consumer set is closed''"

definition consumer_error_already_settled :: consumer_error where
  "consumer_error_already_settled = consumer_error_new AlreadySettled ''delivery token is already terminal or transitioning''"

datatype settlement_error_kind = SettleAlreadySettled | SettleChannelFull | SettleClosed

fun map_settle_error :: "settlement_error_kind \<Rightarrow> consumer_error" where
  "map_settle_error SettleAlreadySettled = consumer_error_already_settled"
| "map_settle_error SettleChannelFull = consumer_error_new SettlementInProgress ''settlement command channel is full''"
| "map_settle_error SettleClosed = consumer_error_closed"

record settlement_error =
  sx_delivery_tag :: u64
  sx_subscription :: string
  sx_kind :: consumer_error_kind
  sx_message :: string

datatype control_command =
    SettleCommand token_id settlement duration
  | SettleThroughCommand token_id duration
  | GetPrefetchStats nat

text \<open>The control channel of an actor: its queue, its bound, and whether the actor still receives.\<close>

record control =
  ct_queue :: "control_command list"
  ct_capacity :: nat
  ct_open :: bool

definition control_send :: "control_command \<Rightarrow> control \<Rightarrow> (settlement_error_kind + unit) \<times> control" where
  "control_send c ct =
     (if \<not> ct_open ct then (Inl SettleClosed, ct)
      else if length (ct_queue ct) \<ge> ct_capacity ct then (Inl SettleChannelFull, ct)
      else (Inr (), ct\<lparr>ct_queue := ct_queue ct @ [c]\<rparr>))"

fun settlement_terminal :: "settlement \<Rightarrow> delivery_state" where
  "settlement_terminal AckS = Acked"
| "settlement_terminal (ReleaseS d) = (if d = 0 then Rejected else Acked)"
| "settlement_terminal (RejectS _) = Rejected"

definition try_settle :: "instant \<Rightarrow> instant \<Rightarrow> settlement \<Rightarrow> token_id \<Rightarrow> token_store \<times> control \<Rightarrow>
    (settlement_error_kind + unit) \<times> token_store \<times> control" where
  "try_settle epoch now s i tc =
     (case tc of (ts, ct) \<Rightarrow>
      if tk_state (ts ! i) \<noteq> delivery_state_code Pending then (Inl SettleAlreadySettled, ts, ct)
      else
        let ts1 = store_token (\<lambda>t. t\<lparr>tk_state := delivery_state_code (settlement_terminal s)\<rparr>) i ts in
        (case control_send (SettleCommand i s (controller_latency epoch now (ts1 ! i))) ct of
           (Inr _, ct1) \<Rightarrow> (Inr (), ts1, ct1)
         | (Inl SettleClosed, ct1) \<Rightarrow>
             (Inl SettleClosed, store_token (\<lambda>t. t\<lparr>tk_state := delivery_state_code Lost\<rparr>) i ts1, ct1)
         | (Inl err, ct1) \<Rightarrow>
             (Inl err, store_token (\<lambda>t. t\<lparr>tk_state := delivery_state_code Pending\<rparr>) i ts1, ct1)))"

definition ack :: "instant \<Rightarrow> instant \<Rightarrow> token_id \<Rightarrow> token_store \<times> control \<Rightarrow> (consumer_error + unit) \<times> token_store \<times> control" where
  "ack epoch now i tc = (case try_settle epoch now AckS i tc of (r, tc1) \<Rightarrow> (map_err map_settle_error r, tc1))"

definition release_delivery :: "instant \<Rightarrow> instant \<Rightarrow> duration \<Rightarrow> token_id \<Rightarrow> token_store \<times> control \<Rightarrow>
    (consumer_error + unit) \<times> token_store \<times> control" where
  "release_delivery epoch now delay i tc = (case try_settle epoch now (ReleaseS delay) i tc of (r, tc1) \<Rightarrow> (map_err map_settle_error r, tc1))"

definition reject :: "instant \<Rightarrow> instant \<Rightarrow> bool \<Rightarrow> token_id \<Rightarrow> token_store \<times> control \<Rightarrow> (consumer_error + unit) \<times> token_store \<times> control" where
  "reject epoch now requeue i tc = (case try_settle epoch now (RejectS requeue) i tc of (r, tc1) \<Rightarrow> (map_err map_settle_error r, tc1))"

text \<open>The embedder's batch settlement only enqueues; \<^verbatim>\<open>map_try_send_error\<close> keeps the kind.\<close>

definition try_settle_through :: "instant \<Rightarrow> instant \<Rightarrow> token_id \<Rightarrow> token_store \<Rightarrow> control \<Rightarrow> (settlement_error_kind + unit) \<times> control" where
  "try_settle_through epoch now i ts ct = control_send (SettleThroughCommand i (controller_latency epoch now (ts ! i))) ct"

section \<open>Racing settlements\<close>

text \<open>
  Callers on several threads settle one token. Each is at one of the atomic points of
  \<open>try_settle\<close>: before its compare-and-swap, after winning it, or finished. Between two
  points any other caller may run, the channel may be full or closed as it likes, and the
  actor may store any state in the token without a compare-and-swap: the terminal state or
  \<open>Lost\<close> when it concludes a settlement, and \<open>Pending\<close> when an accepted settlement failed
  and may be tried again.
\<close>

datatype caller = Ready settlement | Won settlement | Finished "settlement_error_kind + unit"

datatype send_result = SentOk | SentFull | SentClosed

record race =
  rc_state :: delivery_state
  rc_callers :: "caller list"
  rc_commands :: "settlement list"

datatype race_event = CallerMoves nat send_result | ActorStores delivery_state

fun race_step :: "race_event \<Rightarrow> race \<Rightarrow> race" where
  "race_step (CallerMoves i res) r =
     (if i < length (rc_callers r) then
        (case rc_callers r ! i of
           Ready s \<Rightarrow>
             if rc_state r = Pending
             then r\<lparr>rc_state := settlement_terminal s, rc_callers := (rc_callers r)[i := Won s]\<rparr>
             else r\<lparr>rc_callers := (rc_callers r)[i := Finished (Inl SettleAlreadySettled)]\<rparr>
         | Won s \<Rightarrow>
             (case res of
                SentOk \<Rightarrow> r\<lparr>rc_commands := rc_commands r @ [s], rc_callers := (rc_callers r)[i := Finished (Inr ())]\<rparr>
              | SentFull \<Rightarrow> r\<lparr>rc_state := Pending, rc_callers := (rc_callers r)[i := Finished (Inl SettleChannelFull)]\<rparr>
              | SentClosed \<Rightarrow> r\<lparr>rc_state := Lost, rc_callers := (rc_callers r)[i := Finished (Inl SettleClosed)]\<rparr>)
         | Finished _ \<Rightarrow> r)
      else r)"
| "race_step (ActorStores st) r = r\<lparr>rc_state := st\<rparr>"

fun winner :: "caller \<Rightarrow> bool" where
  "winner (Won s) = True"
| "winner (Finished (Inr _)) = True"
| "winner _ = False"

fun accepted :: "caller \<Rightarrow> bool" where
  "accepted (Finished (Inr _)) = True"
| "accepted _ = False"

text \<open>A claim on the token is a caller that won it, or the chance to win it while it is pending.\<close>

definition claims :: "race \<Rightarrow> nat" where
  "claims r = length (filter winner (rc_callers r)) + of_bool (rc_state r = Pending)"

definition race_inv :: "race \<Rightarrow> bool" where
  "race_inv r \<longleftrightarrow> length (rc_commands r) = length (filter accepted (rc_callers r))"

lemma delivery_state_roundtrip [simp]: "delivery_state_of (delivery_state_code st) = st"
  by (cases st) (auto simp: delivery_state_of_def)

lemma settlement_terminal_not_pending: "settlement_terminal s \<noteq> Pending"
  by (cases s) auto

text \<open>Updating the moving caller, seen as an update in the middle of the list.\<close>

lemma caller_split:
  assumes "i < length cs"
  obtains xs ys where "cs = xs @ cs ! i # ys" and "\<And>d. cs[i := d] = xs @ d # ys"
  using assms id_take_nth_drop upd_conv_take_nth_drop by metis

interpretation settlement_race: invariant_machine race_step race_inv
proof
  fix r :: race and e :: race_event
  assume inv: "race_inv r"
  show "race_inv (race_step e r)"
  proof (cases e)
    case (CallerMoves i res)
    show ?thesis
    proof (cases "i < length (rc_callers r)")
      case True
      obtain xs ys where split: "rc_callers r = xs @ rc_callers r ! i # ys"
        and upd: "\<And>d. (rc_callers r)[i := d] = xs @ d # ys" using caller_split [OF True] by blast
      have "length (filter accepted (rc_callers r)) = length (filter accepted (xs @ rc_callers r ! i # ys))"
        using split by simp
      with inv True upd show ?thesis
        unfolding race_inv_def CallerMoves by (auto split: caller.splits send_result.splits)
    qed (use inv CallerMoves in simp)
  qed (use inv in \<open>simp add: race_inv_def\<close>)
qed

text \<open>Only the actor creates a claim, by storing \<open>Pending\<close>.\<close>

lemma race_step_claims: "claims (race_step e r) \<le> claims r + of_bool (e = ActorStores Pending)"
proof (cases e)
  case (CallerMoves i res)
  show ?thesis
  proof (cases "i < length (rc_callers r)")
    case True
    obtain xs ys where split: "rc_callers r = xs @ rc_callers r ! i # ys"
      and upd: "\<And>d. (rc_callers r)[i := d] = xs @ d # ys" using caller_split [OF True] by blast
    have "length (filter winner (rc_callers r)) = length (filter winner (xs @ rc_callers r ! i # ys))"
      using split by simp
    with True upd settlement_terminal_not_pending show ?thesis
      unfolding claims_def CallerMoves by (auto split: caller.splits send_result.splits)
  qed (simp add: CallerMoves)
qed (auto simp: claims_def)

lemma race_run_claims:
  "claims (run_events race_step sched r) \<le> claims r + length (filter (\<lambda>e. e = ActorStores Pending) sched)"
proof (induction sched arbitrary: r)
  case (Cons e sched)
  show ?case
    using Cons [of "race_step e r"] race_step_claims [of e r] by (cases "e = ActorStores Pending") simp_all
qed simp

lemma accepted_winner: "accepted c \<Longrightarrow> winner c"
  by (elim accepted.elims) auto

text \<open>The two points of a caller that nobody interrupts are one call of \<open>try_settle\<close>: the same answer, the same
  state of the token, and a command exactly when the call is accepted.\<close>

definition channel_answer :: "control \<Rightarrow> send_result" where
  "channel_answer ct = (if \<not> ct_open ct then SentClosed else if ct_capacity ct \<le> length (ct_queue ct) then SentFull else SentOk)"

lemma race_step_try_settle:
  assumes "i < length ts" and "tk_state (ts ! i) = delivery_state_code st"
  shows "case try_settle epoch now s i (ts, ct) of (answer, ts', ct') \<Rightarrow>
    run_events race_step [CallerMoves 0 (channel_answer ct), CallerMoves 0 (channel_answer ct)]
        \<lparr>rc_state = st, rc_callers = [Ready s], rc_commands = []\<rparr> =
      \<lparr>rc_state = token_state (ts' ! i), rc_callers = [Finished answer],
       rc_commands = (if answer = Inr () then [s] else [])\<rparr>"
proof -
  have "token_state (ts ! i) = st" using assms(2) by (simp add: token_state_def)
  moreover have "delivery_state_code st \<noteq> 0 \<longleftrightarrow> st \<noteq> Pending" by (cases st) auto
  ultimately show ?thesis
    using assms settlement_terminal_not_pending [of s]
    by (auto simp: try_settle_def control_send_def channel_answer_def Let_def)
      (auto simp: store_token_def token_state_def simp flip: delivery_state_code.simps)
qed

section \<open>Properties\<close>

definition demo_token :: token where
  "demo_token = token_pending \<lparr>di_subscription = ''mail'', di_connection_key = [1], di_generation = 3,
     di_channel_id = 1, di_delivery_tag = 7\<rparr> ''m-1'' None [104, 105] [] 1 50"

definition demo_control :: control where
  "demo_control = \<lparr>ct_queue = [], ct_capacity = 1, ct_open = True\<rparr>"


text \<open>What one settlement does, on every branch: an already settled token and the channel stay as
  they are; a full channel leaves the token pending and a closed one marks it lost, neither queueing
  anything; an accepted call makes the token terminal and queues exactly one command.\<close>

lemma try_settle_exact:
  assumes "i < length ts"
  shows "case try_settle epoch now s i (ts, ct) of (r, ts', ct') \<Rightarrow>
    length ts' = length ts \<and> (\<forall>j. j \<noteq> i \<longrightarrow> ts' ! j = ts ! j) \<and>
    (case r of
       Inl SettleAlreadySettled \<Rightarrow> tk_state (ts ! i) \<noteq> 0 \<and> ts' = ts \<and> ct' = ct
     | Inl SettleChannelFull \<Rightarrow> ts' = ts \<and> ct' = ct \<and> ct_open ct \<and> ct_capacity ct \<le> length (ct_queue ct)
     | Inl SettleClosed \<Rightarrow> tk_state (ts ! i) = 0 \<and> token_state (ts' ! i) = Lost \<and> ct' = ct \<and> \<not> ct_open ct
     | Inr _ \<Rightarrow> tk_state (ts ! i) = 0 \<and> token_state (ts' ! i) = settlement_terminal s \<and>
         (\<exists>lat. ct_queue ct' = ct_queue ct @ [SettleCommand i s lat]))"
proof (cases "tk_state (ts ! i) = 0")
  case True
  have "(ts ! i)\<lparr>tk_state := 0\<rparr> = ts ! i" using True by simp
  then have same: "store_token (\<lambda>t. t\<lparr>tk_state := 0\<rparr>) i (store_token (\<lambda>t. t\<lparr>tk_state := c\<rparr>) i ts) = ts" for c
    using assms by (simp add: store_token_def)
  show ?thesis
    using assms True same
    by (auto simp: try_settle_def control_send_def Let_def token_state_def)
      (auto simp: store_token_def simp flip: delivery_state_code.simps)
next
  case False
  then show ?thesis by (simp add: try_settle_def)
qed

end
