(* ===== verification/Prefetch.thy ===== *)
theory Prefetch
  imports Config "HOL-Library.Log_Nat"
begin

text \<open>
  The adaptive prefetch controller of a subscription (\<^verbatim>\<open>consumer/prefetch.rs\<close>). Its average is a
  64-bit float. All its values are non-negative, so a float is a non-negative rational or infinity
  and every operation rounds to the nearest double, ties to even, with gradual underflow.
\<close>

section \<open>Non-negative doubles\<close>

datatype f64 = F64 rat | F64Inf

definition pow2 :: "int \<Rightarrow> rat" where
  "pow2 k = (if 0 \<le> k then 2 ^ nat k else 1 / 2 ^ nat (- k))"

definition ilog2 :: "rat \<Rightarrow> int" where
  "ilog2 q = (case quotient_of q of (a, b) \<Rightarrow>
     let k = int (floorlog 2 (nat a)) - int (floorlog 2 (nat b)) in if pow2 k \<le> q then k else k - 1)"

definition round_even :: "rat \<Rightarrow> int" where
  "round_even q = (let f = \<lfloor>q\<rfloor>; r = q - of_int f in if r > 1 / 2 \<or> (r = 1 / 2 \<and> odd f) then f + 1 else f)"

definition f64_round :: "rat \<Rightarrow> f64" where
  "f64_round q =
     (if q = 0 then F64 0
      else let ulp = pow2 (max (ilog2 q) (- 1022) - 52); v = of_int (round_even (q / ulp)) * ulp
           in if v > 0 \<and> ilog2 v \<ge> 1024 then F64Inf else F64 v)"

fun f64_add :: "f64 \<Rightarrow> f64 \<Rightarrow> f64" where
  "f64_add (F64 a) (F64 b) = f64_round (a + b)"
| "f64_add _ _ = F64Inf"

text \<open>Multiplication by a positive constant.\<close>

fun f64_scale :: "rat \<Rightarrow> f64 \<Rightarrow> f64" where
  "f64_scale c (F64 a) = f64_round (c * a)"
| "f64_scale c F64Inf = F64Inf"

definition f64_ceil :: "f64 \<Rightarrow> f64" where
  "f64_ceil x = (case x of F64 a \<Rightarrow> F64 (of_int \<lceil>a\<rceil>) | F64Inf \<Rightarrow> F64Inf)"

fun f64_to_u64 :: "f64 \<Rightarrow> u64" where
  "f64_to_u64 (F64 a) = u64_clamp (nat \<lfloor>a\<rfloor>)"
| "f64_to_u64 F64Inf = - 1"

section \<open>Model\<close>

record adaptive_prefetch =
  ap_min :: u16
  ap_max :: u16
  ap_target_buffer :: duration
  ap_current :: u16
  ap_ewma_ns :: f64
  ap_samples :: u64

record prefetch_stat =
  ps_subscription :: string
  ps_queue :: string
  ps_mode :: string
  ps_current :: u16
  ps_ewma :: duration

definition ewma_alpha :: rat where "ewma_alpha = 1 / 4"
definition prefetch_tick :: duration where "prefetch_tick = 1000000000"
definition min_samples :: u64 where "min_samples = 3"
definition hysteresis_divisor :: u32 where "hysteresis_divisor = 4"

definition adaptive_new :: "u16 \<Rightarrow> u16 \<Rightarrow> u16 \<Rightarrow> duration \<Rightarrow> adaptive_prefetch" where
  "adaptive_new mn mx initial target =
     \<lparr>ap_min = mn, ap_max = mx, ap_target_buffer = target, ap_current = initial, ap_ewma_ns = F64 0, ap_samples = 0\<rparr>"

definition adaptive_ewma :: "adaptive_prefetch \<Rightarrow> duration" where
  "adaptive_ewma p = (case ap_ewma_ns p of F64 a \<Rightarrow> if a > 0 then unat (f64_to_u64 (F64 a)) else 0 | F64Inf \<Rightarrow> 0)"

definition adaptive_observe :: "duration \<Rightarrow> adaptive_prefetch \<Rightarrow> adaptive_prefetch" where
  "adaptive_observe latency p =
     (let nanos = f64_round (of_nat latency) in
      p\<lparr>ap_ewma_ns := (if ap_samples p = 0 then nanos
           else f64_add (f64_scale ewma_alpha nanos) (f64_scale (1 - ewma_alpha) (ap_ewma_ns p))),
        ap_samples := sat_add (ap_samples p) 1\<rparr>)"

definition desired_prefetch :: "adaptive_prefetch \<Rightarrow> u16" where
  "desired_prefetch p =
     (let desired = (case (ap_ewma_ns p, f64_round (of_nat (ap_target_buffer p))) of
            (F64 e, F64 t) \<Rightarrow> if e > 0 then f64_ceil (f64_round (t / e)) else F64Inf
          | (F64 e, F64Inf) \<Rightarrow> F64Inf
          | (F64Inf, _) \<Rightarrow> F64Inf)
      in case desired of
           F64 a \<Rightarrow> if f64_to_u64 (F64 a) \<le> 65535 then ucast (f64_to_u64 (F64 a)) else - 1
         | F64Inf \<Rightarrow> - 1)"

definition clamp :: "u16 \<Rightarrow> u16 \<Rightarrow> u16 \<Rightarrow> u16" where
  "clamp mn mx v = (if v < mn then mn else if v > mx then mx else v)"

definition hysteresis_threshold :: "u16 \<Rightarrow> u16" where
  "hysteresis_threshold current = ucast (max ((ucast current :: u32) div hysteresis_divisor) 1)"

definition abs_diff :: "u16 \<Rightarrow> u16 \<Rightarrow> u16" where
  "abs_diff a b = (if a < b then b - a else a - b)"

definition adaptive_tick :: "adaptive_prefetch \<Rightarrow> u16 option \<times> adaptive_prefetch" where
  "adaptive_tick p =
     (if ap_samples p < min_samples then (None, p)
      else let desired = clamp (ap_min p) (ap_max p) (desired_prefetch p) in
        if abs_diff desired (ap_current p) \<ge> hysteresis_threshold (ap_current p)
        then (Some desired, p\<lparr>ap_current := desired\<rparr>)
        else (None, p))"

section \<open>Properties\<close>

datatype prefetch_event = Observe duration | Tick

fun prefetch_step :: "prefetch_event \<Rightarrow> adaptive_prefetch \<Rightarrow> adaptive_prefetch" where
  "prefetch_step (Observe d) p = adaptive_observe d p"
| "prefetch_step Tick p = snd (adaptive_tick p)"

definition prefetch_inv :: "adaptive_prefetch \<Rightarrow> bool" where
  "prefetch_inv p \<longleftrightarrow> 0 < ap_min p \<and> ap_min p \<le> ap_current p \<and> ap_current p \<le> ap_max p"

lemma clamp_bounds: "mn \<le> mx \<Longrightarrow> mn \<le> clamp mn mx v \<and> clamp mn mx v \<le> mx"
  by (auto simp: clamp_def)

lemma adaptive_tick_inv: "prefetch_inv p \<Longrightarrow> prefetch_inv (snd (adaptive_tick p))"
  using clamp_bounds [of "ap_min p" "ap_max p" "desired_prefetch p"]
  by (auto simp: prefetch_inv_def adaptive_tick_def Let_def)

interpretation prefetch_window: invariant_machine prefetch_step prefetch_inv
proof
  fix e and p :: adaptive_prefetch
  show "prefetch_inv p \<Longrightarrow> prefetch_inv (prefetch_step e p)"
    by (cases e) (auto simp: adaptive_tick_inv, simp add: adaptive_observe_def prefetch_inv_def Let_def)
qed

lemma hysteresis_threshold_pos: "hysteresis_threshold c \<noteq> 0"
proof -
  have "unat (ucast c :: u32) < 65536" using unsigned_less [of c, where 'a = nat] by (simp add: unsigned_ucast_eq) (metis order_le_less_trans take_bit_nat_less_eq_self)
  then have "unat (max ((ucast c :: u32) div hysteresis_divisor) 1) < 65536"
    by (auto simp: max_def unat_div hysteresis_divisor_def)
  moreover have "unat (max ((ucast c :: u32) div hysteresis_divisor) 1) \<noteq> 0"
    by (auto simp: max_def unat_eq_0)
  ultimately show ?thesis
    unfolding hysteresis_threshold_def by (simp add: unat_eq_0 [symmetric] unsigned_ucast_eq take_bit_nat_eq_self)
qed

lemma desired_prefetch_current [simp]: "desired_prefetch (p\<lparr>ap_current := c\<rparr>) = desired_prefetch p"
  by (simp add: desired_prefetch_def)

lemma adaptive_tick_stable: "fst (adaptive_tick p) \<noteq> None \<Longrightarrow> fst (adaptive_tick (snd (adaptive_tick p))) = None"
  using hysteresis_threshold_pos [of "ap_current (snd (adaptive_tick p))"]
  by (auto simp: adaptive_tick_def Let_def abs_diff_def not_le [symmetric] split: if_splits)

definition demo_adaptive :: subscription_config where
  "demo_adaptive = (demo_subscription ''mail'' ''q'')\<lparr>sc_prefetch := Adaptive 4 2 20 100\<rparr>"

text \<open>(C35) For every policy the configuration accepts and every sequence of samples and ticks, the window
  an adaptive subscription has applied lies between its configured bounds and is never zero, which
  would lift the limit at the broker; and a tick that moved the window is not followed by another
  move until a new sample arrives.\<close>

theorem adaptive_window_bounded:
  assumes "sc_prefetch s = Adaptive initial mn mx target" and "validate_prefetch base s = Inr ()"
  shows "let p = run_events prefetch_step es (adaptive_new mn mx initial target) in
    0 < ap_current p \<and> mn \<le> ap_current p \<and> ap_current p \<le> mx \<and>
    (fst (adaptive_tick p) \<noteq> None \<longrightarrow> fst (adaptive_tick (snd (adaptive_tick p))) = None)"
proof -
  let ?p = "run_events prefetch_step es (adaptive_new mn mx initial target)"
  have start: "prefetch_inv (adaptive_new mn mx initial target)"
    using assms by (auto simp: validate_prefetch_def prefetch_inv_def adaptive_new_def word_gt_0 split: if_splits)
  have "prefetch_inv ?p" by (rule prefetch_window.run_inv [OF start])
  moreover have "ap_min (prefetch_step e p) = ap_min p" "ap_max (prefetch_step e p) = ap_max p" for e p
    by (cases e; simp add: adaptive_observe_def adaptive_tick_def Let_def)+
  then have "ap_min (run_events prefetch_step es p) = ap_min p" "ap_max (run_events prefetch_step es p) = ap_max p" for p
    by (induction es arbitrary: p) auto
  ultimately show ?thesis
    using adaptive_tick_stable [of ?p] by (auto simp: prefetch_inv_def adaptive_new_def Let_def)
qed

theorem adaptive_window_bounded_witness:
  "let p = run_events prefetch_step [Observe 10, Observe 10, Observe 10, Tick] (adaptive_new 2 20 4 100) in
     ap_current p = 10 \<and> 2 \<le> ap_current p \<and> ap_current p \<le> 20"
proof -
  have "ap_current (run_events prefetch_step [Observe 10, Observe 10, Observe 10, Tick] (adaptive_new 2 20 4 100)) = 10"
    by code_simp
  moreover have "sc_prefetch demo_adaptive = Adaptive 4 2 20 100" "validate_prefetch [] demo_adaptive = Inr ()"
    by (simp_all add: demo_adaptive_def demo_subscription_def validate_prefetch_def)
  ultimately show ?thesis
    using adaptive_window_bounded [of demo_adaptive 4 2 20 100 "[]" "[Observe 10, Observe 10, Observe 10, Tick]"]
    by (simp add: Let_def)
qed

end
