(* ===== verification/Consumer_State.thy ===== *)
theory Consumer_State
  imports Delivery Prefetch Scheduler Metrics "HOL-Library.AList"
begin

text \<open>
  The state of a consumer actor and its intake side (\<^verbatim>\<open>consumer/actor.rs\<close>): buffering, the byte
  budget, poison and oversized deliveries, and the dispatch loop that hands deliveries to the
  embedder. Hash maps are association lists; they are iterated in list order. The clock is read once
  per event of the actor.
\<close>

section \<open>Hash maps\<close>

definition hm_modify :: "'k \<Rightarrow> ('v \<Rightarrow> 'v) \<Rightarrow> ('k \<times> 'v) list \<Rightarrow> ('k \<times> 'v) list" where
  "hm_modify k f m = (case map_of m k of None \<Rightarrow> m | Some v \<Rightarrow> AList.update k (f v) m)"

definition hm_or_default :: "'k \<Rightarrow> 'v \<Rightarrow> ('v \<Rightarrow> 'v) \<Rightarrow> ('k \<times> 'v) list \<Rightarrow> ('k \<times> 'v) list" where
  "hm_or_default k d f m = AList.update k (f (case map_of m k of None \<Rightarrow> d | Some v \<Rightarrow> v)) m"

lemma map_of_hm_modify [simp]:
  "map_of (hm_modify k f m) x = (if x = k then map_option f (map_of m k) else map_of m x)"
  by (auto simp: hm_modify_def update_conv split: option.splits)

lemma map_of_hm_or_default [simp]:
  "map_of (hm_or_default k d f m) x =
     (if x = k then Some (f (case map_of m k of None \<Rightarrow> d | Some v \<Rightarrow> v)) else map_of m x)"
  by (simp add: hm_or_default_def update_conv)

section \<open>State\<close>

type_synonym channel_key = "string \<times> u16 \<times> u64"

definition SOURCE_ERROR_CAPACITY :: nat where "SOURCE_ERROR_CAPACITY = 64"

record ledger_entry =
  le_state :: delivery_state
  le_token :: "token_id option"

record channel_ledger =
  cl_pending :: "(u64 \<times> ledger_entry) list"
  cl_acked_prefix :: u64

definition channel_ledger_default :: channel_ledger where
  "channel_ledger_default = \<lparr>cl_pending = [], cl_acked_prefix = 0\<rparr>"

record settle_params =
  sp_token :: token_id
  sp_settlement :: settlement

record settle_through_params =
  tp_token :: token_id
  tp_affected :: "token_id list"

text \<open>A channel and a publisher handle are numbers; what they do is given by the environment.\<close>

record runtime_subscription =
  rs_connection_key :: connection_key
  rs_generation :: u64
  rs_channel_id :: u16
  rs_channel :: nat
  rs_publisher :: "nat option"
  rs_destination :: "destination option"
  rs_delay_strategy :: "delay_strategy option"
  rs_early_ack :: bool
  rs_no_ack :: bool
  rs_max_attempts :: "u32 option"
  rs_has_dead_letter :: bool
  rs_queue :: string
  rs_prefetch :: prefetch_config

record settlement_launch =
  sl_channel :: nat
  sl_connection_key :: connection_key
  sl_generation :: u64
  sl_channel_id :: u16
  sl_publisher :: "nat option"
  sl_destination :: "destination option"
  sl_delay_strategy :: "delay_strategy option"
  sl_max_attempts :: "u32 option"

text \<open>Futures in flight, as the data they were built from.\<close>

record settle_future =
  sf_key :: channel_key
  sf_token :: token_id
  sf_settlement :: settlement
  sf_launch :: settlement_launch

record through_future =
  tf_key :: channel_key
  tf_target :: u64
  tf_token :: token_id
  tf_affected :: "token_id list"
  tf_launch :: settlement_launch

record delivery_item =
  it_id :: string
  it_correlation_id :: "string option"
  it_subscription :: string
  it_payload :: bytes
  it_headers :: headers
  it_attempts :: u32
  it_token :: token_id

datatype wire_op = WireAck nat u64 bool | WireReject nat u64 bool

record intake =
  in_buffers :: "(string \<times> delivery list) list"
  in_bytes :: "(string \<times> u64) list"
  in_max_bytes :: "(string \<times> u64) list"
  in_pending :: "(string \<times> delivery) list"
  in_pending_capacity :: nat
  in_source_errors :: "consumer_error list"
  in_scheduler :: scheduler

record settling =
  st_ledgers :: "(channel_key \<times> channel_ledger) list"
  st_early_acked :: "(channel_key \<times> u64 list) list"
  st_early_capacity :: nat
  st_futures :: "settle_future list"
  st_throughs :: "through_future list"
  st_in_flight :: "channel_key set"
  st_queues :: "(channel_key \<times> settle_params list) list"
  st_through_queues :: "(channel_key \<times> settle_through_params list) list"
  st_batch :: "(channel_key \<times> (u64 \<times> token_id) list) list"

text \<open>What the actor shares: the token store, the hand-off flume (its bound, whether a receiver is
  left, and the count of error items in it), the bounded error channel, the metrics, the wire
  operations handed to spawned tasks and the values sent on the resize watches.\<close>

record shared =
  sh_tokens :: token_store
  sh_flume :: "(consumer_error + delivery_item) list"
  sh_flume_capacity :: nat
  sh_flume_open :: bool
  sh_flume_errors :: nat
  sh_errors :: "settlement_error list"
  sh_error_capacity :: nat
  sh_metrics :: metrics
  sh_spawned :: "wire_op list"
  sh_qos :: "(string \<times> u16) list"

record consumer_state =
  cs_subscriptions :: "(string \<times> runtime_subscription) list"
  cs_adaptive :: "(string \<times> adaptive_prefetch) list"
  cs_intake :: intake
  cs_settling :: settling
  cs_shared :: shared

abbreviation "buffers_upd f \<equiv> cs_intake_update (in_buffers_update f)"
abbreviation "bytes_upd f \<equiv> cs_intake_update (in_bytes_update f)"
abbreviation "pending_upd f \<equiv> cs_intake_update (in_pending_update f)"
abbreviation "source_errors_upd f \<equiv> cs_intake_update (in_source_errors_update f)"
abbreviation "scheduler_upd f \<equiv> cs_intake_update (in_scheduler_update f)"
abbreviation "ledgers_upd f \<equiv> cs_settling_update (st_ledgers_update f)"
abbreviation "early_acked_upd f \<equiv> cs_settling_update (st_early_acked_update f)"
abbreviation "futures_upd f \<equiv> cs_settling_update (st_futures_update f)"
abbreviation "throughs_upd f \<equiv> cs_settling_update (st_throughs_update f)"
abbreviation "in_flight_upd f \<equiv> cs_settling_update (st_in_flight_update f)"
abbreviation "queues_upd f \<equiv> cs_settling_update (st_queues_update f)"
abbreviation "through_queues_upd f \<equiv> cs_settling_update (st_through_queues_update f)"
abbreviation "batch_upd f \<equiv> cs_settling_update (st_batch_update f)"
abbreviation "tokens_upd f \<equiv> cs_shared_update (sh_tokens_update f)"
abbreviation "flume_upd f \<equiv> cs_shared_update (sh_flume_update f)"
abbreviation "metrics_upd f \<equiv> cs_shared_update (sh_metrics_update f)"
abbreviation "spawned_upd f \<equiv> cs_shared_update (sh_spawned_update f)"

abbreviation "the_tokens s \<equiv> sh_tokens (cs_shared s)"
abbreviation "the_bytes s \<equiv> in_bytes (cs_intake s)"
abbreviation "the_buffers s \<equiv> in_buffers (cs_intake s)"
abbreviation "the_ledgers s \<equiv> st_ledgers (cs_settling s)"

text \<open>The subscription as the set hands it over (\<^verbatim>\<open>consumer/set.rs\<close>).\<close>

record subscription =
  sub_id :: string
  sub_runtime :: runtime_subscription
  sub_policy :: subscription_policy
  sub_max_buffered_bytes :: u64

definition subscription_new :: "string \<Rightarrow> connection_key \<Rightarrow> string \<Rightarrow> nat \<Rightarrow> subscription" where
  "subscription_new i key queue channel =
     \<lparr>sub_id = i,
      sub_runtime = \<lparr>rs_connection_key = key, rs_generation = 1, rs_channel_id = 1, rs_channel = channel,
        rs_publisher = None, rs_destination = None, rs_delay_strategy = None, rs_early_ack = False,
        rs_no_ack = False, rs_max_attempts = Some DEFAULT_MAX_ATTEMPTS, rs_has_dead_letter = False,
        rs_queue = queue, rs_prefetch = Fixed 16\<rparr>,
      sub_policy = \<lparr>weight = 1\<rparr>, sub_max_buffered_bytes = 64 * 1024 * 1024\<rparr>"

fun adaptive_of :: "subscription \<Rightarrow> (string \<times> adaptive_prefetch) list \<Rightarrow> (string \<times> adaptive_prefetch) list" where
  "adaptive_of s m =
     (case rs_prefetch (sub_runtime s) of
        Adaptive initial mn mx target \<Rightarrow> AList.update (sub_id s) (adaptive_new mn mx initial target) m
      | Fixed _ \<Rightarrow> m)"

definition subscription_key :: "subscription \<Rightarrow> channel_key" where
  "subscription_key s = (sub_id s, rs_channel_id (sub_runtime s), rs_generation (sub_runtime s))"

definition actor_new :: "subscription list \<Rightarrow> nat \<Rightarrow> shared \<Rightarrow> consumer_state" where
  "actor_new subs pending_capacity sh =
     (let total_prefetch = sum_list (map (unat \<circ> prefetch_ceiling \<circ> rs_prefetch \<circ> sub_runtime) subs) in
      \<lparr>cs_subscriptions = fold (\<lambda>s. AList.update (sub_id s) (sub_runtime s)) subs [],
       cs_adaptive = fold adaptive_of subs [],
       cs_intake = \<lparr>in_buffers = fold (\<lambda>s. AList.update (sub_id s) []) subs [],
         in_bytes = fold (\<lambda>s. AList.update (sub_id s) 0) subs [],
         in_max_bytes = fold (\<lambda>s. AList.update (sub_id s) (sub_max_buffered_bytes s)) subs [],
         in_pending = [], in_pending_capacity = pending_capacity, in_source_errors = [],
         in_scheduler = fold (\<lambda>s. register (sub_id s) (sub_policy s)) subs scheduler_default\<rparr>,
       cs_settling = \<lparr>st_ledgers = fold (\<lambda>s. AList.update (subscription_key s) channel_ledger_default) subs [],
         st_early_acked = [], st_early_capacity = max pending_capacity total_prefetch,
         st_futures = [], st_throughs = [], st_in_flight = {}, st_queues = [], st_through_queues = [],
         st_batch = []\<rparr>,
       cs_shared = sh\<rparr>)"

section \<open>Helpers of the actor\<close>

definition payload_bytes :: "bytes \<Rightarrow> u64" where
  "payload_bytes p = u64_clamp (length p)"

definition channel_key_for :: "string \<Rightarrow> consumer_state \<Rightarrow> channel_key option" where
  "channel_key_for sub s =
     map_option (\<lambda>rt. (sub, rs_channel_id rt, rs_generation rt)) (map_of (cs_subscriptions s) sub)"

definition early_acked :: "u64 \<Rightarrow> channel_key \<Rightarrow> consumer_state \<Rightarrow> bool" where
  "early_acked tag k s = (case map_of (st_early_acked (cs_settling s)) k of None \<Rightarrow> False | Some ring \<Rightarrow> tag \<in> set ring)"

definition remember_early_acked :: "u64 \<Rightarrow> channel_key \<Rightarrow> consumer_state \<Rightarrow> consumer_state" where
  "remember_early_acked tag k s =
     early_acked_upd (hm_or_default k []
       (\<lambda>ring. (if length ring \<ge> st_early_capacity (cs_settling s) then tl ring else ring) @ [tag])) s"

fun collect_updates :: "(string \<times> adaptive_prefetch) list \<Rightarrow> (string \<times> u16) list \<times> (string \<times> adaptive_prefetch) list" where
  "collect_updates [] = ([], [])"
| "collect_updates ((k, p) # m) =
     (case (adaptive_tick p, collect_updates m) of
        ((Some v, p'), (us, m')) \<Rightarrow> ((k, v) # us, (k, p') # m')
      | ((None, p'), (us, m')) \<Rightarrow> (us, (k, p') # m'))"

definition collect_prefetch_updates :: "consumer_state \<Rightarrow> (string \<times> u16) list \<times> consumer_state" where
  "collect_prefetch_updates s =
     (case collect_updates (cs_adaptive s) of (us, m) \<Rightarrow> (us, s\<lparr>cs_adaptive := m\<rparr>))"

definition prefetch_stat_of :: "consumer_state \<Rightarrow> string \<times> runtime_subscription \<Rightarrow> prefetch_stat" where
  "prefetch_stat_of s kr =
     (case kr of (k, rt) \<Rightarrow>
      (case map_of (cs_adaptive s) k of
         None \<Rightarrow> \<lparr>ps_subscription = k, ps_queue = rs_queue rt,
           ps_mode = (case rs_prefetch rt of Fixed _ \<Rightarrow> ''fixed'' | Adaptive _ _ _ _ \<Rightarrow> ''adaptive''),
           ps_current = prefetch_initial_value (rs_prefetch rt), ps_ewma = 0\<rparr>
       | Some c \<Rightarrow> \<lparr>ps_subscription = k, ps_queue = rs_queue rt,
           ps_mode = (case rs_prefetch rt of Fixed _ \<Rightarrow> ''fixed'' | Adaptive _ _ _ _ \<Rightarrow> ''adaptive''),
           ps_current = ap_current c, ps_ewma = adaptive_ewma c\<rparr>))"

definition prefetch_stats :: "consumer_state \<Rightarrow> prefetch_stat list" where
  "prefetch_stats s = sort_key ps_subscription (map (prefetch_stat_of s) (cs_subscriptions s))"

definition record_source_error :: "consumer_error \<Rightarrow> consumer_state \<Rightarrow> consumer_state" where
  "record_source_error e =
     source_errors_upd (\<lambda>es. (if length es \<ge> SOURCE_ERROR_CAPACITY then tl es else es) @ [e])"

definition record_settlement_error :: "settlement_error \<Rightarrow> consumer_state \<Rightarrow> consumer_state" where
  "record_settlement_error e s =
     cs_shared_update (sh_errors_update (\<lambda>es.
       (if length es \<ge> sh_error_capacity (cs_shared s) then tl es else es) @ [e])) s"

definition try_send_item :: "consumer_error + delivery_item \<Rightarrow> consumer_state \<Rightarrow> consumer_state option" where
  "try_send_item x s =
     (if sh_flume_open (cs_shared s) \<and> length (sh_flume (cs_shared s)) < sh_flume_capacity (cs_shared s)
      then Some (flume_upd (\<lambda>q. q @ [x]) s) else None)"

definition alloc_token :: "token \<Rightarrow> consumer_state \<Rightarrow> token_id \<times> consumer_state" where
  "alloc_token t s = (length (the_tokens s), tokens_upd (\<lambda>ts. ts @ [t]) s)"

definition attempts_error_text :: "attempts_error \<Rightarrow> string" where
  "attempts_error_text e =
     (case ae_max_attempts e of
        Some m \<Rightarrow> ''delivery attempt '' @ show_nat (unat (ae_attempts e)) @ '' exceeds the configured maximum of '' @ show_nat (unat m)
      | None \<Rightarrow> ''delivery attempts could not be resolved'')"

definition poison_settlement_message :: "string \<Rightarrow> string \<Rightarrow> bool \<Rightarrow> string" where
  "poison_settlement_message detail mid has_dead_letter =
     (if has_dead_letter
      then detail @ ''; message '' @ mid @ '' rejected with requeue=false toward the dead-letter exchange''
      else detail @ ''; message '' @ mid @ '' acknowledged and dropped (no dead-letter exchange configured)'')"

definition spawn_poison_settlement :: "nat \<Rightarrow> bool \<Rightarrow> u64 \<Rightarrow> consumer_state \<Rightarrow> delivery_state \<times> consumer_state" where
  "spawn_poison_settlement channel has_dead_letter tag s =
     (if has_dead_letter then (Rejected, spawned_upd (\<lambda>ws. ws @ [WireReject channel tag False]) s)
      else (Acked, spawned_upd (\<lambda>ws. ws @ [WireAck channel tag False]) s))"

definition record_poison_metrics :: "bool \<Rightarrow> duration \<Rightarrow> consumer_state \<Rightarrow> consumer_state" where
  "record_poison_metrics has_dead_letter settled_for =
     metrics_upd (if has_dead_letter then record_reject settled_for else record_ack settled_for)"

definition live_identity :: "runtime_subscription \<Rightarrow> connection_key \<times> u64 \<times> u16" where
  "live_identity rt = (rs_connection_key rt, rs_generation rt, rs_channel_id rt)"

text \<open>The wire operation of a poison delivery, fenced by the identity the delivery arrived under.\<close>

definition poison_wire :: "string \<Rightarrow> bool \<Rightarrow> u64 \<Rightarrow> (connection_key \<times> u64 \<times> u16) option \<Rightarrow> consumer_state \<Rightarrow> consumer_state" where
  "poison_wire sub has_dead_letter tag identity s =
     (case map_of (cs_subscriptions s) sub of
        Some rt \<Rightarrow> if \<not> rs_no_ack rt \<and> identity = Some (live_identity rt)
          then snd (spawn_poison_settlement (rs_channel rt) has_dead_letter tag s) else s
      | None \<Rightarrow> s)"

definition forget_delivery :: "string \<Rightarrow> u64 \<Rightarrow> consumer_state \<Rightarrow> consumer_state" where
  "forget_delivery sub tag s =
     (case channel_key_for sub s of
        Some k \<Rightarrow> ledgers_upd (hm_modify k (cl_pending_update (bt_remove tag))) s
      | None \<Rightarrow> s)"

definition settle_poison :: "string \<Rightarrow> bool \<Rightarrow> u64 \<Rightarrow> string \<Rightarrow> u64 \<Rightarrow> string \<Rightarrow> duration \<Rightarrow>
    (connection_key \<times> u64 \<times> u16) option \<Rightarrow> consumer_state \<Rightarrow> consumer_state" where
  "settle_poison sub has_dead_letter tag mid bytes detail settled_for identity s =
     record_settlement_error \<lparr>sx_delivery_tag = tag, sx_subscription = sub, sx_kind = MaxAttemptsExceeded,
         sx_message = poison_settlement_message detail mid has_dead_letter\<rparr>
       (forget_delivery sub tag
         (bytes_upd (hm_modify sub (\<lambda>b. sat_sub b bytes))
           (record_poison_metrics has_dead_letter settled_for (poison_wire sub has_dead_letter tag identity s))))"

definition settle_oversized :: "string \<Rightarrow> delivery \<Rightarrow> consumer_state \<Rightarrow> consumer_state" where
  "settle_oversized sub d s =
     (let bytes = payload_bytes (d_payload d);
          s1 = bytes_upd (hm_modify sub (\<lambda>b. sat_add b bytes)) s;
          rt = map_of (cs_subscriptions s1) sub
      in settle_poison sub (case rt of None \<Rightarrow> False | Some r \<Rightarrow> rs_has_dead_letter r) (d_delivery_tag d)
           (case d_message_id d of None \<Rightarrow> show_nat (unat (d_delivery_tag d)) | Some m \<Rightarrow> m) bytes
           ''message size exceeds max_buffered_bytes'' 0 (map_option live_identity rt) s1)"

section \<open>The byte budget and the parked deliveries\<close>

definition over_budget :: "string \<Rightarrow> delivery \<Rightarrow> consumer_state \<Rightarrow> bool" where
  "over_budget sub d s =
     (case map_of (in_max_bytes (cs_intake s)) sub of
        None \<Rightarrow> False
      | Some mx \<Rightarrow> sat_add (case map_of (the_bytes s) sub of None \<Rightarrow> 0 | Some b \<Rightarrow> b) (payload_bytes (d_payload d)) > mx)"

definition exceeds_budget :: "string \<Rightarrow> delivery \<Rightarrow> consumer_state \<Rightarrow> bool" where
  "exceeds_budget sub d s =
     (payload_bytes (d_payload d) > (case map_of (in_max_bytes (cs_intake s)) sub of None \<Rightarrow> - 1 | Some mx \<Rightarrow> mx))"

definition buffer_delivery :: "string \<Rightarrow> delivery \<Rightarrow> consumer_state \<Rightarrow> consumer_state" where
  "buffer_delivery sub d s =
     (let s1 = (if map_of (the_buffers s) sub = None then s
                else scheduler_upd (mark_ready sub) (buffers_upd (hm_modify sub (\<lambda>q. q @ [d])) s))
      in bytes_upd (hm_modify sub (\<lambda>b. sat_add b (payload_bytes (d_payload d)))) s1)"

text \<open>The loop works on the front of the parked deliveries; the bodies do not read the rest.\<close>

fun drain_list :: "(string \<times> delivery) list \<Rightarrow> consumer_state \<Rightarrow> consumer_state" where
  "drain_list [] s = pending_upd (\<lambda>_. []) s"
| "drain_list ((sub, d) # rest) s =
     (if over_budget sub d s then
        (if exceeds_budget sub d s then drain_list rest (settle_oversized sub d s)
         else pending_upd (\<lambda>_. (sub, d) # rest) s)
      else drain_list rest (buffer_delivery sub d s))"

definition drain_pending :: "consumer_state \<Rightarrow> consumer_state" where
  "drain_pending s = drain_list (in_pending (cs_intake s)) s"

section \<open>Dispatch\<close>

definition requeue_front :: "string \<Rightarrow> delivery \<Rightarrow> consumer_state \<Rightarrow> consumer_state" where
  "requeue_front sub d s = scheduler_upd (mark_ready sub) (buffers_upd (hm_or_default sub [] ((#) d)) s)"

definition unmark_if_empty :: "string \<Rightarrow> consumer_state \<Rightarrow> consumer_state" where
  "unmark_if_empty sub s =
     (if map_of (the_buffers s) sub = Some [] then scheduler_upd (mark_empty sub) s else s)"

definition count_delivery :: "u32 \<Rightarrow> consumer_state \<Rightarrow> consumer_state" where
  "count_delivery attempts = metrics_upd (\<lambda>m. if attempts > 1 then record_duplicate (record_delivery m) else record_delivery m)"

definition identity_of :: "string \<Rightarrow> runtime_subscription \<Rightarrow> delivery \<Rightarrow> delivery_identity" where
  "identity_of sub rt d = \<lparr>di_subscription = sub, di_connection_key = rs_connection_key rt,
     di_generation = rs_generation rt, di_channel_id = rs_channel_id rt, di_delivery_tag = d_delivery_tag d\<rparr>"

definition item_of :: "string \<Rightarrow> string \<Rightarrow> delivery \<Rightarrow> u32 \<Rightarrow> token_id \<Rightarrow> delivery_item" where
  "item_of sub mid d attempts i = \<lparr>it_id = mid, it_correlation_id = d_correlation_id d, it_subscription = sub,
     it_payload = d_payload d, it_headers = d_headers d, it_attempts = attempts, it_token = i\<rparr>"

definition early_wire_ack :: "string \<Rightarrow> runtime_subscription \<Rightarrow> u64 \<Rightarrow> consumer_state \<Rightarrow> consumer_state" where
  "early_wire_ack sub rt tag s =
     (let key = (sub, rs_channel_id rt, rs_generation rt) in
      if rs_no_ack rt \<or> early_acked tag key s then s
      else spawned_upd (\<lambda>ws. ws @ [WireAck (rs_channel rt) tag False]) (remember_early_acked tag key s))"

text \<open>Both return whether the loop goes on.\<close>

definition dispatch_early :: "instant \<Rightarrow> string \<Rightarrow> runtime_subscription \<Rightarrow> string \<Rightarrow> u32 \<Rightarrow> delivery \<Rightarrow>
    consumer_state \<Rightarrow> bool \<times> consumer_state" where
  "dispatch_early now sub rt mid attempts d s =
     (case alloc_token (token_auto_acked (identity_of sub rt d) mid (d_correlation_id d) (d_payload d) (d_headers d) attempts now)
             (early_wire_ack sub rt (d_delivery_tag d) s) of (i, s1) \<Rightarrow>
      (case try_send_item (Inr (item_of sub mid d attempts i)) s1 of
         None \<Rightarrow> (False, requeue_front sub d s1)
       | Some s2 \<Rightarrow>
           (True, metrics_upd (record_ack 0) (count_delivery attempts
             (bytes_upd (hm_modify sub (\<lambda>b. sat_sub b (payload_bytes (d_payload d)))) (unmark_if_empty sub s2))))))"

definition attach_token :: "string \<Rightarrow> u64 \<Rightarrow> token_id \<Rightarrow> consumer_state \<Rightarrow> consumer_state" where
  "attach_token sub tag i s =
     (case channel_key_for sub s of
        None \<Rightarrow> s
      | Some k \<Rightarrow> ledgers_upd (hm_modify k (cl_pending_update (hm_modify tag (le_token_update (\<lambda>_. Some i))))) s)"

definition dispatch_pending :: "instant \<Rightarrow> string \<Rightarrow> runtime_subscription \<Rightarrow> string \<Rightarrow> u32 \<Rightarrow> delivery \<Rightarrow>
    consumer_state \<Rightarrow> bool \<times> consumer_state" where
  "dispatch_pending now sub rt mid attempts d s =
     (case alloc_token (token_pending (identity_of sub rt d) mid (d_correlation_id d) (d_payload d) (d_headers d) attempts now) s of
        (i, s1) \<Rightarrow>
      (let s2 = attach_token sub (d_delivery_tag d) i s1 in
       case try_send_item (Inr (item_of sub mid d attempts i)) s2 of
         None \<Rightarrow> (False, requeue_front sub d s2)
       | Some s3 \<Rightarrow> (True, count_delivery attempts (unmark_if_empty sub s3))))"

definition default_message_id :: "runtime_subscription \<Rightarrow> delivery \<Rightarrow> string" where
  "default_message_id rt d =
     (case d_message_id d of
        None \<Rightarrow> show_nat (unat (rs_generation rt)) @ '':'' @ show_nat (unat (rs_channel_id rt)) @ '':'' @ show_nat (unat (d_delivery_tag d))
      | Some m \<Rightarrow> m)"

definition resolve_attempts :: "runtime_subscription \<Rightarrow> delivery \<Rightarrow> attempts_error + u32" where
  "resolve_attempts rt d =
     resolve (with_max_attempts (rs_max_attempts rt) attempts_resolver_default) (d_headers d) (d_redelivered d)"

definition dispatch_delivery :: "instant \<Rightarrow> string \<Rightarrow> delivery \<Rightarrow> consumer_state \<Rightarrow> bool \<times> consumer_state" where
  "dispatch_delivery now sub d s =
     (case map_of (cs_subscriptions s) sub of
        None \<Rightarrow> (False, requeue_front sub d s)
      | Some rt \<Rightarrow>
         (let mid = default_message_id rt d in
          case resolve_attempts rt d of
            Inr attempts \<Rightarrow>
              if rs_early_ack rt then dispatch_early now sub rt mid attempts d s
              else dispatch_pending now sub rt mid attempts d s
          | Inl err \<Rightarrow>
              if rs_early_ack rt
              then dispatch_early now sub rt mid (ae_attempts err) d
                     (record_settlement_error \<lparr>sx_delivery_tag = d_delivery_tag d, sx_subscription = sub,
                        sx_kind = MaxAttemptsExceeded, sx_message = attempts_error_text err\<rparr> s)
              else (True, settle_poison sub (rs_has_dead_letter rt) (d_delivery_tag d) mid
                     (payload_bytes (d_payload d)) (attempts_error_text err) 0 (Some (live_identity rt)) s)))"

definition dispatch_step :: "instant \<Rightarrow> consumer_state \<Rightarrow> bool \<times> consumer_state" where
  "dispatch_step now s =
     (case in_source_errors (cs_intake s) of
        err # rest \<Rightarrow>
          (case try_send_item (Inl err) s of
             None \<Rightarrow> (False, s)
           | Some s1 \<Rightarrow> (True, source_errors_upd (\<lambda>_. rest) (cs_shared_update (sh_flume_errors_update Suc) s1)))
      | [] \<Rightarrow>
          (case pick (in_scheduler (cs_intake s)) of
             (None, sch) \<Rightarrow> (False, scheduler_upd (\<lambda>_. sch) s)
           | (Some sub, sch) \<Rightarrow>
               (case map_of (the_buffers s) sub of
                  Some (d # ds) \<Rightarrow> dispatch_delivery now sub d (buffers_upd (hm_modify sub (\<lambda>_. ds)) (scheduler_upd (\<lambda>_. sch) s))
                | _ \<Rightarrow> (False, scheduler_upd (mark_empty sub) (scheduler_upd (\<lambda>_. sch) s)))))"

definition buffered_count :: "consumer_state \<Rightarrow> nat" where
  "buffered_count s = length (in_source_errors (cs_intake s)) + sum_list (map (length \<circ> snd) (the_buffers s))"


text \<open>The helpers leave the intake alone, or change the byte counts and the readiness only.\<close>

lemma intake_frame [simp]:
  "cs_intake (record_settlement_error e s) = cs_intake s"
  "cs_intake (snd (spawn_poison_settlement c h t s)) = cs_intake s"
  "cs_intake (record_poison_metrics h d s) = cs_intake s"
  "cs_intake (remember_early_acked tag k s) = cs_intake s"
  "cs_intake (early_wire_ack sub rt tag s) = cs_intake s"
  "cs_intake (snd (alloc_token tk s)) = cs_intake s"
  "cs_intake (attach_token sub tag i s) = cs_intake s"
  "cs_intake (count_delivery a s) = cs_intake s"
  "cs_intake (poison_wire sub h t idn s) = cs_intake s"
  "cs_intake (forget_delivery sub t s) = cs_intake s"
  by (simp_all add: poison_wire_def forget_delivery_def record_settlement_error_def spawn_poison_settlement_def record_poison_metrics_def
      remember_early_acked_def early_wire_ack_def alloc_token_def attach_token_def count_delivery_def Let_def
      split: option.splits)

lemma settle_poison_intake:
  "cs_intake (settle_poison sub h tag mid b detail d idn s) = in_bytes_update (hm_modify sub (\<lambda>x. sat_sub x b)) (cs_intake s)"
  by (simp add: settle_poison_def)

lemma unmark_if_empty_intake:
  "cs_intake (unmark_if_empty sub s) =
     (if map_of (the_buffers s) sub = Some [] then in_scheduler_update (mark_empty sub) (cs_intake s) else cs_intake s)"
  by (simp add: unmark_if_empty_def)

lemma try_send_itemD:
  assumes "try_send_item x s = Some s'"
  shows "s' = flume_upd (\<lambda>q. q @ [x]) s" and "sh_flume_open (cs_shared s)"
    and "length (sh_flume (cs_shared s)) < sh_flume_capacity (cs_shared s)"
  using assms by (auto simp: try_send_item_def split: if_splits)

lemma sum_list_hm_modify:
  "map_of m k = Some (d # ds) \<Longrightarrow> sum_list (map (length \<circ> snd) m) = Suc (sum_list (map (length \<circ> snd) (hm_modify k (\<lambda>_. ds) m)))"
proof (induction m)
  case (Cons a m)
  then show ?case by (cases a) (auto simp: hm_modify_def split: if_splits)
qed simp

text \<open>Handing one delivery over, by its effect on the intake: put back, sent, or settled as poison.\<close>

lemma dispatch_early_intake:
  assumes "dispatch_early now sub rt mid a d s = (go, s')"
  shows "if go then cs_intake s' = in_bytes_update (hm_modify sub (\<lambda>b. sat_sub b (payload_bytes (d_payload d))))
                                     (cs_intake (unmark_if_empty sub s))
         else cs_intake s' = cs_intake (requeue_front sub d s)"
  using assms by (auto simp: dispatch_early_def alloc_token_def requeue_front_def unmark_if_empty_intake
      dest!: try_send_itemD(1) split: option.splits if_splits)

lemma dispatch_pending_intake:
  assumes "dispatch_pending now sub rt mid a d s = (go, s')"
  shows "cs_intake s' = (if go then cs_intake (unmark_if_empty sub s) else cs_intake (requeue_front sub d s))"
  using assms by (auto simp: dispatch_pending_def Let_def alloc_token_def requeue_front_def unmark_if_empty_intake
      dest!: try_send_itemD(1) split: option.splits if_splits)

definition poisonous :: "consumer_state \<Rightarrow> string \<Rightarrow> delivery \<Rightarrow> bool" where
  "poisonous s sub d = (case map_of (cs_subscriptions s) sub of
     None \<Rightarrow> False | Some rt \<Rightarrow> \<not> rs_early_ack rt \<and> (\<exists>e. resolve_attempts rt d = Inl e))"

lemma dispatch_delivery_intake:
  assumes "dispatch_delivery now sub d s = (go, s')"
  obtains (requeued) "\<not> go" "cs_intake s' = cs_intake (requeue_front sub d s)"
  | (sent) "go" "\<not> poisonous s sub d"
      "cs_intake s' = cs_intake (unmark_if_empty sub s) \<or> cs_intake s' =
         in_bytes_update (hm_modify sub (\<lambda>b. sat_sub b (payload_bytes (d_payload d)))) (cs_intake (unmark_if_empty sub s))"
  | (poison) "go" "poisonous s sub d"
      "cs_intake s' = in_bytes_update (hm_modify sub (\<lambda>b. sat_sub b (payload_bytes (d_payload d)))) (cs_intake s)"
proof (cases "map_of (cs_subscriptions s) sub")
  case None
  with assms requeued show thesis by (simp add: dispatch_delivery_def)
next
  case (Some rt)
  show thesis
  proof (cases "rs_early_ack rt")
    case True
    then obtain mid a es where e: "dispatch_early now sub rt mid a d (es s) = (go, s')" "cs_intake (es s) = cs_intake s"
      using assms Some by (auto simp: dispatch_delivery_def Let_def split: sum.splits)
    have "cs_intake (unmark_if_empty sub (es s)) = cs_intake (unmark_if_empty sub s)"
      "cs_intake (requeue_front sub d (es s)) = cs_intake (requeue_front sub d s)"
      using e(2) by (simp_all add: unmark_if_empty_intake requeue_front_def)
    moreover have "\<not> poisonous s sub d" using True Some by (simp add: poisonous_def)
    ultimately show thesis
      using dispatch_early_intake [OF e(1)] requeued sent by (cases go) auto
  next
    case False
    show thesis
    proof (cases "resolve_attempts rt d")
      case (Inl e)
      then show thesis using assms Some False poison
        by (auto simp: dispatch_delivery_def Let_def settle_poison_intake poisonous_def)
    next
      case (Inr a)
      then show thesis using assms Some False requeued sent dispatch_pending_intake [of now sub rt _ a d s go s']
        by (cases go) (auto simp: dispatch_delivery_def Let_def poisonous_def)
    qed
  qed
qed

lemma dispatch_step_decreases:
  assumes "dispatch_step now s = (True, s')"
  shows "buffered_count s' < buffered_count s"
proof (cases "in_source_errors (cs_intake s)")
  case (Cons e es)
  with assms show ?thesis
    by (auto simp: dispatch_step_def buffered_count_def dest!: try_send_itemD(1) split: option.splits)
next
  case Nil
  then obtain sub sch d ds where
    picked: "pick (in_scheduler (cs_intake s)) = (Some sub, sch)" "map_of (the_buffers s) sub = Some (d # ds)"
    and step: "dispatch_delivery now sub d (buffers_upd (hm_modify sub (\<lambda>_. ds)) (scheduler_upd (\<lambda>_. sch) s)) = (True, s')"
    using assms by (auto simp: dispatch_step_def split: prod.splits option.splits list.splits)
  from step sum_list_hm_modify [OF picked(2)] show ?thesis
    by (cases rule: dispatch_delivery_intake) (auto simp: buffered_count_def unmark_if_empty_intake)
qed

text \<open>The loop ends because every round that goes on sends a retained error or takes one delivery out of
  a buffer.\<close>

function dispatch_loop :: "instant \<Rightarrow> consumer_state \<Rightarrow> consumer_state" where
  "dispatch_loop now s = (case dispatch_step now s of (True, s') \<Rightarrow> dispatch_loop now s' | (False, s') \<Rightarrow> s')"
  by auto
termination by (relation "measure (buffered_count \<circ> snd)") (auto simp: dispatch_step_decreases)

declare dispatch_loop.simps [simp del]

definition dispatch :: "instant \<Rightarrow> consumer_state \<Rightarrow> consumer_state" where
  "dispatch now s = dispatch_loop now (drain_pending s)"

definition try_drain_pending :: "instant \<Rightarrow> consumer_state \<Rightarrow> consumer_state" where
  "try_drain_pending now s = dispatch now (drain_pending s)"

definition dispatch_stock_drained :: "consumer_state \<Rightarrow> bool" where
  "dispatch_stock_drained s =
     ((\<forall>b\<in>set (the_buffers s). snd b = []) \<and> length (sh_flume (cs_shared s)) \<le> sh_flume_errors (cs_shared s))"

section \<open>Incoming deliveries\<close>

definition claim_ledger :: "string \<Rightarrow> u64 \<Rightarrow> consumer_state \<Rightarrow> consumer_state" where
  "claim_ledger sub tag s =
     (case channel_key_for sub s of
        None \<Rightarrow> s
      | Some k \<Rightarrow> ledgers_upd (hm_or_default k channel_ledger_default
          (cl_pending_update (bt_insert tag \<lparr>le_state = Pending, le_token = None\<rparr>))) s)"

definition handle_incoming :: "instant \<Rightarrow> string \<Rightarrow> delivery transport_result \<Rightarrow> consumer_state \<Rightarrow> consumer_state" where
  "handle_incoming now sub result s =
     (case result of
        Inr d \<Rightarrow>
          (let s1 = claim_ledger sub (d_delivery_tag d) s in
           if over_budget sub d s1 then
             (if exceeds_budget sub d s1 then settle_oversized sub d s1
              else metrics_upd record_backpressure (pending_upd (\<lambda>q. q @ [(sub, d)]) s1))
           else if in_pending (cs_intake s1) = [] then dispatch now (buffer_delivery sub d s1)
           else dispatch now (drain_pending (pending_upd (\<lambda>q. q @ [(sub, d)]) s1)))
      | Inl e \<Rightarrow> dispatch now (record_source_error (consumer_error_new TransportFailure (te_message e)) s))"

end
