(* ===== verification/Consumer_Intake.thy ===== *)
theory Consumer_Intake
  imports Consumer_State
begin

text \<open>
  What the intake side of the consumer actor keeps: the invariant of the buffers, the byte budget and
  the scheduler, the bound on parked deliveries, and the parts of the state that dispatching never
  touches. The last section shows when a dispatch leaves nothing behind.
\<close>

section \<open>The intake invariant\<close>

text \<open>
  Every known subscription has a buffer, a budget and a scheduler entry; a subscription with
  buffered deliveries is ready; the byte counts stay within their budgets.
\<close>

definition within_budget :: "intake \<Rightarrow> bool" where
  "within_budget t \<longleftrightarrow> (\<forall>k mx b. map_of (in_max_bytes t) k = Some mx \<longrightarrow> map_of (in_bytes t) k = Some b \<longrightarrow> b \<le> mx)"

definition buffers_ready :: "intake \<Rightarrow> bool" where
  "buffers_ready t \<longleftrightarrow> (\<forall>k. (map_of (in_buffers t) k = None) = (k \<notin> all_ids (in_scheduler t))) \<and>
     (\<forall>k d ds. map_of (in_buffers t) k = Some (d # ds) \<longrightarrow> k \<in> ready_ids (in_scheduler t))"

definition intake_wf :: "intake \<Rightarrow> bool" where
  "intake_wf t \<longleftrightarrow> sched_wf (in_scheduler t) \<and> buffers_ready t \<and> within_budget t \<and> length (in_source_errors t) \<le> SOURCE_ERROR_CAPACITY"

lemma sat_sub_le: "sat_sub (a :: 'a::len word) b \<le> a"
  by (simp add: sat_sub_def word_le_nat_alt unat_sub_if')

lemma within_budget_sub:
  "within_budget t \<Longrightarrow> within_budget (in_bytes_update (hm_modify k (\<lambda>x. sat_sub x b)) t)"
  using sat_sub_le order_trans unfolding within_budget_def by (fastforce split: if_splits)

lemma intake_wf_sub: "intake_wf t \<Longrightarrow> intake_wf (in_bytes_update (hm_modify k (\<lambda>x. sat_sub x b)) t)"
  using within_budget_sub [of t k b] by (simp add: intake_wf_def buffers_ready_def)

lemma intake_wf_bytes: "intake_wf t \<Longrightarrow> within_budget (t\<lparr>in_bytes := bs\<rparr>) \<Longrightarrow> intake_wf (t\<lparr>in_bytes := bs\<rparr>)"
  by (simp add: intake_wf_def buffers_ready_def)

lemma intake_wf_pending [simp]: "intake_wf (in_pending_update f t) = intake_wf t"
  by (simp add: intake_wf_def buffers_ready_def within_budget_def)

lemma unmark_if_empty_wf: "intake_wf (cs_intake s) \<Longrightarrow> intake_wf (cs_intake (unmark_if_empty sub s))"
  by (auto simp: intake_wf_def unmark_if_empty_intake buffers_ready_def within_budget_def wfs.down_ok wfs.down_keys wfs.down_ready)

lemma requeue_front_wf:
  "intake_wf (cs_intake s) \<Longrightarrow> map_of (the_buffers s) sub \<noteq> None \<Longrightarrow> intake_wf (cs_intake (requeue_front sub d s))"
  by (auto simp: intake_wf_def requeue_front_def buffers_ready_def within_budget_def wfs.up_ok wfs.up_keys wfs.up_ready split: if_splits)

lemma buffer_delivery_wf:
  assumes "intake_wf (cs_intake s)" and "\<not> over_budget sub d s"
  shows "intake_wf (cs_intake (buffer_delivery sub d s))"
proof -
  have "within_budget (in_bytes_update (hm_modify sub (\<lambda>b. sat_add b (payload_bytes (d_payload d)))) (cs_intake s))"
    using assms by (auto simp: within_budget_def over_budget_def intake_wf_def split: option.splits if_splits)
  with assms(1) show ?thesis
    by (auto simp: intake_wf_def buffer_delivery_def Let_def buffers_ready_def within_budget_def
        wfs.up_ok wfs.up_keys wfs.up_ready split: if_splits)
qed

lemma settle_oversized_wf:
  assumes "intake_wf (cs_intake s)"
  shows "intake_wf (cs_intake (settle_oversized sub d s))"
proof -
  let ?b = "payload_bytes (d_payload d)"
  have le: "sat_sub (sat_add x ?b) ?b \<le> x" for x
    by (auto simp: sat_sub_def sat_add_def word_le_nat_alt unat_sub_if' unat_word_ariths unat_max_word)
  have "cs_intake (settle_oversized sub d s) =
      in_bytes_update (\<lambda>m. hm_modify sub (\<lambda>x. sat_sub x ?b) (hm_modify sub (\<lambda>x. sat_add x ?b) m)) (cs_intake s)"
    by (simp add: settle_oversized_def Let_def settle_poison_intake)
  moreover have "within_budget (in_bytes_update (\<lambda>m. hm_modify sub (\<lambda>x. sat_sub x ?b) (hm_modify sub (\<lambda>x. sat_add x ?b) m)) (cs_intake s))"
    using assms le order_trans unfolding within_budget_def intake_wf_def by (fastforce split: if_splits)
  ultimately show ?thesis using assms by (simp add: intake_wf_def buffers_ready_def)
qed

lemma drain_list_wf: "intake_wf (cs_intake s) \<Longrightarrow> intake_wf (cs_intake (drain_list q s))"
  by (induction q s rule: drain_list.induct) (auto simp: settle_oversized_wf buffer_delivery_wf)

lemma drain_pending_wf: "intake_wf (cs_intake s) \<Longrightarrow> intake_wf (cs_intake (drain_pending s))"
  by (simp add: drain_pending_def drain_list_wf)

lemma popped_wf:
  assumes "intake_wf (cs_intake s)" and "pick (in_scheduler (cs_intake s)) = (r, sch)"
    and "map_of (the_buffers s) sub = Some (d # ds)"
  shows "intake_wf (cs_intake (buffers_upd (hm_modify sub (\<lambda>_. ds)) (scheduler_upd (\<lambda>_. sch) s)))"
  using assms wfs.next_ok [OF _ assms(2)] wfs.next_keys [OF _ assms(2)] wfs.next_ready [OF _ assms(2)]
  by (auto simp: intake_wf_def buffers_ready_def within_budget_def split: if_splits) (metis option.discI)

lemma dispatch_step_wf:
  assumes wf: "intake_wf (cs_intake s)" and step: "dispatch_step now s = (go, s')"
  shows "intake_wf (cs_intake s')"
proof (cases "in_source_errors (cs_intake s)")
  case (Cons e es)
  with assms show ?thesis
    by (auto simp: dispatch_step_def intake_wf_def buffers_ready_def within_budget_def dest!: try_send_itemD(1) split: option.splits)
next
  case Nil
  obtain r sch where p: "pick (in_scheduler (cs_intake s)) = (r, sch)" by (cases "pick (in_scheduler (cs_intake s))")
  have sch: "intake_wf ((cs_intake s)\<lparr>in_scheduler := sch\<rparr>)"
    using wf wfs.next_ok [OF _ p] wfs.next_keys [OF _ p] wfs.next_ready [OF _ p]
    by (auto simp: intake_wf_def buffers_ready_def within_budget_def)
  show ?thesis
  proof (cases "\<exists>sub d ds. r = Some sub \<and> map_of (the_buffers s) sub = Some (d # ds)")
    case True
    then obtain sub d ds where r: "r = Some sub" and b: "map_of (the_buffers s) sub = Some (d # ds)" by blast
    let ?s = "buffers_upd (hm_modify sub (\<lambda>_. ds)) (scheduler_upd (\<lambda>_. sch) s)"
    have wf1: "intake_wf (cs_intake ?s)" using popped_wf [OF wf p b] .
    have "dispatch_delivery now sub d ?s = (go, s')" using step Nil p r b by (simp add: dispatch_step_def)
    then show ?thesis
    proof (cases rule: dispatch_delivery_intake)
      case requeued
      then show ?thesis using requeue_front_wf [OF wf1, of sub d] b by simp
    next
      case sent
      then show ?thesis using unmark_if_empty_wf [OF wf1, of sub] intake_wf_sub by metis
    next
      case poison
      then show ?thesis using intake_wf_sub [OF wf1] by simp
    qed
  next
    case False
    then have "s' = scheduler_upd (\<lambda>_. sch) s \<or> (\<exists>sub. r = Some sub \<and> (\<forall>d ds. map_of (the_buffers s) sub \<noteq> Some (d # ds)) \<and>
        s' = scheduler_upd (mark_empty sub) (scheduler_upd (\<lambda>_. sch) s))"
      using step Nil p by (cases r) (auto simp: dispatch_step_def buffers_ready_def split: option.splits list.splits)
    with sch show ?thesis
      by (auto simp: intake_wf_def wfs.down_ok wfs.down_keys wfs.down_ready buffers_ready_def within_budget_def)
  qed
qed

lemma dispatch_loop_wf: "intake_wf (cs_intake s) \<Longrightarrow> intake_wf (cs_intake (dispatch_loop now s))"
proof (induction now s rule: dispatch_loop.induct)
  case (1 now s)
  show ?case
    using 1 dispatch_step_wf [of s now]
    by (subst dispatch_loop.simps) (auto split: prod.splits bool.splits)
qed

lemma dispatch_wf: "intake_wf (cs_intake s) \<Longrightarrow> intake_wf (cs_intake (dispatch now s))"
  by (simp add: dispatch_def dispatch_loop_wf drain_pending_wf)

lemma claim_ledger_intake [simp]: "cs_intake (claim_ledger sub tag s) = cs_intake s"
  by (simp add: claim_ledger_def split: option.splits)

lemma record_source_error_wf: "intake_wf (cs_intake s) \<Longrightarrow> intake_wf (cs_intake (record_source_error e s))"
  by (auto simp: record_source_error_def intake_wf_def buffers_ready_def within_budget_def SOURCE_ERROR_CAPACITY_def)

lemma handle_incoming_wf:
  assumes "intake_wf (cs_intake s)"
  shows "intake_wf (cs_intake (handle_incoming now sub r s))"
proof (cases r)
  case (Inl e)
  with assms show ?thesis by (simp add: handle_incoming_def dispatch_wf record_source_error_wf)
next
  case (Inr d)
  with assms show ?thesis
    by (simp add: handle_incoming_def Let_def settle_oversized_wf dispatch_wf buffer_delivery_wf drain_pending_wf)
qed

text \<open>The parked deliveries only shrink, except for the one delivery that is parked on arrival.\<close>

lemma settle_oversized_pending [simp]: "in_pending (cs_intake (settle_oversized sub d s)) = in_pending (cs_intake s)"
  by (simp add: settle_oversized_def Let_def settle_poison_intake)

lemma drain_list_pending: "length (in_pending (cs_intake (drain_list q s))) \<le> length q"
  by (induction q s rule: drain_list.induct) auto

lemma dispatch_step_pending: "dispatch_step now s = (go, s') \<Longrightarrow> in_pending (cs_intake s') = in_pending (cs_intake s)"
  by (auto simp: dispatch_step_def requeue_front_def unmark_if_empty_intake
      dest!: try_send_itemD(1) elim!: dispatch_delivery_intake split: list.splits option.splits prod.splits)

lemma dispatch_loop_pending: "in_pending (cs_intake (dispatch_loop now s)) = in_pending (cs_intake s)"
proof (induction now s rule: dispatch_loop.induct)
  case (1 now s)
  then show ?case
    by (subst dispatch_loop.simps) (auto dest: dispatch_step_pending split: prod.splits bool.splits)
qed

lemma dispatch_pending_length: "length (in_pending (cs_intake (dispatch now s))) \<le> length (in_pending (cs_intake s))"
  by (simp add: dispatch_def dispatch_loop_pending drain_pending_def drain_list_pending)

lemma handle_incoming_pending:
  "length (in_pending (cs_intake (handle_incoming now sub r s))) \<le> Suc (length (in_pending (cs_intake s)))"
proof (cases r)
  case (Inl e)
  show ?thesis using dispatch_pending_length [of now "record_source_error (consumer_error_new TransportFailure (te_message e)) s"]
    by (simp add: Inl handle_incoming_def) (simp add: record_source_error_def)
next
  case (Inr d)
  let ?s = "claim_ledger sub (d_delivery_tag d) s"
  let ?q = "pending_upd (\<lambda>q. q @ [(sub, d)]) ?s"
  have "length (in_pending (cs_intake (dispatch now (drain_pending ?q)))) \<le> length (in_pending (cs_intake ?q))"
    using dispatch_pending_length [of now "drain_pending ?q"] drain_list_pending [of "in_pending (cs_intake ?q)" ?q]
    by (simp only: drain_pending_def order_trans)
  moreover have "in_pending (cs_intake (buffer_delivery sub d ?s)) = in_pending (cs_intake s)"
    by (simp add: buffer_delivery_def Let_def)
  then have "length (in_pending (cs_intake (dispatch now (buffer_delivery sub d ?s)))) \<le> length (in_pending (cs_intake s))"
    using dispatch_pending_length [of now "buffer_delivery sub d ?s"] by simp
  ultimately show ?thesis by (auto simp: Inr handle_incoming_def Let_def)
qed

section \<open>What the intake side leaves alone\<close>

text \<open>
  The intake side never touches the settlements: it appends tokens, hand-off items and spawned wire
  operations, and changes ledger entries and the ring of early acknowledgements.
\<close>

definition flight_part where
  "flight_part t = (st_futures t, st_throughs t, st_in_flight t, st_queues t, st_through_queues t, st_batch t)"

definition ledgers_sorted :: "consumer_state \<Rightarrow> bool" where
  "ledgers_sorted s \<longleftrightarrow> (\<forall>k L. map_of (the_ledgers s) k = Some L \<longrightarrow> bt_wf (cl_pending L))"

definition bounded_errors :: "shared \<Rightarrow> bool" where
  "bounded_errors h \<longleftrightarrow> length (sh_errors h) \<le> sh_error_capacity h \<and> 0 < sh_error_capacity h \<and> length (sh_flume h) \<le> sh_flume_capacity h"

definition intake_step :: "consumer_state \<Rightarrow> consumer_state \<Rightarrow> bool" where
  "intake_step s s' \<longleftrightarrow> cs_subscriptions s' = cs_subscriptions s \<and> cs_adaptive s' = cs_adaptive s \<and>
     flight_part (cs_settling s') = flight_part (cs_settling s) \<and> (ledgers_sorted s \<longrightarrow> ledgers_sorted s') \<and>
     (\<exists>ts. the_tokens s' = the_tokens s @ ts) \<and> (bounded_errors (cs_shared s) \<longrightarrow> bounded_errors (cs_shared s')) \<and>
     in_pending_capacity (cs_intake s') = in_pending_capacity (cs_intake s)"

lemma intake_step_refl [simp]: "intake_step s s"
  by (simp add: intake_step_def)

lemma intake_step_trans [trans]: "intake_step s t \<Longrightarrow> intake_step t u \<Longrightarrow> intake_step s u"
  by (auto simp: intake_step_def)

lemma bt_wf_hm_modify [simp]: "bt_wf (hm_modify k f xs) = bt_wf xs"
proof -
  have "map fst (AList.update k v xs) = map fst xs" if "map_of xs k = Some w" for v w
    using that by (simp add: update_keys) (metis map_of_SomeD image_eqI fst_conv)
  then show ?thesis by (auto simp: bt_wf_def hm_modify_def split: option.splits)
qed

lemma intake_step_intake: "in_pending_capacity (f (cs_intake s)) = in_pending_capacity (cs_intake s) \<Longrightarrow> intake_step s (cs_intake_update f s)"
  by (simp add: intake_step_def ledgers_sorted_def)

lemma intake_step_ledger:
  "(\<And>L. bt_wf (cl_pending L) \<Longrightarrow> bt_wf (cl_pending (f L))) \<Longrightarrow> intake_step s (ledgers_upd (hm_modify k f) s)"
  "(\<And>L. bt_wf (cl_pending L) \<Longrightarrow> bt_wf (cl_pending (f L))) \<Longrightarrow> intake_step s (ledgers_upd (hm_or_default k channel_ledger_default f) s)"
  by (auto simp: intake_step_def ledgers_sorted_def flight_part_def channel_ledger_default_def split: if_splits option.splits)

lemma intake_step_shared:
  "(\<exists>ts. sh_tokens (f (cs_shared s)) = the_tokens s @ ts) \<Longrightarrow> (bounded_errors (cs_shared s) \<Longrightarrow> bounded_errors (f (cs_shared s))) \<Longrightarrow>
     intake_step s (cs_shared_update f s)"
  by (auto simp: intake_step_def ledgers_sorted_def)

lemma intake_step_early: "intake_step s (early_acked_upd f s)"
  by (simp add: intake_step_def ledgers_sorted_def flight_part_def)

lemma intake_step_metrics: "intake_step s (metrics_upd f s)" "intake_step s (spawned_upd g s)"
  by (rule intake_step_shared; simp add: bounded_errors_def)+

lemma intake_step_record [simp]: "intake_step s (record_settlement_error e s)"
  unfolding record_settlement_error_def by (rule intake_step_shared) (auto simp: bounded_errors_def)

lemma intake_step_send: "try_send_item x s = Some s' \<Longrightarrow> intake_step s s'"
  using try_send_itemD [of x s s'] by (auto intro!: intake_step_shared simp: bounded_errors_def)

lemma intake_step_alloc: "alloc_token t s = (i, s') \<Longrightarrow> intake_step s s'"
  unfolding alloc_token_def by (auto intro!: intake_step_shared simp: bounded_errors_def)

lemma intake_step_poison: "intake_step s (settle_poison sub h tag mid b detail d idn s)"
proof -
  have 1: "intake_step s (poison_wire sub h tag idn s)"
    by (simp add: poison_wire_def spawn_poison_settlement_def intake_step_metrics split: option.splits)
  have 2: "intake_step x (record_poison_metrics h d x)" for x
    unfolding record_poison_metrics_def by (rule intake_step_metrics)
  have 3: "intake_step x (bytes_upd f x)" for x f by (rule intake_step_intake) simp
  have 4: "intake_step x (forget_delivery sub tag x)" for x
    unfolding forget_delivery_def by (auto intro: intake_step_ledger simp: bt_wf_remove split: option.splits)
  show ?thesis
    unfolding settle_poison_def
    by (rule intake_step_trans [OF intake_step_trans [OF intake_step_trans [OF intake_step_trans [OF 1 2] 3] 4] intake_step_record])
qed

lemma intake_step_oversized: "intake_step s (settle_oversized sub d s)"
  unfolding settle_oversized_def Let_def
  by (rule intake_step_trans [OF intake_step_intake intake_step_poison]) simp

lemma intake_step_buffer: "intake_step s (buffer_delivery sub d s)"
  by (simp add: buffer_delivery_def Let_def intake_step_def ledgers_sorted_def)

lemma intake_step_drain_list: "intake_step s (drain_list q s)"
proof (induction q s rule: drain_list.induct)
  case (1 s)
  show ?case by (simp add: intake_step_intake)
next
  case (2 sub d rest s)
  have stop: "intake_step s (pending_upd (\<lambda>_. (sub, d) # rest) s)" by (rule intake_step_intake) simp
  show ?case
  proof (cases "over_budget sub d s")
    case True
    then show ?thesis
      using stop intake_step_trans [OF intake_step_oversized 2(1) [OF True]] by simp
  next
    case False
    then show ?thesis using intake_step_trans [OF intake_step_buffer 2(2) [OF False]] by simp
  qed
qed

lemma intake_step_drain: "intake_step s (drain_pending s)"
  by (simp add: drain_pending_def intake_step_drain_list)

lemma intake_step_requeue: "intake_step s (requeue_front sub d s)"
  by (simp add: requeue_front_def intake_step_def ledgers_sorted_def)

lemma intake_step_unmark: "intake_step s (unmark_if_empty sub s)"
  by (simp add: unmark_if_empty_def intake_step_intake)

lemma intake_step_count: "intake_step s (count_delivery a s)"
  unfolding count_delivery_def by (rule intake_step_metrics)

lemma intake_step_early_wire: "intake_step s (early_wire_ack sub rt tag s)"
  unfolding early_wire_ack_def remember_early_acked_def Let_def
  using intake_step_trans [OF intake_step_early intake_step_metrics(2)] by simp

lemma intake_step_attach: "intake_step s (attach_token sub tag i s)"
  unfolding attach_token_def by (auto intro: intake_step_ledger split: option.splits)

lemma intake_step_dispatch_early:
  assumes "dispatch_early now sub rt mid a d s = (go, s')"
  shows "intake_step s s'"
proof -
  obtain i s1 where alloc: "alloc_token (token_auto_acked (identity_of sub rt d) mid (d_correlation_id d) (d_payload d) (d_headers d) a now)
             (early_wire_ack sub rt (d_delivery_tag d) s) = (i, s1)" by fastforce
  have 1: "intake_step s s1"
    using intake_step_trans [OF intake_step_early_wire intake_step_alloc [OF alloc]] .
  show ?thesis
  proof (cases "try_send_item (Inr (item_of sub mid d a i)) s1")
    case None
    with assms alloc intake_step_trans [OF 1 intake_step_requeue] show ?thesis by (auto simp: dispatch_early_def)
  next
    case (Some s2)
    let ?u = "bytes_upd (hm_modify sub (\<lambda>b. sat_sub b (payload_bytes (d_payload d)))) (unmark_if_empty sub s2)"
    have "intake_step s2 ?u"
      using intake_step_trans [OF intake_step_unmark intake_step_intake] by simp
    then have "intake_step s2 (metrics_upd (record_ack 0) (count_delivery a ?u))"
      using intake_step_trans [OF intake_step_trans [OF _ intake_step_count] intake_step_metrics(1)] by simp
    with assms alloc Some intake_step_trans [OF intake_step_trans [OF 1 intake_step_send [OF Some]]]
    show ?thesis by (simp add: dispatch_early_def)
  qed
qed

lemma intake_step_dispatch_pending:
  assumes "dispatch_pending now sub rt mid a d s = (go, s')"
  shows "intake_step s s'"
proof -
  obtain i s1 where alloc: "alloc_token (token_pending (identity_of sub rt d) mid (d_correlation_id d) (d_payload d) (d_headers d) a now) s = (i, s1)"
    by fastforce
  let ?s2 = "attach_token sub (d_delivery_tag d) i s1"
  have 1: "intake_step s ?s2" using intake_step_trans [OF intake_step_alloc [OF alloc] intake_step_attach] .
  show ?thesis
  proof (cases "try_send_item (Inr (item_of sub mid d a i)) ?s2")
    case None
    with assms alloc intake_step_trans [OF 1 intake_step_requeue] show ?thesis by (auto simp: dispatch_pending_def Let_def)
  next
    case (Some s3)
    then have "intake_step s (count_delivery a (unmark_if_empty sub s3))"
      using intake_step_trans [OF 1] intake_step_send intake_step_trans [OF intake_step_unmark intake_step_count]
        intake_step_trans by blast
    with assms alloc Some show ?thesis by (simp add: dispatch_pending_def Let_def)
  qed
qed

lemma intake_step_dispatch_delivery:
  assumes "dispatch_delivery now sub d s = (go, s')"
  shows "intake_step s s'"
  using assms intake_step_trans [OF intake_step_record intake_step_dispatch_early]
  by (auto simp: dispatch_delivery_def Let_def intake_step_requeue intake_step_poison
      intake_step_dispatch_early intake_step_dispatch_pending split: option.splits sum.splits if_splits)

lemma intake_step_dispatch_step:
  assumes "dispatch_step now s = (go, s')"
  shows "intake_step s s'"
proof (cases "in_source_errors (cs_intake s)")
  case (Cons e es)
  have "intake_step t (source_errors_upd (\<lambda>_. es) (cs_shared_update (sh_flume_errors_update Suc) t))" for t
    by (rule intake_step_trans [OF intake_step_shared intake_step_intake]) (simp_all add: bounded_errors_def)
  then show ?thesis
    using Cons assms intake_step_trans [OF intake_step_send]
    by (auto simp: dispatch_step_def split: option.splits)
next
  case Nil
  have 1: "intake_step s (buffers_upd f (scheduler_upd g s))" "intake_step s (scheduler_upd f' (scheduler_upd g s))" for f g f'
    by (rule intake_step_trans [OF intake_step_intake intake_step_intake]; simp)+
  have 2: "intake_step s (scheduler_upd g s)" for g by (rule intake_step_intake) simp
  show ?thesis
  proof (cases "pick (in_scheduler (cs_intake s))")
    case (Pair r sch)
    with Nil assms 1(2) 2 intake_step_trans [OF 1(1) intake_step_dispatch_delivery] show ?thesis
      by (auto simp: dispatch_step_def split: option.splits list.splits)
  qed
qed

lemma intake_step_dispatch_loop: "intake_step s (dispatch_loop now s)"
proof (induction now s rule: dispatch_loop.induct)
  case (1 now s)
  obtain go s' where step: "dispatch_step now s = (go, s')" by fastforce
  show ?case
    using 1 [OF step [symmetric]] intake_step_dispatch_step [OF step] step intake_step_trans
    by (subst dispatch_loop.simps) (cases go; simp; blast)
qed

lemma intake_step_dispatch: "intake_step s (dispatch now s)"
  unfolding dispatch_def by (rule intake_step_trans [OF intake_step_drain intake_step_dispatch_loop])

lemma intake_step_handle_incoming: "intake_step s (handle_incoming now sub r s)"
proof (cases r)
  case (Inl e)
  have "intake_step s (record_source_error x s)" for x
    unfolding record_source_error_def by (rule intake_step_intake) simp
  then show ?thesis using Inl intake_step_trans [OF _ intake_step_dispatch] by (simp add: handle_incoming_def)
next
  case (Inr d)
  let ?s = "claim_ledger sub (d_delivery_tag d) s"
  have 1: "intake_step s ?s"
    unfolding claim_ledger_def by (auto intro: intake_step_ledger simp: bt_wf_insert split: option.splits)
  have 2: "intake_step ?s (pending_upd (\<lambda>q. q @ [(sub, d)]) ?s)" by (rule intake_step_intake) simp
  have "intake_step ?s (handle_incoming now sub r s)"
    using Inr intake_step_oversized intake_step_trans [OF 2 intake_step_metrics(1)]
      intake_step_trans [OF intake_step_buffer intake_step_dispatch]
      intake_step_trans [OF 2 intake_step_trans [OF intake_step_drain intake_step_dispatch]]
    by (auto simp: handle_incoming_def Let_def)
  with 1 show ?thesis by (rule intake_step_trans)
qed

section \<open>Work conservation\<close>

definition can_send :: "consumer_state \<Rightarrow> bool" where
  "can_send s \<longleftrightarrow> sh_flume_open (cs_shared s) \<and> length (sh_flume (cs_shared s)) < sh_flume_capacity (cs_shared s)"

text \<open>Only subscriptions with buffered deliveries are ready, all are known, none of their deliveries is poison.\<close>

definition ready_exact :: "consumer_state \<Rightarrow> bool" where
  "ready_exact s \<longleftrightarrow> (\<forall>k. k \<in> ready_ids (in_scheduler (cs_intake s)) \<longrightarrow> (\<exists>d ds. map_of (the_buffers s) k = Some (d # ds)))"

definition subs_known :: "consumer_state \<Rightarrow> bool" where
  "subs_known s \<longleftrightarrow> (\<forall>k. map_of (the_buffers s) k \<noteq> None \<longrightarrow> map_of (cs_subscriptions s) k \<noteq> None)"

definition poison_free :: "consumer_state \<Rightarrow> bool" where
  "poison_free s \<longleftrightarrow> (\<forall>k b d. map_of (the_buffers s) k = Some b \<longrightarrow> d \<in> set b \<longrightarrow> \<not> poisonous s k d)"

definition conserving :: "consumer_state \<Rightarrow> bool" where
  "conserving s \<longleftrightarrow> intake_wf (cs_intake s) \<and> ready_exact s \<and> subs_known s \<and> poison_free s"

lemma poisonous_step: "intake_step s s' \<Longrightarrow> poisonous s' = poisonous s"
  by (simp add: fun_eq_iff poisonous_def intake_step_def)

lemma try_send_item_None: "try_send_item x s = None \<longleftrightarrow> \<not> can_send s"
  by (simp add: try_send_item_def can_send_def)

lemma can_send_requeue [simp]: "can_send (requeue_front sub d s) = can_send s"
  by (simp add: can_send_def requeue_front_def)

lemma dispatch_delivery_stop:
  assumes "dispatch_delivery now sub d s = (False, s')" and "map_of (cs_subscriptions s) sub \<noteq> None"
  shows "\<not> can_send s'"
  using assms by (auto simp: dispatch_delivery_def dispatch_early_def dispatch_pending_def Let_def try_send_item_None
      split: option.splits sum.splits if_splits prod.splits)

lemma dispatch_step_stop:
  assumes inv: "conserving s" and stop: "dispatch_step now s = (False, s')"
  shows "\<not> can_send s' \<or> in_source_errors (cs_intake s') = [] \<and> (\<forall>k b. map_of (the_buffers s') k = Some b \<longrightarrow> b = [])"
proof (cases "in_source_errors (cs_intake s)")
  case (Cons e es)
  with stop show ?thesis by (auto simp: dispatch_step_def try_send_item_None split: option.splits)
next
  case Nil
  obtain r sch where p: "pick (in_scheduler (cs_intake s)) = (r, sch)" by fastforce
  have wf: "sched_wf (in_scheduler (cs_intake s))" using inv by (simp add: conserving_def intake_wf_def)
  show ?thesis
  proof (cases r)
    case None
    then have "ready_ids (in_scheduler (cs_intake s)) = {}" using wfs.next_None [OF wf] p by simp
    then have "map_of (the_buffers s) k \<noteq> Some (d # ds)" for k d ds
      using inv by (auto simp: conserving_def intake_wf_def buffers_ready_def)
    moreover have "s' = scheduler_upd (\<lambda>_. sch) s" using stop Nil None p by (simp add: dispatch_step_def)
    ultimately show ?thesis using Nil by simp (metis list.exhaust)
  next
    case (Some sub)
    then obtain d ds where b: "map_of (the_buffers s) sub = Some (d # ds)"
      using wfs.next_Some [OF wf] p inv by (fastforce simp: conserving_def ready_exact_def)
    then have "map_of (cs_subscriptions s) sub \<noteq> None" using inv by (simp add: conserving_def subs_known_def)
    then show ?thesis
      using stop Nil Some p b dispatch_delivery_stop [of now sub d "buffers_upd (hm_modify sub (\<lambda>_. ds)) (scheduler_upd (\<lambda>_. sch) s)" s']
      by (simp add: dispatch_step_def)
  qed
qed

text \<open>A step that goes on keeps the predicate: the subscription it served is taken off the ready set as
  soon as its buffer is empty, which holds because the delivery was not poison.\<close>

lemma dispatch_step_go:
  assumes inv: "conserving s" and step: "dispatch_step now s = (True, s')"
  shows "conserving s'"
proof -
  have wf': "intake_wf (cs_intake s')" using inv dispatch_step_wf [OF _ step] by (simp add: conserving_def)
  have subs: "cs_subscriptions s' = cs_subscriptions s" "poisonous s' = poisonous s"
    using intake_step_dispatch_step [OF step] poisonous_step by (auto simp: intake_step_def)
  show ?thesis
  proof (cases "in_source_errors (cs_intake s)")
    case (Cons e es)
    with step have "the_buffers s' = the_buffers s" "in_scheduler (cs_intake s') = in_scheduler (cs_intake s)"
      by (auto simp: dispatch_step_def dest!: try_send_itemD(1) split: option.splits)
    with inv wf' subs show ?thesis by (simp add: conserving_def ready_exact_def subs_known_def poison_free_def)
  next
    case Nil
    then obtain sub sch d ds where
      picked: "pick (in_scheduler (cs_intake s)) = (Some sub, sch)" "map_of (the_buffers s) sub = Some (d # ds)"
      and go: "dispatch_delivery now sub d (buffers_upd (hm_modify sub (\<lambda>_. ds)) (scheduler_upd (\<lambda>_. sch) s)) = (True, s')"
      using step by (auto simp: dispatch_step_def split: prod.splits option.splits list.splits)
    let ?s = "buffers_upd (hm_modify sub (\<lambda>_. ds)) (scheduler_upd (\<lambda>_. sch) s)"
    have wf: "sched_wf (in_scheduler (cs_intake s))" using inv by (simp add: conserving_def intake_wf_def)
    note sch = wfs.next_ok [OF wf picked(1)] wfs.next_ready [OF wf picked(1)]
    have "\<not> poisonous ?s sub d"
      using inv picked(2) by (auto simp: conserving_def poison_free_def poisonous_def)
    with go have "the_buffers s' = the_buffers ?s"
      "in_scheduler (cs_intake s') = (if ds = [] then mark_empty sub sch else sch)"
      by (auto elim!: dispatch_delivery_intake simp: unmark_if_empty_intake picked(2))
    with inv wf' subs picked(2) sch show ?thesis
      by (auto simp: conserving_def ready_exact_def subs_known_def poison_free_def wfs.down_ready neq_Nil_conv split: if_splits)
  qed
qed

lemma dispatch_loop_conserves:
  "conserving s \<Longrightarrow> s' = dispatch_loop now s \<Longrightarrow>
     \<not> can_send s' \<or> in_source_errors (cs_intake s') = [] \<and> (\<forall>k b. map_of (the_buffers s') k = Some b \<longrightarrow> b = [])"
proof (induction now s rule: dispatch_loop.induct)
  case (1 now s)
  obtain go t where step: "dispatch_step now s = (go, t)" by fastforce
  show ?case
  proof (cases go)
    case True
    with 1 step dispatch_step_go show ?thesis by (subst (asm) (2) dispatch_loop.simps) simp
  next
    case False
    with 1 step dispatch_step_stop show ?thesis by (subst (asm) (2) dispatch_loop.simps) simp
  qed
qed

lemma buffer_delivery_conserving:
  assumes "conserving s" and "\<not> over_budget sub d s" and "\<not> poisonous s sub d"
  shows "conserving (buffer_delivery sub d s)"
  using assms buffer_delivery_wf [of s sub d]
  by (auto simp: conserving_def ready_exact_def subs_known_def poison_free_def poisonous_def intake_wf_def
      buffer_delivery_def Let_def wfs.up_ready neq_Nil_conv [symmetric] split: if_splits)

lemma drain_list_conserving:
  "conserving s \<Longrightarrow> (\<And>k d. (k, d) \<in> set q \<Longrightarrow> \<not> poisonous s k d) \<Longrightarrow> conserving (drain_list q s)"
proof (induction q s rule: drain_list.induct)
  case (1 s)
  then show ?case by (simp add: conserving_def ready_exact_def subs_known_def poison_free_def poisonous_def)
next
  case (2 sub d rest s)
  have wf: "intake_wf (cs_intake s)" using 2(3) by (simp add: conserving_def)
  have "conserving (pending_upd f s)" for f
    using 2(3) by (simp add: conserving_def ready_exact_def subs_known_def poison_free_def poisonous_def)
  moreover have "conserving (settle_oversized sub d s)"
  proof -
    have "the_buffers (settle_oversized sub d s) = the_buffers s"
      "in_scheduler (cs_intake (settle_oversized sub d s)) = in_scheduler (cs_intake s)"
      by (simp_all add: settle_oversized_def Let_def settle_poison_intake)
    then show ?thesis
      using 2(3) settle_oversized_wf [OF wf, of sub d] poisonous_step [OF intake_step_oversized [of s sub d]]
        intake_step_oversized [of s sub d]
      by (simp add: conserving_def ready_exact_def subs_known_def poison_free_def intake_step_def)
  qed
  moreover have "conserving (buffer_delivery sub d s)" if "\<not> over_budget sub d s"
    using buffer_delivery_conserving [OF 2(3) that] 2(4) [of sub d] by simp
  ultimately show ?case
    using 2 poisonous_step [OF intake_step_oversized [of s sub d]] poisonous_step [OF intake_step_buffer [of s sub d]]
    by auto
qed

lemma dispatch_conserves:
  assumes "conserving s" and "\<And>k d. (k, d) \<in> set (in_pending (cs_intake s)) \<Longrightarrow> \<not> poisonous s k d"
    and "s' = dispatch now s"
  shows "\<not> can_send s' \<or> in_source_errors (cs_intake s') = [] \<and> (\<forall>k b. map_of (the_buffers s') k = Some b \<longrightarrow> b = [])"
  using dispatch_loop_conserves [OF drain_list_conserving [OF assms(1,2)]] assms(3)
  by (simp add: dispatch_def drain_pending_def)

end
