(* ===== verification/Consumer_Actor.thy ===== *)
theory Consumer_Actor
  imports Consumer_State
begin

text \<open>
  The settlement side of the consumer actor (\<^verbatim>\<open>consumer/actor.rs\<close>): claiming, launching and
  completing settlements, cumulative acknowledgements, the flush of recorded acknowledgements and
  the teardown. A future in flight is the data it was built from; executing it is a function of the
  environment, the channels and publishers outside the actor.
\<close>

section \<open>Environment\<close>

record 'e consumer_env =
  ev_sha :: "bytes \<Rightarrow> bytes"
  ev_ack :: "nat \<Rightarrow> u64 \<Rightarrow> bool \<Rightarrow> 'e \<Rightarrow> unit transport_result \<times> 'e"
  ev_reject :: "nat \<Rightarrow> u64 \<Rightarrow> bool \<Rightarrow> 'e \<Rightarrow> unit transport_result \<times> 'e"
  ev_try_publish :: "nat \<Rightarrow> pub_request \<Rightarrow> 'e \<Rightarrow> (publish_error + nat) \<times> 'e"
  ev_wait :: "nat \<Rightarrow> nat \<Rightarrow> 'e \<Rightarrow> publish_result \<times> 'e"
  ev_confirm_timeout :: "nat \<Rightarrow> duration"
  ev_now :: "'e \<Rightarrow> instant"

definition settle_transport_error :: "transport_error \<Rightarrow> consumer_error" where
  "settle_transport_error e = consumer_error_new TransportFailure (te_message e)"

definition settle_publish_error :: "publish_error \<Rightarrow> consumer_error" where
  "settle_publish_error e = consumer_error_new PublishFailure (pe_message e)"

definition settlement_error :: "token \<Rightarrow> consumer_error_kind \<Rightarrow> string \<Rightarrow> settlement_error" where
  "settlement_error t k m = \<lparr>sx_delivery_tag = di_delivery_tag (tk_identity t),
     sx_subscription = di_subscription (tk_identity t), sx_kind = k, sx_message = m\<rparr>"

definition token_sub :: "token \<Rightarrow> string" where
  "token_sub t = di_subscription (tk_identity t)"

definition token_tag :: "token \<Rightarrow> u64" where
  "token_tag t = di_delivery_tag (tk_identity t)"

definition token_live :: "token \<Rightarrow> connection_key \<times> u64 \<times> u16" where
  "token_live t = (di_connection_key (tk_identity t), di_generation (tk_identity t), di_channel_id (tk_identity t))"

definition set_token_state :: "delivery_state \<Rightarrow> token_id \<Rightarrow> consumer_state \<Rightarrow> consumer_state" where
  "set_token_state st i = tokens_upd (store_token (\<lambda>t. t\<lparr>tk_state := delivery_state_code st\<rparr>) i)"

definition set_settling :: "bool \<Rightarrow> token_id \<Rightarrow> consumer_state \<Rightarrow> consumer_state" where
  "set_settling b i = tokens_upd (store_token (\<lambda>t. t\<lparr>tk_settling := b\<rparr>) i)"

text \<open>Records an error for a token.\<close>

definition fail_token :: "token_id \<Rightarrow> consumer_error_kind \<Rightarrow> string \<Rightarrow> consumer_state \<Rightarrow> consumer_state" where
  "fail_token i k m s = record_settlement_error (settlement_error (the_tokens s ! i) k m) s"

section \<open>Executing a settlement\<close>

definition launch_identity :: "settlement_launch \<Rightarrow> connection_key \<times> u64 \<times> u16" where
  "launch_identity l = (sl_connection_key l, sl_generation l, sl_channel_id l)"

definition ensure_live_generation :: "connection_key \<times> u64 \<times> u16 \<Rightarrow> token \<Rightarrow> consumer_error + unit" where
  "ensure_live_generation live t =
     (if live \<noteq> token_live t
      then Inl (consumer_error_new StaleGeneration ''delivery belongs to a stale connection generation or channel'')
      else Inr ())"

definition release_request :: "(bytes \<Rightarrow> bytes) \<Rightarrow> (nat \<Rightarrow> duration) \<Rightarrow> instant \<Rightarrow> settlement_launch \<Rightarrow> token \<Rightarrow> duration \<Rightarrow>
    consumer_error + nat \<times> pub_request" where
  "release_request sha confirm_timeout now l t delay =
     bind_res (ok_or (consumer_error_new MissingPublisher ''delayed release requires a publisher'') (sl_publisher l)) (\<lambda>p.
     bind_res (ok_or (consumer_error_new MissingPublisher ''delayed release requires a destination'') (sl_destination l)) (\<lambda>d.
     bind_res (ok_or (consumer_error_new MissingPublisher ''delayed release requires a resolved delay strategy'') (sl_delay_strategy l)) (\<lambda>strategy.
     bind_res (if as_millis delay < 2 ^ 63 then Inr (of_nat (as_millis delay) :: i64)
               else Inl (consumer_error_new PublishFailure ''delay exceeds supported range'')) (\<lambda>delay_ms.
     bind_res (map_err (consumer_error_new InvalidDelay) (delay_route sha strategy d delay_ms)) (\<lambda>_.
     bind_res (map_err (\<lambda>e. consumer_error_new MaxAttemptsExceeded (attempts_error_text e))
         (delayed_headers (with_max_attempts (sl_max_attempts l) attempts_resolver_default) (tk_headers t) (tk_attempts t))) (\<lambda>hs.
       Inr (p, \<lparr>pq_destination = d, pq_payload = tk_payload t,
         pq_properties = (message_properties_new (tk_message_id t))
           \<lparr>mp_correlation_id := tk_correlation_id t, mp_headers := hs, mp_delay_ms := Some delay_ms\<rparr>,
         pq_deadline = now + confirm_timeout p\<rparr>)))))))"

definition wire_ack :: "'e consumer_env \<Rightarrow> nat \<Rightarrow> u64 \<Rightarrow> bool \<Rightarrow> 'e \<Rightarrow> (consumer_error + unit) \<times> 'e" where
  "wire_ack env channel tag multiple e = (case ev_ack env channel tag multiple e of (r, e') \<Rightarrow> (map_err settle_transport_error r, e'))"

definition wire_reject :: "'e consumer_env \<Rightarrow> nat \<Rightarrow> u64 \<Rightarrow> bool \<Rightarrow> 'e \<Rightarrow> (consumer_error + unit) \<times> 'e" where
  "wire_reject env channel tag requeue e = (case ev_reject env channel tag requeue e of (r, e') \<Rightarrow> (map_err settle_transport_error r, e'))"

definition delayed_release :: "'e consumer_env \<Rightarrow> settlement_launch \<Rightarrow> u64 \<Rightarrow> token \<Rightarrow> duration \<Rightarrow> 'e \<Rightarrow> (consumer_error + unit) \<times> 'e" where
  "delayed_release env l tag t delay e =
     (case release_request (ev_sha env) (ev_confirm_timeout env) (ev_now env e) l t delay of
        Inl err \<Rightarrow> (Inl err, e)
      | Inr (p, request) \<Rightarrow>
          await_try (\<lambda>e. case ev_try_publish env p request e of (r, e') \<Rightarrow> (map_err settle_publish_error r, e')) (\<lambda>w.
          await_try (\<lambda>e. case ev_wait env p w e of (r, e') \<Rightarrow> (map_err settle_publish_error r, e')) (\<lambda>outcome e.
            (case outcome of
               Confirmed _ \<Rightarrow> wire_ack env (sl_channel l) tag False e
             | Returned _ _ \<Rightarrow> (Inl (consumer_error_new PublishFailure ''delayed release was not confirmed''), e)))) e)"

definition execute_settlement :: "'e consumer_env \<Rightarrow> settlement_launch \<Rightarrow> u64 \<Rightarrow> settlement \<Rightarrow> token \<Rightarrow> 'e \<Rightarrow>
    (consumer_error + delivery_state) \<times> 'e" where
  "execute_settlement env l tag st t e =
     (case ensure_live_generation (launch_identity l) t of
        Inl err \<Rightarrow> (Inl err, e)
      | Inr _ \<Rightarrow>
          (case st of
             AckS \<Rightarrow> await_try (wire_ack env (sl_channel l) tag False) (\<lambda>_ e. (Inr Acked, e)) e
           | ReleaseS delay \<Rightarrow>
               if delay = 0 then await_try (wire_reject env (sl_channel l) tag True) (\<lambda>_ e. (Inr Rejected, e)) e
               else await_try (delayed_release env l tag t delay) (\<lambda>_ e. (Inr Acked, e)) e
           | RejectS requeue \<Rightarrow> await_try (wire_reject env (sl_channel l) tag requeue) (\<lambda>_ e. (Inr Rejected, e)) e))"

definition execute_settle_through :: "'e consumer_env \<Rightarrow> settlement_launch \<Rightarrow> u64 \<Rightarrow> token \<Rightarrow> 'e \<Rightarrow>
    (consumer_error + delivery_state) \<times> 'e" where
  "execute_settle_through env l target t e =
     (case ensure_live_generation (launch_identity l) t of
        Inl err \<Rightarrow> (Inl err, e)
      | Inr _ \<Rightarrow> await_try (wire_ack env (sl_channel l) target True) (\<lambda>_ e. (Inr Acked, e)) e)"

section \<open>Claiming and launching\<close>

definition claim_settlement :: "token_id \<Rightarrow> consumer_state \<Rightarrow> channel_key option \<times> consumer_state" where
  "claim_settlement i s =
     (case channel_key_for (token_sub (the_tokens s ! i)) s of
        None \<Rightarrow> (None, fail_token i InvalidSubscription ''delivery references an unknown subscription'' (set_token_state Lost i s))
      | Some k \<Rightarrow>
          if tk_settling (the_tokens s ! i)
          then (None, fail_token i AlreadySettling ''delivery is already being settled'' s)
          else (Some k, set_settling True i s))"

definition launch_of :: "runtime_subscription \<Rightarrow> settlement_launch" where
  "launch_of rt = \<lparr>sl_channel = rs_channel rt, sl_connection_key = rs_connection_key rt, sl_generation = rs_generation rt,
     sl_channel_id = rs_channel_id rt, sl_publisher = rs_publisher rt, sl_destination = rs_destination rt,
     sl_delay_strategy = rs_delay_strategy rt, sl_max_attempts = rs_max_attempts rt\<rparr>"

definition stage_settlement_launch :: "channel_key \<Rightarrow> token_id \<Rightarrow> consumer_state \<Rightarrow> settlement_launch option \<times> consumer_state" where
  "stage_settlement_launch k i s =
     (let s1 = in_flight_upd (insert k) s in
      case map_of (cs_subscriptions s1) (token_sub (the_tokens s1 ! i)) of
        None \<Rightarrow> (None, fail_token i InvalidSubscription ''delivery references an unknown subscription''
                  (set_token_state Lost i (in_flight_upd (\<lambda>f. f - {k}) s1)))
      | Some rt \<Rightarrow> (Some (launch_of rt), s1))"

definition launch_settlement :: "channel_key \<Rightarrow> settle_params \<Rightarrow> consumer_state \<Rightarrow> consumer_state" where
  "launch_settlement k p s =
     (case stage_settlement_launch k (sp_token p) s of
        (None, s1) \<Rightarrow> s1
      | (Some l, s1) \<Rightarrow> futures_upd (\<lambda>fs. fs @ [\<lparr>sf_key = k, sf_token = sp_token p, sf_settlement = sp_settlement p, sf_launch = l\<rparr>]) s1)"

definition launch_settle_through :: "channel_key \<Rightarrow> settle_through_params \<Rightarrow> consumer_state \<Rightarrow> consumer_state" where
  "launch_settle_through k p s =
     (case stage_settlement_launch k (tp_token p) s of
        (None, s1) \<Rightarrow> s1
      | (Some l, s1) \<Rightarrow> throughs_upd (\<lambda>fs. fs @ [\<lparr>tf_key = k, tf_target = token_tag (the_tokens s1 ! tp_token p),
            tf_token = tp_token p, tf_affected = tp_affected p, tf_launch = l\<rparr>]) s1)"

definition drain_settlement_queue :: "channel_key \<Rightarrow> consumer_state \<Rightarrow> consumer_state" where
  "drain_settlement_queue k s =
     (case map_of (st_queues (cs_settling s)) k of
        Some (p # ps) \<Rightarrow> launch_settlement k p (queues_upd (hm_modify k (\<lambda>_. ps)) s)
      | _ \<Rightarrow>
          (let s1 = queues_upd (AList.delete k) s in
           case map_of (st_through_queues (cs_settling s1)) k of
             Some (p # ps) \<Rightarrow> launch_settle_through k p (through_queues_upd (hm_modify k (\<lambda>_. ps)) s1)
           | _ \<Rightarrow> through_queues_upd (AList.delete k) s1))"

definition observe_latency :: "string \<Rightarrow> duration \<Rightarrow> consumer_state \<Rightarrow> consumer_state" where
  "observe_latency sub latency = cs_adaptive_update (hm_modify sub (adaptive_observe latency))"

section \<open>Settling one delivery\<close>

definition enqueue_settlement :: "channel_key \<Rightarrow> settle_params \<Rightarrow> consumer_state \<Rightarrow> consumer_state" where
  "enqueue_settlement k p = queues_upd (hm_or_default k [] (\<lambda>q. q @ [p]))"

definition launch_or_queue :: "channel_key \<Rightarrow> settle_params \<Rightarrow> consumer_state \<Rightarrow> consumer_state" where
  "launch_or_queue k p s = (if k \<in> st_in_flight (cs_settling s) then enqueue_settlement k p s else launch_settlement k p s)"

definition handle_settle :: "token_id \<Rightarrow> settlement \<Rightarrow> duration \<Rightarrow> consumer_state \<Rightarrow> consumer_state" where
  "handle_settle i st latency s =
     (case claim_settlement i s of
        (None, s1) \<Rightarrow> s1
      | (Some k, s1) \<Rightarrow>
          if st = AckS
          then batch_upd (hm_or_default k [] (bt_insert (token_tag (the_tokens s1 ! i)) i))
                 (observe_latency (token_sub (the_tokens s1 ! i)) latency s1)
          else launch_or_queue k \<lparr>sp_token = i, sp_settlement = st\<rparr> s1)"

section \<open>Settling a prefix\<close>

text \<open>The bytes of the dash in two messages.\<close>

definition em_dash :: string where
  "em_dash = [CHR 0xE2, CHR 0x80, CHR 0x94]"

fun contiguous_from :: "u64 \<Rightarrow> (u64 \<times> ledger_entry) list \<Rightarrow> token_id list \<Rightarrow> consumer_error + u64 \<times> token_id list" where
  "contiguous_from expected [] acc = Inr (expected, acc)"
| "contiguous_from expected ((tag, e) # es) acc =
     (if tag \<noteq> expected
      then Inl (consumer_error_new TransportFailure (''non-contiguous delivery prefix '' @ em_dash @ '' gap in delivery tags''))
      else if le_state e \<noteq> Pending
      then Inl (consumer_error_new AlreadySettled ''delivery in prefix is already terminal'')
      else case le_token e of
        None \<Rightarrow> Inl (consumer_error_new TransportFailure (''delivery in prefix has no token '' @ em_dash @ '' undelivered message in ledger''))
      | Some i \<Rightarrow> contiguous_from (expected + 1) es (acc @ [i]))"

definition validate_contiguous_prefix :: "channel_ledger \<Rightarrow> u64 \<Rightarrow> consumer_error + token_id list" where
  "validate_contiguous_prefix L target =
     bind_res (contiguous_from (cl_acked_prefix L + 1)
         (bt_range (\<lambda>tag. cl_acked_prefix L + 1 \<le> tag \<and> tag \<le> target) (cl_pending L)) []) (\<lambda>(expected, tokens).
       if expected \<le> target then Inl (consumer_error_new TransportFailure ''delivery tag not found in ledger'')
       else Inr tokens)"

definition fence_settle_through :: "token_id \<Rightarrow> consumer_state \<Rightarrow>
    (channel_key \<times> connection_key \<times> u64 \<times> u16) option \<times> consumer_state" where
  "fence_settle_through i s =
     (if tk_state (the_tokens s ! i) \<noteq> delivery_state_code Pending
      then (None, fail_token i AlreadySettled ''settle-through target is already settled or terminal'' s)
      else case claim_settlement i s of
        (None, s1) \<Rightarrow> (None, s1)
      | (Some k, s1) \<Rightarrow>
          (case map_of (cs_subscriptions s1) (token_sub (the_tokens s1 ! i)) of
             None \<Rightarrow> (None, fail_token i InvalidSubscription ''delivery references an unknown subscription'' (set_settling False i s1))
           | Some rt \<Rightarrow>
               (case ensure_live_generation (live_identity rt) (the_tokens s1 ! i) of
                  Inl _ \<Rightarrow> (None, fail_token i StaleGeneration ''delivery belongs to a stale connection generation or channel''
                             (set_settling False i s1))
                | Inr _ \<Rightarrow> (Some (k, live_identity rt), s1))))"

definition handle_settle_through :: "token_id \<Rightarrow> duration \<Rightarrow> consumer_state \<Rightarrow> consumer_state" where
  "handle_settle_through i latency s =
     (case fence_settle_through i s of
        (None, s1) \<Rightarrow> s1
      | (Some (k, live), s1) \<Rightarrow>
          (let tag = token_tag (the_tokens s1 ! i) in
           case map_of (the_ledgers s1) k of
             None \<Rightarrow> fail_token i TransportFailure ''channel ledger not found'' (set_settling False i s1)
           | Some L \<Rightarrow>
               if tag \<le> cl_acked_prefix L
               then fail_token i AlreadySettled ''settle-through target is at or below the already-settled prefix'' (set_settling False i s1)
               else (case validate_contiguous_prefix L tag of
                  Inl err \<Rightarrow> fail_token i (ce_kind err) (ce_message err) (set_settling False i s1)
                | Inr tokens \<Rightarrow>
                    (let affected = filter (\<lambda>j. token_live (the_tokens s1 ! j) = live) tokens in
                     if affected = []
                     then fail_token i StaleGeneration ''settle-through staged no token of the live generation'' (set_settling False i s1)
                     else
                       (let s2 = observe_latency (token_sub (the_tokens s1 ! i)) latency (fold (set_settling True) affected s1);
                            p = \<lparr>tp_token = i, tp_affected = affected\<rparr>
                        in if k \<in> st_in_flight (cs_settling s2)
                           then through_queues_upd (hm_or_default k [] (\<lambda>q. q @ [p])) s2
                           else launch_settle_through k p s2)))))"

section \<open>Completions\<close>

fun terminal_kind :: "consumer_error_kind \<Rightarrow> bool" where
  "terminal_kind StaleGeneration = True"
| "terminal_kind TransportFailure = True"
| "terminal_kind MaxAttemptsExceeded = True"
| "terminal_kind InvalidDelay = True"
| "terminal_kind _ = False"

definition lost_kind :: "consumer_error_kind \<Rightarrow> bool" where
  "lost_kind k = (k = StaleGeneration \<or> k = TransportFailure)"

definition release_bytes :: "token_id \<Rightarrow> consumer_state \<Rightarrow> consumer_state" where
  "release_bytes i s =
     bytes_upd (hm_modify (token_sub (the_tokens s ! i)) (\<lambda>b. sat_sub b (payload_bytes (tk_payload (the_tokens s ! i))))) s"

definition settled_for :: "instant \<Rightarrow> token \<Rightarrow> duration" where
  "settled_for now t = now - tk_reserved_at t"

text \<open>The terminal bookkeeping: metrics, bytes, refill, ledger.\<close>

definition conclude_settlement :: "instant \<Rightarrow> channel_key \<Rightarrow> token_id \<Rightarrow> consumer_error + delivery_state \<Rightarrow> consumer_state \<Rightarrow> consumer_state" where
  "conclude_settlement now k i result s =
     (let elapsed = settled_for now (the_tokens s ! i);
          s1 = (case result of
                  Inr Acked \<Rightarrow> metrics_upd (record_ack elapsed) s
                | Inr Rejected \<Rightarrow> metrics_upd (record_reject elapsed) s
                | _ \<Rightarrow> s);
          s2 = try_drain_pending now (release_bytes i s1)
      in ledgers_upd (hm_modify k (cl_pending_update (bt_remove (token_tag (the_tokens s2 ! i))))) s2)"

text \<open>A poison condition surfaced by the settlement itself.\<close>

definition conclude_poison :: "instant \<Rightarrow> token_id \<Rightarrow> consumer_error \<Rightarrow> consumer_state \<Rightarrow> consumer_state" where
  "conclude_poison now i err s =
     (let t = the_tokens s ! i in
      case map_of (cs_subscriptions s) (token_sub t) of
        None \<Rightarrow> fail_token i (ce_kind err) (ce_message err) (set_token_state Lost i s)
      | Some rt \<Rightarrow>
          (let (terminal, s1) = (if live_identity rt = token_live t
                 then spawn_poison_settlement (rs_channel rt) (rs_has_dead_letter rt) (token_tag t) s else (Lost, s));
               s2 = (if terminal = Lost then record_poison_metrics (rs_has_dead_letter rt) (settled_for now t) s1
                     else if terminal = Acked then metrics_upd (record_ack (settled_for now t)) s1
                     else metrics_upd (record_reject (settled_for now t)) s1)
           in record_settlement_error \<lparr>sx_delivery_tag = token_tag t, sx_subscription = token_sub t, sx_kind = ce_kind err,
                sx_message = poison_settlement_message (ce_message err) (tk_message_id t) (rs_has_dead_letter rt)\<rparr>
                (set_token_state terminal i s2)))"

definition complete_settlement :: "instant \<Rightarrow> channel_key \<Rightarrow> token_id \<Rightarrow> consumer_error + delivery_state \<Rightarrow> consumer_state \<Rightarrow> consumer_state" where
  "complete_settlement now k i result s =
     (let s0 = in_flight_upd (\<lambda>f. f - {k}) s;
          s1 = (case result of
                  Inr _ \<Rightarrow> conclude_settlement now k i result s0
                | Inl err \<Rightarrow> if terminal_kind (ce_kind err) then conclude_settlement now k i result s0 else s0);
          s2 = set_settling False i s1;
          s3 = (case result of
                  Inr terminal \<Rightarrow> set_token_state terminal i s2
                | Inl err \<Rightarrow>
                    if lost_kind (ce_kind err) then fail_token i (ce_kind err) (ce_message err) (set_token_state Lost i s2)
                    else if terminal_kind (ce_kind err) then conclude_poison now i err s2
                    else fail_token i (ce_kind err) (ce_message err) (set_token_state Pending i s2))
      in drain_settlement_queue k s3)"

text \<open>The settle-through completion; a range loop over tags removes what it covers.\<close>

definition through_final :: "consumer_error + delivery_state \<Rightarrow> delivery_state" where
  "through_final result =
     (case result of Inr st \<Rightarrow> st | Inl err \<Rightarrow> if lost_kind (ce_kind err) then Lost else Pending)"

definition through_error :: "u64 \<Rightarrow> token_id list \<Rightarrow> consumer_error + delivery_state \<Rightarrow> consumer_state \<Rightarrow> consumer_state" where
  "through_error target affected result s =
     (case result of
        Inr _ \<Rightarrow> s
      | Inl err \<Rightarrow> record_settlement_error \<lparr>sx_delivery_tag = target,
          sx_subscription = (if affected = [] then ''unknown'' else token_sub (the_tokens s ! last affected)),
          sx_kind = ce_kind err, sx_message = ce_message err\<rparr> s)"

definition conclude_through :: "instant \<Rightarrow> channel_key \<Rightarrow> u64 \<Rightarrow> token_id list \<Rightarrow> consumer_error + delivery_state \<Rightarrow> consumer_state \<Rightarrow> consumer_state" where
  "conclude_through now k target affected result s =
     (let s1 = fold release_bytes affected s;
          s2 = (if result = Inr Acked \<and> affected \<noteq> []
                then metrics_upd (record_ack (settled_for now (the_tokens s ! last affected))) s1 else s1);
          s3 = try_drain_pending now s2
      in ledgers_upd (hm_modify k (\<lambda>L.
           L\<lparr>cl_pending := bt_range (\<lambda>tag. \<not> (cl_acked_prefix L + 1 \<le> tag \<and> tag \<le> target)) (cl_pending L),
             cl_acked_prefix := (if result = Inr Acked then target else cl_acked_prefix L)\<rparr>)) s3)"

definition finish_token :: "delivery_state \<Rightarrow> token_id \<Rightarrow> consumer_state \<Rightarrow> consumer_state" where
  "finish_token st i s = set_settling False i (set_token_state st i s)"

definition complete_settle_through :: "instant \<Rightarrow> channel_key \<Rightarrow> u64 \<Rightarrow> token_id list \<Rightarrow> consumer_error + delivery_state \<Rightarrow> consumer_state \<Rightarrow> consumer_state" where
  "complete_settle_through now k target affected result s =
     (let s0 = in_flight_upd (\<lambda>f. f - {k}) s;
          s1 = (case result of
                  Inr _ \<Rightarrow> conclude_through now k target affected result s0
                | Inl err \<Rightarrow> if lost_kind (ce_kind err) then conclude_through now k target affected result s0 else s0);
          s2 = fold (finish_token (through_final result)) affected s1
      in drain_settlement_queue k (through_error target affected result s2))"

section \<open>Flushing recorded acknowledgements\<close>

text \<open>The run of recorded acknowledgements above the watermark, up to the first hole.\<close>

fun flush_run :: "(u64 \<times> token_id) list \<Rightarrow> (u64 \<times> ledger_entry) list \<Rightarrow> token_id list" where
  "flush_run B [] = []"
| "flush_run B ((tag, e) # es) =
     (case map_of B tag of
        Some i \<Rightarrow> if le_state e = Pending then i # flush_run B es else []
      | None \<Rightarrow> [])"

definition stragglers_from :: "u64 \<Rightarrow> (u64 \<times> token_id) list \<Rightarrow> channel_ledger \<Rightarrow> settle_params list" where
  "stragglers_from scan_from B L =
     map (\<lambda>(tag, i). \<lparr>sp_token = i, sp_settlement = AckS\<rparr>)
       (filter (\<lambda>(tag, i). case map_of (cl_pending L) tag of Some e \<Rightarrow> le_state e = Pending | None \<Rightarrow> False)
         (bt_range (\<lambda>tag. scan_from \<le> tag) B))"

definition flush_channel :: "channel_key \<Rightarrow> consumer_state \<Rightarrow> consumer_state" where
  "flush_channel k s =
     (if k \<in> st_in_flight (cs_settling s) then s
      else case map_of (st_batch (cs_settling s)) k of
        None \<Rightarrow> s
      | Some B \<Rightarrow>
          (case map_of (the_ledgers s) k of
             None \<Rightarrow> batch_upd (AList.delete k) s
           | Some L \<Rightarrow>
               (let run = flush_run B (bt_range (\<lambda>tag. cl_acked_prefix L + 1 \<le> tag) (cl_pending L));
                    scan_from = (if run = [] then cl_acked_prefix L + 1 else token_tag (the_tokens s ! last run) + 1);
                    stragglers = stragglers_from scan_from B L;
                    s1 = batch_upd (AList.delete k) s
                in if run \<noteq> []
                   then fold (enqueue_settlement k) stragglers
                          (launch_settle_through k \<lparr>tp_token = last run, tp_affected = run\<rparr> s1)
                   else fold (launch_or_queue k) stragglers s1)))"

definition flush_acked :: "consumer_state \<Rightarrow> consumer_state" where
  "flush_acked s = fold flush_channel (map fst (st_batch (cs_settling s))) s"

section \<open>Teardown\<close>

fun close_command :: "control_command \<Rightarrow> consumer_state \<Rightarrow> consumer_state" where
  "close_command (SettleCommand i st latency) s = handle_settle i st latency s"
| "close_command (SettleThroughCommand i latency) s = handle_settle_through i latency s"
| "close_command (GetPrefetchStats _) s = s"

definition close_sweep :: "control_command list \<Rightarrow> consumer_state \<Rightarrow> consumer_state" where
  "close_sweep cmds s = flush_acked (fold close_command cmds s)"

definition close_settlement :: "channel_key \<Rightarrow> token_id \<Rightarrow> consumer_error + delivery_state \<Rightarrow> consumer_state \<Rightarrow> consumer_state" where
  "close_settlement k i result s =
     (let s0 = in_flight_upd (\<lambda>f. f - {k}) s;
          s1 = finish_token (case result of Inr terminal \<Rightarrow> terminal | Inl _ \<Rightarrow> Lost) i s0;
          s2 = (case result of Inr _ \<Rightarrow> s1 | Inl err \<Rightarrow> fail_token i (ce_kind err) (ce_message err) s1)
      in drain_settlement_queue k s2)"

definition close_settle_through :: "channel_key \<Rightarrow> u64 \<Rightarrow> token_id list \<Rightarrow> consumer_error + delivery_state \<Rightarrow> consumer_state \<Rightarrow> consumer_state" where
  "close_settle_through k target affected result s =
     (let s0 = in_flight_upd (\<lambda>f. f - {k}) s;
          s1 = fold (finish_token (case result of Inr terminal \<Rightarrow> terminal | Inl _ \<Rightarrow> Lost)) affected s0
      in drain_settlement_queue k (through_error target affected result s1))"

end
