(* ===== verification/Consumer_Set.thy ===== *)
theory Consumer_Set
  imports Consumer_Actor
begin

text \<open>
  A consumer set (\<^verbatim>\<open>consumer/set.rs\<close>) around its actor: registering the consumers, the pump of each
  subscription with its resize cycle, the loop of the actor, and the operations of the embedder's
  handle. Actor, pumps and embedder interleave; one event is one turn of one of them.
\<close>

section \<open>Registering the consumers\<close>

definition COMMAND_CAPACITY :: nat where "COMMAND_CAPACITY = 256"
definition BUFFER_CAPACITY_MULTIPLIER :: nat where "BUFFER_CAPACITY_MULTIPLIER = 2"
definition ERROR_CHANNEL_CAPACITY :: nat where "ERROR_CHANNEL_CAPACITY = 256"

record consumer_request =
  cr_queue :: string
  cr_consumer_tag :: string
  cr_exclusive :: bool
  cr_no_ack :: bool

record 'e consumer_channels =
  ch_set_qos :: "nat \<Rightarrow> u16 \<Rightarrow> 'e \<Rightarrow> unit transport_result \<times> 'e"
  ch_consume :: "nat \<Rightarrow> consumer_request \<Rightarrow> 'e \<Rightarrow> nat transport_result \<times> 'e"
  ch_cancel :: "nat \<Rightarrow> string \<Rightarrow> 'e \<Rightarrow> unit transport_result \<times> 'e"
  ch_close :: "nat \<Rightarrow> 'e \<Rightarrow> unit transport_result \<times> 'e"

record source_spec =
  ss_id :: string
  ss_stream :: nat
  ss_channel :: nat
  ss_consumer_tag :: string
  ss_queue :: string
  ss_no_ack :: bool

definition close_subscription_channels :: "'e consumer_channels \<Rightarrow> subscription list \<Rightarrow> 'e \<Rightarrow> 'e" where
  "close_subscription_channels ch subs e = fold (\<lambda>s e. snd (ch_close ch (rs_channel (sub_runtime s)) e)) subs e"

definition consumer_request_of :: "source_spec \<Rightarrow> consumer_request" where
  "consumer_request_of sp = \<lparr>cr_queue = ss_queue sp, cr_consumer_tag = ss_consumer_tag sp, cr_exclusive = False,
     cr_no_ack = ss_no_ack sp\<rparr>"

definition source_of :: "subscription \<Rightarrow> nat \<Rightarrow> source_spec" where
  "source_of s stream = \<lparr>ss_id = sub_id s, ss_stream = stream, ss_channel = rs_channel (sub_runtime s),
     ss_consumer_tag = ''rabbit-rs.'' @ sub_id s, ss_queue = rs_queue (sub_runtime s), ss_no_ack = rs_no_ack (sub_runtime s)\<rparr>"

fun build_sources_loop :: "'e consumer_channels \<Rightarrow> subscription list \<Rightarrow> subscription list \<Rightarrow>
    (string \<times> u16) list \<times> source_spec list \<Rightarrow> 'e \<Rightarrow> (consumer_error + (string \<times> u16) list \<times> source_spec list) \<times> 'e" where
  "build_sources_loop ch subs [] acc e = (Inr acc, e)"
| "build_sources_loop ch subs (s # rest) (qos, sources) e =
     (let initial = prefetch_initial_value (rs_prefetch (sub_runtime s)); channel = rs_channel (sub_runtime s) in
      case ch_set_qos ch channel initial e of
        (Inl err, e1) \<Rightarrow> (Inl (consumer_error_from_transport err), close_subscription_channels ch subs e1)
      | (Inr _, e1) \<Rightarrow>
          (case ch_consume ch channel (consumer_request_of (source_of s 0)) e1 of
             (Inl err, e2) \<Rightarrow> (Inl (consumer_error_from_transport err), close_subscription_channels ch subs e2)
           | (Inr stream, e2) \<Rightarrow>
               build_sources_loop ch subs rest (AList.update (sub_id s) initial qos, sources @ [source_of s stream]) e2))"

definition build_sources :: "'e consumer_channels \<Rightarrow> subscription list \<Rightarrow> 'e \<Rightarrow>
    (consumer_error + (string \<times> u16) list \<times> source_spec list) \<times> 'e" where
  "build_sources ch subs = build_sources_loop ch subs subs ([], [])"

section \<open>The pump of a subscription\<close>

record pump =
  pu_spec :: source_spec
  pu_pending_qos :: "u16 option"
  pu_actor_alive :: bool
  pu_running :: bool

definition pump_new :: "source_spec \<Rightarrow> pump" where
  "pump_new sp = \<lparr>pu_spec = sp, pu_pending_qos = None, pu_actor_alive = True, pu_running = True\<rparr>"

datatype pump_event =
    StreamItem "delivery transport_result" bool
  | StreamEnded
  | QosChanged "u16 option"

definition pump_fail :: "string \<Rightarrow> pump \<Rightarrow> (string \<times> delivery transport_result) list \<times> pump" where
  "pump_fail m p = ([(ss_id (pu_spec p), Inl (te_connection m))], p\<lparr>pu_running := False\<rparr>)"

text \<open>
  One turn: what it sends to the actor, the pump, the environment. The flag of a stream item is
  whether the actor still receives; a watch whose sender is gone reports \<open>None\<close>.
\<close>

fun pump_step :: "'e consumer_channels \<Rightarrow> pump_event \<Rightarrow> pump \<Rightarrow> 'e \<Rightarrow>
    (string \<times> delivery transport_result) list \<times> pump \<times> 'e" where
  "pump_step ch (StreamItem r receiving) p e =
     (if \<not> pu_running p then ([], p, e)
      else if receiving then ([(ss_id (pu_spec p), r)], p, e) else ([], p\<lparr>pu_running := False\<rparr>, e))"
| "pump_step ch StreamEnded p e =
     (if \<not> pu_running p then ([], p, e)
      else case pu_pending_qos p of
        None \<Rightarrow> (case pump_fail ''consumer delivery stream ended'' p of (out, p1) \<Rightarrow> (out, p1, e))
      | Some v \<Rightarrow>
          (let p0 = p\<lparr>pu_pending_qos := None\<rparr>; sp = pu_spec p in
           case ch_set_qos ch (ss_channel sp) v e of
             (Inl err, e1) \<Rightarrow> (case pump_fail (''adaptive prefetch resize set_qos failed: '' @ te_message err) p0 of (out, p1) \<Rightarrow> (out, p1, e1))
           | (Inr _, e1) \<Rightarrow>
               (case ch_consume ch (ss_channel sp) (consumer_request_of sp) e1 of
                  (Inl err, e2) \<Rightarrow> (case pump_fail (''adaptive prefetch re-consume failed: '' @ te_message err) p0 of (out, p1) \<Rightarrow> (out, p1, e2))
                | (Inr stream, e2) \<Rightarrow> ([], p0\<lparr>pu_spec := sp\<lparr>ss_stream := stream\<rparr>\<rparr>, e2))))"
| "pump_step ch (QosChanged v) p e =
     (if \<not> pu_running p \<or> \<not> pu_actor_alive p then ([], p, e)
      else case v of
        None \<Rightarrow> ([], p\<lparr>pu_actor_alive := False\<rparr>, e)
      | Some q \<Rightarrow>
          if pu_pending_qos p \<noteq> None then ([], p\<lparr>pu_pending_qos := Some q\<rparr>, e)
          else (case ch_cancel ch (ss_channel (pu_spec p)) (ss_consumer_tag (pu_spec p)) e of
             (Inl err, e1) \<Rightarrow> (case pump_fail (''adaptive prefetch cancel failed: '' @ te_message err) p of (out, p1) \<Rightarrow> (out, p1, e1))
           | (Inr _, e1) \<Rightarrow> ([], p\<lparr>pu_pending_qos := Some q\<rparr>, e1)))"

section \<open>The system\<close>

text \<open>The permit of the dispatch notification, the closed flag and the stashed error of the handle.\<close>

record set_handle =
  hd_closed :: bool
  hd_close_signal :: bool
  hd_notify :: bool
  hd_pending_error :: "consumer_error option"

datatype phase = AtTop | AtSelect | Closing | Stopped

record 'e consumer_system =
  cy_actor :: consumer_state
  cy_control :: control
  cy_incoming :: "(string \<times> delivery transport_result) list"
  cy_handle :: set_handle
  cy_replies :: "(nat \<times> prefetch_stat list) list"
  cy_phase :: phase
  cy_env :: 'e

definition total_prefetch :: "subscription list \<Rightarrow> nat" where
  "total_prefetch subs = sum_list (map (unat \<circ> prefetch_ceiling \<circ> rs_prefetch \<circ> sub_runtime) subs)"

definition shared_new :: "subscription list \<Rightarrow> (string \<times> u16) list \<Rightarrow> metrics \<Rightarrow> shared" where
  "shared_new subs qos m =
     \<lparr>sh_tokens = [], sh_flume = [], sh_flume_capacity = max (total_prefetch subs * BUFFER_CAPACITY_MULTIPLIER) 1,
      sh_flume_open = True, sh_flume_errors = 0, sh_errors = [], sh_error_capacity = ERROR_CHANNEL_CAPACITY,
      sh_metrics = m, sh_spawned = [], sh_qos = qos\<rparr>"

definition consumer_start :: "subscription list \<Rightarrow> (string \<times> u16) list \<Rightarrow> metrics \<Rightarrow> 'e \<Rightarrow> 'e consumer_system" where
  "consumer_start subs qos m e =
     \<lparr>cy_actor = actor_new subs (max (total_prefetch subs) COMMAND_CAPACITY) (shared_new subs qos m),
      cy_control = \<lparr>ct_queue = [], ct_capacity = COMMAND_CAPACITY, ct_open = True\<rparr>,
      cy_incoming = [],
      cy_handle = \<lparr>hd_closed = False, hd_close_signal = False, hd_notify = False, hd_pending_error = None\<rparr>,
      cy_replies = [], cy_phase = AtTop, cy_env = e\<rparr>"

definition spawn_consumer_set :: "'e consumer_channels \<Rightarrow> subscription list \<Rightarrow> metrics \<Rightarrow> 'e \<Rightarrow>
    consumer_error + 'e consumer_system \<times> pump list" where
  "spawn_consumer_set ch subs m e =
     (case build_sources ch subs e of
        (Inl err, _) \<Rightarrow> Inl err
      | (Inr (qos, sources), e1) \<Rightarrow> Inr (consumer_start subs qos m e1, map pump_new sources))"

section \<open>The loop of the actor\<close>

fun handle_control :: "control_command \<Rightarrow> 'e consumer_system \<Rightarrow> 'e consumer_system" where
  "handle_control (SettleCommand i st latency) y = cy_actor_update (handle_settle i st latency) y"
| "handle_control (SettleThroughCommand i latency) y = cy_actor_update (handle_settle_through i latency) y"
| "handle_control (GetPrefetchStats n) y = y\<lparr>cy_replies := cy_replies y @ [(n, prefetch_stats (cy_actor y))]\<rparr>"

definition drain_control :: "'e consumer_system \<Rightarrow> 'e consumer_system" where
  "drain_control y = fold handle_control (ct_queue (cy_control y)) (cy_control_update (ct_queue_update (\<lambda>_. [])) y)"

fun drain_incoming :: "instant \<Rightarrow> (string \<times> delivery transport_result) list \<Rightarrow> consumer_state \<Rightarrow>
    (string \<times> delivery transport_result) list \<times> consumer_state" where
  "drain_incoming now [] s = ([], s)"
| "drain_incoming now ((sub, r) # q) s =
     (if length (in_pending (cs_intake s)) < in_pending_capacity (cs_intake s)
      then drain_incoming now q (handle_incoming now sub r s) else ((sub, r) # q, s))"

definition flush_if_drained :: "consumer_state \<Rightarrow> consumer_state" where
  "flush_if_drained s = (if dispatch_stock_drained s then flush_acked s else s)"

definition loop_top :: "instant \<Rightarrow> 'e consumer_system \<Rightarrow> 'e consumer_system" where
  "loop_top now y =
     (let y1 = drain_control y in
      case drain_incoming now (cy_incoming y1) (cy_actor y1) of (q, s) \<Rightarrow>
        y1\<lparr>cy_incoming := q, cy_actor := flush_if_drained s\<rparr>)"

text \<open>The arms of the select; the events of the embedder and of the pumps. An arm whose guard fails, or
  an index out of range, is no event.\<close>

datatype consumer_event =
    LoopTop instant
  | ArmControl
  | ArmIncoming instant
  | ArmNotified instant
  | ArmPrefetch
  | ArmSettled instant nat
  | ArmThrough instant nat
  | ArmClose
  | PumpSends string "delivery transport_result"
  | EmbedderSettles instant instant settlement token_id
  | EmbedderSettlesThrough instant instant token_id
  | EmbedderAsksStats nat
  | EmbedderTakes instant instant
  | EmbedderTakesBatch instant instant nat
  | EmbedderDrainsErrors
  | EmbedderCloses
  | CloseSettled nat
  | CloseThrough nat
  | CloseDone

definition arm_incoming :: "instant \<Rightarrow> 'e consumer_system \<Rightarrow> 'e consumer_system" where
  "arm_incoming now y =
     (case cy_incoming y of
        (sub, r) # q \<Rightarrow>
          if length (in_pending (cs_intake (cy_actor y))) < in_pending_capacity (cs_intake (cy_actor y))
          then y\<lparr>cy_incoming := q, cy_actor := handle_incoming now sub r (cy_actor y)\<rparr> else y
      | [] \<Rightarrow> y)"

definition arm_prefetch :: "consumer_state \<Rightarrow> consumer_state" where
  "arm_prefetch s =
     (case collect_prefetch_updates s of (us, s1) \<Rightarrow>
        cs_shared_update (sh_qos_update (fold (\<lambda>(sub, v). hm_modify sub (\<lambda>_. v)) us)) s1)"

definition take_future :: "nat \<Rightarrow> 'a list \<Rightarrow> 'a list" where
  "take_future n xs = take n xs @ drop (Suc n) xs"

definition run_future :: "'e consumer_env \<Rightarrow> settle_future \<Rightarrow> consumer_state \<Rightarrow> 'e \<Rightarrow> (consumer_error + delivery_state) \<times> 'e" where
  "run_future env f s e =
     execute_settlement env (sf_launch f) (token_tag (the_tokens s ! sf_token f)) (sf_settlement f) (the_tokens s ! sf_token f) e"

definition run_through :: "'e consumer_env \<Rightarrow> through_future \<Rightarrow> consumer_state \<Rightarrow> 'e \<Rightarrow> (consumer_error + delivery_state) \<times> 'e" where
  "run_through env f s e = execute_settle_through env (tf_launch f) (tf_target f) (the_tokens s ! tf_token f) e"

definition arm_settled :: "'e consumer_env \<Rightarrow> instant \<Rightarrow> nat \<Rightarrow> 'e consumer_system \<Rightarrow> 'e consumer_system" where
  "arm_settled env now n y =
     (let fs = st_futures (cs_settling (cy_actor y)) in
      if n < length fs then
        (case run_future env (fs ! n) (cy_actor y) (cy_env y) of (r, e) \<Rightarrow>
          y\<lparr>cy_env := e, cy_actor := complete_settlement now (sf_key (fs ! n)) (sf_token (fs ! n)) r
              (futures_upd (take_future n) (cy_actor y))\<rparr>)
      else y)"

definition arm_through :: "'e consumer_env \<Rightarrow> instant \<Rightarrow> nat \<Rightarrow> 'e consumer_system \<Rightarrow> 'e consumer_system" where
  "arm_through env now n y =
     (let fs = st_throughs (cs_settling (cy_actor y)) in
      if n < length fs then
        (case run_through env (fs ! n) (cy_actor y) (cy_env y) of (r, e) \<Rightarrow>
          y\<lparr>cy_env := e, cy_actor := complete_settle_through now (tf_key (fs ! n)) (tf_target (fs ! n)) (tf_affected (fs ! n)) r
              (throughs_upd (take_future n) (cy_actor y))\<rparr>)
      else y)"

definition arm_control :: "'e consumer_system \<Rightarrow> 'e consumer_system" where
  "arm_control y =
     (case ct_queue (cy_control y) of
        c # q \<Rightarrow> handle_control c (cy_control_update (ct_queue_update (\<lambda>_. q)) y)
      | [] \<Rightarrow> y)"

definition close_start :: "'e consumer_system \<Rightarrow> 'e consumer_system" where
  "close_start y = y\<lparr>cy_actor := close_sweep (ct_queue (cy_control y)) (cy_actor y),
     cy_control := (cy_control y)\<lparr>ct_queue := []\<rparr>, cy_phase := Closing\<rparr>"

definition close_one_settled :: "'e consumer_env \<Rightarrow> nat \<Rightarrow> 'e consumer_system \<Rightarrow> 'e consumer_system" where
  "close_one_settled env n y =
     (let fs = st_futures (cs_settling (cy_actor y)) in
      if n < length fs then
        (case run_future env (fs ! n) (cy_actor y) (cy_env y) of (r, e) \<Rightarrow>
          y\<lparr>cy_env := e, cy_actor := close_settlement (sf_key (fs ! n)) (sf_token (fs ! n)) r
              (futures_upd (take_future n) (cy_actor y))\<rparr>)
      else y)"

definition close_one_through :: "'e consumer_env \<Rightarrow> nat \<Rightarrow> 'e consumer_system \<Rightarrow> 'e consumer_system" where
  "close_one_through env n y =
     (let fs = st_throughs (cs_settling (cy_actor y)) in
      if n < length fs then
        (case run_through env (fs ! n) (cy_actor y) (cy_env y) of (r, e) \<Rightarrow>
          y\<lparr>cy_env := e, cy_actor := close_settle_through (tf_key (fs ! n)) (tf_target (fs ! n)) (tf_affected (fs ! n)) r
              (throughs_upd (take_future n) (cy_actor y))\<rparr>)
      else y)"

text \<open>The drain ends when nothing is in flight or the budget is over; then the channels close and the
  actor is gone: its senders and receivers with it.\<close>

definition close_finish :: "'e consumer_channels \<Rightarrow> 'e consumer_system \<Rightarrow> 'e consumer_system" where
  "close_finish ch y =
     y\<lparr>cy_env := fold (\<lambda>rt e. snd (ch_close ch (rs_channel (snd rt)) e)) (cs_subscriptions (cy_actor y)) (cy_env y),
       cy_control := (cy_control y)\<lparr>ct_open := False\<rparr>, cy_phase := Stopped\<rparr>"

section \<open>The embedder's handle\<close>

definition notify_one :: "'e consumer_system \<Rightarrow> 'e consumer_system" where
  "notify_one = cy_handle_update (hd_notify_update (\<lambda>_. True))"

text \<open>Receives from the hand-off flume; \<open>None\<close> is empty, or disconnected once the actor is gone.\<close>

definition flume_recv :: "'e consumer_system \<Rightarrow> (consumer_error + delivery_item) option \<times> 'e consumer_system" where
  "flume_recv y =
     (case sh_flume (cs_shared (cy_actor y)) of
        x # q \<Rightarrow> (Some x, cy_actor_update (flume_upd (\<lambda>_. q)) y)
      | [] \<Rightarrow> (None, y))"

definition stamp_popped :: "instant \<Rightarrow> instant \<Rightarrow> token_id \<Rightarrow> 'e consumer_system \<Rightarrow> 'e consumer_system" where
  "stamp_popped epoch now i = cy_actor_update (tokens_upd (store_token (mark_popped epoch now) i))"

definition take_pending_error :: "'e consumer_system \<Rightarrow> consumer_error option \<times> 'e consumer_system" where
  "take_pending_error y = (hd_pending_error (cy_handle y), cy_handle_update (hd_pending_error_update (\<lambda>_. None)) y)"

definition try_next :: "instant \<Rightarrow> instant \<Rightarrow> 'e consumer_system \<Rightarrow> (consumer_error + delivery_item option) \<times> 'e consumer_system" where
  "try_next epoch now y =
     (if hd_closed (cy_handle y) then (Inl consumer_error_closed, y)
      else case flume_recv y of
        (Some (Inr item), y1) \<Rightarrow> (Inr (Some item), notify_one (stamp_popped epoch now (it_token item) y1))
      | (Some (Inl err), y1) \<Rightarrow> (Inl err, notify_one y1)
      | (None, y1) \<Rightarrow>
          if cy_phase y = Stopped then (Inl consumer_error_closed, y1)
          else (case take_pending_error y1 of
                  (Some err, y2) \<Rightarrow> (Inl err, y2)
                | (None, y2) \<Rightarrow> (Inr None, y2)))"

definition stash_error :: "consumer_error \<Rightarrow> 'e consumer_system \<Rightarrow> 'e consumer_system" where
  "stash_error err = cy_handle_update (hd_pending_error_update (\<lambda>_. Some err))"

fun batch_loop :: "instant \<Rightarrow> instant \<Rightarrow> nat \<Rightarrow> delivery_item list \<Rightarrow> 'e consumer_system \<Rightarrow>
    (consumer_error + delivery_item list) \<times> 'e consumer_system" where
  "batch_loop epoch now 0 batch y = (Inr batch, y)"
| "batch_loop epoch now (Suc n) batch y =
     (case flume_recv y of
        (Some (Inr item), y1) \<Rightarrow> batch_loop epoch now n (batch @ [item]) (stamp_popped epoch now (it_token item) y1)
      | (Some (Inl err), y1) \<Rightarrow>
          if batch \<noteq> [] then (Inr batch, stash_error err (notify_one y1)) else (Inl err, notify_one y1)
      | (None, y1) \<Rightarrow>
          if cy_phase y = Stopped
          then (if batch \<noteq> [] then (Inr batch, stash_error consumer_error_closed (notify_one y1))
                else (Inl consumer_error_closed, notify_one y1))
          else (Inr batch, y1))"

definition try_next_batch :: "instant \<Rightarrow> instant \<Rightarrow> nat \<Rightarrow> 'e consumer_system \<Rightarrow>
    (consumer_error + delivery_item list) \<times> 'e consumer_system" where
  "try_next_batch epoch now mx y =
     (if hd_closed (cy_handle y) then (Inl consumer_error_closed, y)
      else case batch_loop epoch now (max 1 (min mx 256)) [] y of
        (Inl err, y1) \<Rightarrow> (Inl err, y1)
      | (Inr [], y1) \<Rightarrow>
          (case take_pending_error y1 of (Some err, y2) \<Rightarrow> (Inl err, y2) | (None, y2) \<Rightarrow> (Inr [], y2))
      | (Inr batch, y1) \<Rightarrow> (Inr batch, notify_one y1))"

text \<open>\<^verbatim>\<open>next\<close> notifies, then waits; \<open>None\<close> is the wait.\<close>

definition next_delivery :: "instant \<Rightarrow> instant \<Rightarrow> 'e consumer_system \<Rightarrow> (consumer_error + delivery_item) option \<times> 'e consumer_system" where
  "next_delivery epoch now y =
     (if hd_closed (cy_handle y) then (Some (Inl consumer_error_closed), y)
      else case flume_recv (notify_one y) of
        (Some (Inr item), y1) \<Rightarrow> (Some (Inr item), notify_one (stamp_popped epoch now (it_token item) y1))
      | (Some (Inl err), y1) \<Rightarrow> (Some (Inl err), notify_one y1)
      | (None, y1) \<Rightarrow> (if cy_phase y = Stopped then Some (Inl consumer_error_closed) else None, y1))"

definition drain_errors :: "'e consumer_system \<Rightarrow> settlement_error list \<times> 'e consumer_system" where
  "drain_errors y = (sh_errors (cs_shared (cy_actor y)), cy_actor_update (cs_shared_update (sh_errors_update (\<lambda>_. []))) y)"

text \<open>\<^verbatim>\<open>close\<close> and dropping a handle: the first sets the flag and the signal.\<close>

definition handle_close :: "'e consumer_system \<Rightarrow> 'e consumer_system" where
  "handle_close y = (if hd_closed (cy_handle y) then y
     else cy_handle_update (\<lambda>h. h\<lparr>hd_closed := True, hd_close_signal := True\<rparr>) y)"

definition embedder_settles :: "instant \<Rightarrow> instant \<Rightarrow> settlement \<Rightarrow> token_id \<Rightarrow> 'e consumer_system \<Rightarrow> 'e consumer_system" where
  "embedder_settles epoch now st i y =
     (case try_settle epoch now st i (the_tokens (cy_actor y), cy_control y) of
        (_, ts, ct) \<Rightarrow> y\<lparr>cy_actor := tokens_upd (\<lambda>_. ts) (cy_actor y), cy_control := ct\<rparr>)"

section \<open>One event\<close>

definition at_select :: "('e consumer_system \<Rightarrow> 'e consumer_system) \<Rightarrow> 'e consumer_system \<Rightarrow> 'e consumer_system" where
  "at_select f y = (if cy_phase y = AtSelect then f (y\<lparr>cy_phase := AtTop\<rparr>) else y)"

text \<open>Tokens that exist: the embedder only has those.\<close>

definition known_token :: "token_id \<Rightarrow> 'e consumer_system \<Rightarrow> bool" where
  "known_token i y \<longleftrightarrow> i < length (the_tokens (cy_actor y))"

fun consumer_step :: "'e consumer_env \<Rightarrow> 'e consumer_channels \<Rightarrow> consumer_event \<Rightarrow> 'e consumer_system \<Rightarrow> 'e consumer_system" where
  "consumer_step env ch (LoopTop now) y = (if cy_phase y = AtTop then (loop_top now y)\<lparr>cy_phase := AtSelect\<rparr> else y)"
| "consumer_step env ch ArmControl y = at_select arm_control y"
| "consumer_step env ch (ArmIncoming now) y = at_select (arm_incoming now) y"
| "consumer_step env ch (ArmNotified now) y =
     (if hd_notify (cy_handle y)
      then at_select (\<lambda>y. cy_actor_update (dispatch now) (cy_handle_update (hd_notify_update (\<lambda>_. False)) y)) y else y)"
| "consumer_step env ch ArmPrefetch y = at_select (cy_actor_update arm_prefetch) y"
| "consumer_step env ch (ArmSettled now n) y = at_select (arm_settled env now n) y"
| "consumer_step env ch (ArmThrough now n) y = at_select (arm_through env now n) y"
| "consumer_step env ch ArmClose y =
     (if cy_phase y = AtSelect \<and> hd_close_signal (cy_handle y) then close_start y else y)"
| "consumer_step env ch (PumpSends sub r) y =
     (if length (cy_incoming y) < COMMAND_CAPACITY then y\<lparr>cy_incoming := cy_incoming y @ [(sub, r)]\<rparr> else y)"
| "consumer_step env ch (EmbedderSettles epoch now st i) y = (if known_token i y then embedder_settles epoch now st i y else y)"
| "consumer_step env ch (EmbedderSettlesThrough epoch now i) y =
     (if known_token i y then y\<lparr>cy_control := snd (try_settle_through epoch now i (the_tokens (cy_actor y)) (cy_control y))\<rparr> else y)"
| "consumer_step env ch (EmbedderAsksStats n) y = y\<lparr>cy_control := snd (control_send (GetPrefetchStats n) (cy_control y))\<rparr>"
| "consumer_step env ch (EmbedderTakes epoch now) y = snd (try_next epoch now y)"
| "consumer_step env ch (EmbedderTakesBatch epoch now n) y = snd (try_next_batch epoch now n y)"
| "consumer_step env ch EmbedderDrainsErrors y = snd (drain_errors y)"
| "consumer_step env ch EmbedderCloses y = handle_close y"
| "consumer_step env ch (CloseSettled n) y = (if cy_phase y = Closing then close_one_settled env n y else y)"
| "consumer_step env ch (CloseThrough n) y = (if cy_phase y = Closing then close_one_through env n y else y)"
| "consumer_step env ch CloseDone y = (if cy_phase y = Closing then close_finish ch y else y)"

end
