(* ===== verification/Consumer_Safety.thy ===== *)
theory Consumer_Safety
  imports Consumer_Intake Consumer_Set
begin

text \<open>
  The invariant of a running consumer set and what follows from it. Settlements are serialised per
  channel: the channels with a settlement in flight are exactly those of the futures, no channel has
  two, and a settlement waits in a queue only behind one in flight. The byte budgets, the parked
  deliveries and the error channel stay within their bounds.
\<close>

declare split_paired_All [simp del] split_paired_Ex [simp del]

section \<open>Tokens keep their identity\<close>

definition identities :: "consumer_state \<Rightarrow> delivery_identity list" where
  "identities s = map tk_identity (the_tokens s)"

lemma length_identities [simp]: "length (identities s) = length (the_tokens s)"
  by (simp add: identities_def)

lemma identities_nth:
  "i < length (the_tokens s) \<Longrightarrow> identities s ! i = tk_identity (the_tokens s ! i)"
  by (simp add: identities_def)

lemma identities_store:
  "(\<And>t. tk_identity (f t) = tk_identity t) \<Longrightarrow> map tk_identity (store_token f i ts) = map tk_identity ts"
  by (cases "i < length ts") (simp_all add: store_token_def map_update list_update_same_conv list_update_beyond)

section \<open>The invariant\<close>

definition owns :: "(string \<times> runtime_subscription) list \<Rightarrow> delivery_identity list \<Rightarrow> channel_key \<Rightarrow> token_id \<Rightarrow> bool" where
  "owns subs ids k i \<longleftrightarrow> i < length ids \<and>
     (\<exists>rt. map_of subs (di_subscription (ids ! i)) = Some rt \<and> k = (di_subscription (ids ! i), rs_channel_id rt, rs_generation rt))"

definition serialised :: "channel_key set \<Rightarrow> settling \<Rightarrow> bool" where
  "serialised K t \<longleftrightarrow> distinct (map sf_key (st_futures t) @ map tf_key (st_throughs t)) \<and>
     set (map sf_key (st_futures t) @ map tf_key (st_throughs t)) = st_in_flight t \<and>
     (\<forall>k q. map_of (st_queues t) k = Some q \<longrightarrow> q \<noteq> [] \<longrightarrow> k \<in> st_in_flight t \<union> K) \<and>
     (\<forall>k q. map_of (st_through_queues t) k = Some q \<longrightarrow> q \<noteq> [] \<longrightarrow> k \<in> st_in_flight t \<union> K)"

definition batch_ok :: "(string \<times> runtime_subscription) list \<Rightarrow> delivery_identity list \<Rightarrow> channel_key \<Rightarrow> (u64 \<times> token_id) list \<Rightarrow> bool" where
  "batch_ok subs ids k B \<longleftrightarrow> bt_wf B \<and> (\<forall>tag i. (tag, i) \<in> set B \<longrightarrow> owns subs ids k i \<and> di_delivery_tag (ids ! i) = tag)"

definition owned :: "(string \<times> runtime_subscription) list \<Rightarrow> delivery_identity list \<Rightarrow> settling \<Rightarrow> bool" where
  "owned subs ids t \<longleftrightarrow>
     (\<forall>f. f \<in> set (st_futures t) \<longrightarrow> owns subs ids (sf_key f) (sf_token f)) \<and>
     (\<forall>f. f \<in> set (st_throughs t) \<longrightarrow> owns subs ids (tf_key f) (tf_token f) \<and> tf_target f = di_delivery_tag (ids ! tf_token f)) \<and>
     (\<forall>k q p. map_of (st_queues t) k = Some q \<longrightarrow> p \<in> set q \<longrightarrow> owns subs ids k (sp_token p)) \<and>
     (\<forall>k q p. map_of (st_through_queues t) k = Some q \<longrightarrow> p \<in> set q \<longrightarrow> owns subs ids k (tp_token p)) \<and>
     (\<forall>k B. map_of (st_batch t) k = Some B \<longrightarrow> batch_ok subs ids k B)"

definition flight_ok :: "channel_key set \<Rightarrow> consumer_state \<Rightarrow> bool" where
  "flight_ok K s \<longleftrightarrow> serialised K (cs_settling s) \<and> owned (cs_subscriptions s) (identities s) (cs_settling s)"

definition actor_ok :: "channel_key set \<Rightarrow> consumer_state \<Rightarrow> bool" where
  "actor_ok K s \<longleftrightarrow> intake_wf (cs_intake s) \<and>
     length (in_pending (cs_intake s)) \<le> in_pending_capacity (cs_intake s) \<and>
     ledgers_sorted s \<and> bounded_errors (cs_shared s) \<and> flight_ok K s"

text \<open>Steps that leave the settlements alone.\<close>

definition frame :: "consumer_state \<Rightarrow> consumer_state \<Rightarrow> bool" where
  "frame s s' \<longleftrightarrow> cs_subscriptions s' = cs_subscriptions s \<and> flight_part (cs_settling s') = flight_part (cs_settling s) \<and>
     (\<exists>is. identities s' = identities s @ is) \<and> (ledgers_sorted s \<longrightarrow> ledgers_sorted s') \<and>
     (bounded_errors (cs_shared s) \<longrightarrow> bounded_errors (cs_shared s')) \<and>
     (intake_wf (cs_intake s) \<longrightarrow> intake_wf (cs_intake s')) \<and>
     in_pending_capacity (cs_intake s') = in_pending_capacity (cs_intake s) \<and>
     length (in_pending (cs_intake s')) \<le> length (in_pending (cs_intake s))"

lemma frame_refl [simp]: "frame s s"
  by (simp add: frame_def)

lemma frame_trans [trans]: "frame s t \<Longrightarrow> frame t u \<Longrightarrow> frame s u"
  by (auto simp: frame_def)

lemma frame_of_intake_step:
  assumes "intake_step s s'" and "intake_wf (cs_intake s) \<Longrightarrow> intake_wf (cs_intake s')"
    and "length (in_pending (cs_intake s')) \<le> length (in_pending (cs_intake s))"
  shows "frame s s'"
  using assms by (auto simp: frame_def intake_step_def identities_def)

lemma owns_append: "owns subs ids k i \<Longrightarrow> owns subs (ids @ is) k i"
  by (auto simp: owns_def nth_append)

lemma owns_nth: "owns subs ids k i \<Longrightarrow> (ids @ is) ! i = ids ! i"
  by (simp add: owns_def nth_append)

lemma owned_append: "owned subs ids t \<Longrightarrow> owned subs (ids @ is) t"
proof -
  assume o: "owned subs ids t"
  have "batch_ok subs (ids @ is) k B" if "batch_ok subs ids k B" for k B
    using that owns_append owns_nth unfolding batch_ok_def by metis
  with o show ?thesis
    unfolding owned_def by (simp add: owns_append) (metis owns_nth)
qed

lemma flight_part_eq:
  assumes "flight_part t' = flight_part t"
  shows "serialised K t' = serialised K t" and "owned subs ids t' = owned subs ids t"
  using assms unfolding flight_part_def serialised_def owned_def by simp_all

lemma actor_ok_frame: "actor_ok K s \<Longrightarrow> frame s s' \<Longrightarrow> actor_ok K s'"
  unfolding actor_ok_def flight_ok_def frame_def
  using flight_part_eq [of "cs_settling s'" "cs_settling s"] owned_append [of "cs_subscriptions s" "identities s" "cs_settling s"]
  by (elim conjE exE) (simp only: simp_thms order_trans)

lemma frame_tokens: "(\<And>ts. map tk_identity (f ts) = map tk_identity ts) \<Longrightarrow> frame s (tokens_upd f s)"
  by (auto simp: frame_def identities_def ledgers_sorted_def bounded_errors_def)

lemma frame_set_token_state: "frame s (set_token_state st i s)"
  unfolding set_token_state_def by (rule frame_tokens) (simp add: identities_store)

lemma frame_set_settling: "frame s (set_settling b i s)"
  unfolding set_settling_def by (rule frame_tokens) (simp add: identities_store)

lemma frame_record: "frame s (record_settlement_error e s)"
  by (rule frame_of_intake_step) simp_all

lemma frame_fail_token: "frame s (fail_token i k m s)"
  unfolding fail_token_def by (rule frame_record)

lemma frame_metrics: "frame s (metrics_upd f s)" "frame s (spawned_upd g s)"
  by (rule frame_of_intake_step; simp add: intake_step_metrics)+

lemma frame_observe: "frame s (observe_latency sub l s)"
  by (auto simp: observe_latency_def frame_def identities_def ledgers_sorted_def)

lemma frame_release_bytes: "frame s (release_bytes i s)"
  unfolding release_bytes_def
  by (rule frame_of_intake_step) (simp_all add: intake_step_intake intake_wf_sub)

lemma frame_try_drain: "frame s (try_drain_pending now s)"
proof (rule frame_of_intake_step)
  show "intake_step s (try_drain_pending now s)"
    unfolding try_drain_pending_def by (rule intake_step_trans [OF intake_step_drain intake_step_dispatch])
  show "intake_wf (cs_intake (try_drain_pending now s))" if "intake_wf (cs_intake s)"
    using that by (simp add: try_drain_pending_def dispatch_wf drain_pending_wf)
  show "length (in_pending (cs_intake (try_drain_pending now s))) \<le> length (in_pending (cs_intake s))"
    using dispatch_pending_length [of now "drain_pending s"] drain_list_pending [of "in_pending (cs_intake s)" s]
    by (simp add: try_drain_pending_def drain_pending_def)
qed

lemma frame_ledger:
  "(\<And>L. bt_wf (cl_pending L) \<Longrightarrow> bt_wf (cl_pending (f L))) \<Longrightarrow> frame s (ledgers_upd (hm_modify k f) s)"
  by (rule frame_of_intake_step) (simp_all add: intake_step_ledger)

lemma frame_fold: "(\<And>x s. frame s (f x s)) \<Longrightarrow> frame s (fold f xs s)"
  by (induction xs arbitrary: s) (auto intro: frame_trans)

lemma frame_finish_token: "frame s (finish_token st i s)"
  unfolding finish_token_def by (rule frame_trans [OF frame_set_token_state frame_set_settling])

lemma frame_finish_tokens: "frame s (fold (finish_token st) xs s)"
  by (rule frame_fold) (rule frame_finish_token)

lemma frame_through_error: "frame s (through_error target affected result s)"
  by (simp add: through_error_def frame_record split: sum.splits)

lemma frame_conclude_settlement: "frame s (conclude_settlement now k i result s)"
proof -
  let ?e = "settled_for now (the_tokens s ! i)"
  have 1: "frame s (case result of Inr Acked \<Rightarrow> metrics_upd (record_ack ?e) s | Inr Rejected \<Rightarrow> metrics_upd (record_reject ?e) s | _ \<Rightarrow> s)"
    by (simp add: frame_metrics split: sum.splits delivery_state.splits)
  show ?thesis
    unfolding conclude_settlement_def Let_def
    by (rule frame_trans [OF 1 frame_trans [OF frame_release_bytes frame_trans [OF frame_try_drain frame_ledger]]])
      (simp add: bt_wf_remove)
qed

lemma frame_conclude_through: "frame s (conclude_through now k target affected result s)"
proof -
  have 1: "frame x (if b then metrics_upd f x else x)" for b f x by (simp add: frame_metrics)
  show ?thesis
    unfolding conclude_through_def Let_def
    by (rule frame_trans [OF frame_trans [OF frame_fold [OF frame_release_bytes] 1] frame_trans [OF frame_try_drain frame_ledger]])
      (simp add: bt_wf_range)
qed

lemma frame_spawn_poison: "frame s (snd (spawn_poison_settlement c h tag s))"
  by (simp add: spawn_poison_settlement_def frame_metrics)

lemma frame_conclude_poison: "frame s (conclude_poison now i err s)"
proof (cases "map_of (cs_subscriptions s) (token_sub (the_tokens s ! i))")
  case None
  then show ?thesis
    using frame_trans [OF frame_set_token_state frame_fail_token] by (simp add: conclude_poison_def Let_def)
next
  case (Some rt)
  let ?t = "the_tokens s ! i"
  obtain terminal s1 where first: "(if live_identity rt = token_live ?t
      then spawn_poison_settlement (rs_channel rt) (rs_has_dead_letter rt) (token_tag ?t) s else (Lost, s)) = (terminal, s1)"
    by fastforce
  then have 1: "frame s s1" using frame_spawn_poison [of s "rs_channel rt" "rs_has_dead_letter rt" "token_tag ?t"]
    by (auto split: if_splits)
  have 2: "frame s1 (if terminal = Lost then record_poison_metrics (rs_has_dead_letter rt) (settled_for now ?t) s1
       else if terminal = Acked then metrics_upd (record_ack (settled_for now ?t)) s1
       else metrics_upd (record_reject (settled_for now ?t)) s1)"
    by (simp add: frame_metrics record_poison_metrics_def)
  show ?thesis
    using frame_trans [OF frame_trans [OF 1 2] frame_trans [OF frame_set_token_state frame_record]] Some first
    by (simp add: conclude_poison_def Let_def)
qed

section \<open>Launching\<close>

lemma owns_channel_key:
  assumes "i < length (the_tokens s)"
  shows "channel_key_for (token_sub (the_tokens s ! i)) s = Some k \<longleftrightarrow> owns (cs_subscriptions s) (identities s) k i"
  using assms by (auto simp: channel_key_for_def owns_def identities_nth token_sub_def)

lemma stage_settlement_launch_owned:
  assumes "owns (cs_subscriptions s) (identities s) k i"
  obtains l where "stage_settlement_launch k i s = (Some l, in_flight_upd (insert k) s)"
  using assms by (auto simp: owns_def identities_nth stage_settlement_launch_def Let_def token_sub_def)

lemma launch_settlement_ok:
  assumes ok: "actor_ok (insert k K) s" and own: "owns (cs_subscriptions s) (identities s) k (sp_token p)"
    and free: "k \<notin> st_in_flight (cs_settling s)"
  shows "actor_ok K (launch_settlement k p s)"
    and "st_in_flight (cs_settling (launch_settlement k p s)) = insert k (st_in_flight (cs_settling s))"
    and "identities (launch_settlement k p s) = identities s" and "cs_subscriptions (launch_settlement k p s) = cs_subscriptions s"
    and "st_batch (cs_settling (launch_settlement k p s)) = st_batch (cs_settling s)"
    and "the_ledgers (launch_settlement k p s) = the_ledgers s"
proof -
  obtain l where l: "stage_settlement_launch k (sp_token p) s = (Some l, in_flight_upd (insert k) s)"
    using own by (rule stage_settlement_launch_owned)
  show "actor_ok K (launch_settlement k p s)"
    using ok own free
    by (auto simp: launch_settlement_def l actor_ok_def flight_ok_def serialised_def owned_def identities_def ledgers_sorted_def)
  show "st_in_flight (cs_settling (launch_settlement k p s)) = insert k (st_in_flight (cs_settling s))"
    "identities (launch_settlement k p s) = identities s" "cs_subscriptions (launch_settlement k p s) = cs_subscriptions s"
    "st_batch (cs_settling (launch_settlement k p s)) = st_batch (cs_settling s)"
    "the_ledgers (launch_settlement k p s) = the_ledgers s"
    by (simp_all add: launch_settlement_def l identities_def)
qed

lemma launch_settle_through_ok:
  assumes ok: "actor_ok (insert k K) s" and own: "owns (cs_subscriptions s) (identities s) k (tp_token p)"
    and free: "k \<notin> st_in_flight (cs_settling s)"
  shows "actor_ok K (launch_settle_through k p s)"
    and "st_in_flight (cs_settling (launch_settle_through k p s)) = insert k (st_in_flight (cs_settling s))"
    and "identities (launch_settle_through k p s) = identities s" and "cs_subscriptions (launch_settle_through k p s) = cs_subscriptions s"
    and "st_batch (cs_settling (launch_settle_through k p s)) = st_batch (cs_settling s)"
    and "the_ledgers (launch_settle_through k p s) = the_ledgers s"
proof -
  obtain l where l: "stage_settlement_launch k (tp_token p) s = (Some l, in_flight_upd (insert k) s)"
    using own by (rule stage_settlement_launch_owned)
  have tag: "token_tag (the_tokens s ! tp_token p) = di_delivery_tag (identities s ! tp_token p)"
    using own by (simp add: owns_def identities_nth token_tag_def)
  show "actor_ok K (launch_settle_through k p s)"
    using ok own free tag
    by (auto simp: launch_settle_through_def l actor_ok_def flight_ok_def serialised_def owned_def identities_def ledgers_sorted_def)
  show "st_in_flight (cs_settling (launch_settle_through k p s)) = insert k (st_in_flight (cs_settling s))"
    "identities (launch_settle_through k p s) = identities s" "cs_subscriptions (launch_settle_through k p s) = cs_subscriptions s"
    "st_batch (cs_settling (launch_settle_through k p s)) = st_batch (cs_settling s)"
    "the_ledgers (launch_settle_through k p s) = the_ledgers s"
    by (simp_all add: launch_settle_through_def l identities_def)
qed

section \<open>Queues and completions\<close>

lemma queue_pop_ok:
  "actor_ok K s \<Longrightarrow> map_of (st_queues (cs_settling s)) k = Some (p # ps) \<Longrightarrow>
     actor_ok K (queues_upd (hm_modify k (\<lambda>_. ps)) s) \<and> owns (cs_subscriptions s) (identities s) k (sp_token p)"
  by (auto simp: actor_ok_def flight_ok_def serialised_def owned_def identities_def ledgers_sorted_def split: if_splits)

lemma through_pop_ok:
  "actor_ok K s \<Longrightarrow> map_of (st_through_queues (cs_settling s)) k = Some (p # ps) \<Longrightarrow>
     actor_ok K (through_queues_upd (hm_modify k (\<lambda>_. ps)) s) \<and> owns (cs_subscriptions s) (identities s) k (tp_token p)"
  by (auto simp: actor_ok_def flight_ok_def serialised_def owned_def identities_def ledgers_sorted_def split: if_splits)

lemma queue_delete_ok: "actor_ok K s \<Longrightarrow> actor_ok K (queues_upd (AList.delete k) s)"
  by (auto simp: actor_ok_def flight_ok_def serialised_def owned_def identities_def ledgers_sorted_def delete_conv' split: if_splits)

lemma through_delete_ok:
  "actor_ok (insert k K) s \<Longrightarrow> map_of (st_queues (cs_settling s)) k = None \<Longrightarrow> actor_ok K (through_queues_upd (AList.delete k) s)"
  by (auto simp: actor_ok_def flight_ok_def serialised_def owned_def identities_def ledgers_sorted_def delete_conv' split: if_splits)
    (metis option.discI)

lemma drain_settlement_queue_ok:
  assumes ok: "actor_ok {k} s" and free: "k \<notin> st_in_flight (cs_settling s)"
  shows "actor_ok {} (drain_settlement_queue k s) \<and> identities (drain_settlement_queue k s) = identities s"
proof (cases "\<exists>p ps. map_of (st_queues (cs_settling s)) k = Some (p # ps)")
  case True
  then obtain p ps where q: "map_of (st_queues (cs_settling s)) k = Some (p # ps)" by blast
  let ?s = "queues_upd (hm_modify k (\<lambda>_. ps)) s"
  have "actor_ok (insert k {}) ?s" "owns (cs_subscriptions ?s) (identities ?s) k (sp_token p)"
    using queue_pop_ok [OF ok q] by (simp_all add: identities_def)
  from launch_settlement_ok(1,3) [OF this] free q show ?thesis
    by (simp add: drain_settlement_queue_def identities_def)
next
  case False
  let ?s = "queues_upd (AList.delete k) s"
  have ok1: "actor_ok (insert k {}) ?s" using queue_delete_ok [OF ok] .
  have drain: "drain_settlement_queue k s = (case map_of (st_through_queues (cs_settling ?s)) k of
      Some (p # ps) \<Rightarrow> launch_settle_through k p (through_queues_upd (hm_modify k (\<lambda>_. ps)) ?s)
    | _ \<Rightarrow> through_queues_upd (AList.delete k) ?s)"
    using False by (auto simp: drain_settlement_queue_def Let_def split: option.splits list.splits)
  show ?thesis
  proof (cases "\<exists>p ps. map_of (st_through_queues (cs_settling ?s)) k = Some (p # ps)")
    case True
    then obtain p ps where q: "map_of (st_through_queues (cs_settling ?s)) k = Some (p # ps)" by blast
    let ?t = "through_queues_upd (hm_modify k (\<lambda>_. ps)) ?s"
    have "actor_ok (insert k {}) ?t" "owns (cs_subscriptions ?t) (identities ?t) k (tp_token p)"
      using through_pop_ok [OF ok1 q] by (simp_all add: identities_def)
    from launch_settle_through_ok(1,3) [OF this] free show ?thesis
      using q by (simp add: drain identities_def)
  next
    case False
    then have "drain_settlement_queue k s = through_queues_upd (AList.delete k) ?s"
      unfolding drain by (auto split: option.splits list.splits)
    moreover have "actor_ok {} (through_queues_upd (AList.delete k) ?s)"
      by (rule through_delete_ok [OF ok1]) (simp add: delete_conv')
    ultimately show ?thesis by (simp add: identities_def)
  qed
qed

lemma take_future_split:
  assumes "n < length xs"
  shows "xs = take n xs @ xs ! n # drop (Suc n) xs"
  using assms by (simp add: id_take_nth_drop)

lemma future_done_ok:
  assumes ok: "actor_ok {} s" and n: "n < length (st_futures (cs_settling s))" and k: "k = sf_key (st_futures (cs_settling s) ! n)"
  shows "actor_ok {k} (in_flight_upd (\<lambda>f. f - {k}) (futures_upd (take_future n) s)) \<and>
    owns (cs_subscriptions s) (identities s) k (sf_token (st_futures (cs_settling s) ! n))"
proof -
  let ?fs = "st_futures (cs_settling s)"
  have split: "?fs = take n ?fs @ ?fs ! n # drop (Suc n) ?fs" by (rule take_future_split [OF n])
  then have keys: "map sf_key ?fs = map sf_key (take n ?fs) @ k # map sf_key (drop (Suc n) ?fs)" "?fs ! n \<in> set ?fs"
    unfolding k using n by (metis list.simps(9) map_append, simp)
  have ser: "distinct (map sf_key ?fs @ map tf_key (st_throughs (cs_settling s)))"
    "set (map sf_key ?fs @ map tf_key (st_throughs (cs_settling s))) = st_in_flight (cs_settling s)"
    using ok by (auto simp: actor_ok_def flight_ok_def serialised_def)
  have "distinct (map sf_key (take_future n ?fs) @ map tf_key (st_throughs (cs_settling s)))"
    "set (map sf_key (take_future n ?fs) @ map tf_key (st_throughs (cs_settling s))) = st_in_flight (cs_settling s) - {k}"
    using ser unfolding keys(1) take_future_def by auto
  moreover have "set (take_future n ?fs) \<subseteq> set ?fs"
    unfolding take_future_def using set_take_subset set_drop_subset by fastforce
  ultimately show ?thesis
    using ok keys(2) k
    by (auto simp: actor_ok_def flight_ok_def serialised_def owned_def identities_def ledgers_sorted_def)
qed

lemma through_done_ok:
  assumes ok: "actor_ok {} s" and n: "n < length (st_throughs (cs_settling s))" and k: "k = tf_key (st_throughs (cs_settling s) ! n)"
  shows "actor_ok {k} (in_flight_upd (\<lambda>f. f - {k}) (throughs_upd (take_future n) s))"
proof -
  let ?fs = "st_throughs (cs_settling s)"
  have split: "?fs = take n ?fs @ ?fs ! n # drop (Suc n) ?fs" by (rule take_future_split [OF n])
  then have keys: "map tf_key ?fs = map tf_key (take n ?fs) @ k # map tf_key (drop (Suc n) ?fs)"
    unfolding k by (metis list.simps(9) map_append)
  have ser: "distinct (map sf_key (st_futures (cs_settling s)) @ map tf_key ?fs)"
    "set (map sf_key (st_futures (cs_settling s)) @ map tf_key ?fs) = st_in_flight (cs_settling s)"
    using ok by (auto simp: actor_ok_def flight_ok_def serialised_def)
  have "distinct (map sf_key (st_futures (cs_settling s)) @ map tf_key (take_future n ?fs))"
    "set (map sf_key (st_futures (cs_settling s)) @ map tf_key (take_future n ?fs)) = st_in_flight (cs_settling s) - {k}"
    using ser unfolding keys(1) take_future_def by auto
  moreover have "set (take_future n ?fs) \<subseteq> set ?fs"
    unfolding take_future_def using set_take_subset set_drop_subset by fastforce
  ultimately show ?thesis
    using ok
    by (auto simp: actor_ok_def flight_ok_def serialised_def owned_def identities_def ledgers_sorted_def)
qed

text \<open>A completion frees the channel, does its bookkeeping and starts the next settlement of the channel.\<close>

lemma completion_ok:
  assumes ok: "actor_ok {k} s" and free: "k \<notin> st_in_flight (cs_settling s)" and fr: "frame s s'"
  shows "actor_ok {} (drain_settlement_queue k s') \<and> (\<exists>is. identities (drain_settlement_queue k s') = identities s @ is)"
proof -
  have "actor_ok {k} s'" using ok fr by (rule actor_ok_frame)
  moreover have "k \<notin> st_in_flight (cs_settling s')" using free fr by (simp add: frame_def flight_part_def)
  ultimately show ?thesis using drain_settlement_queue_ok [of k s'] fr by (auto simp: frame_def)
qed

lemma complete_settlement_ok:
  assumes "actor_ok {k} (in_flight_upd (\<lambda>f. f - {k}) s)"
  shows "actor_ok {} (complete_settlement now k i result s) \<and> (\<exists>is. identities (complete_settlement now k i result s) = identities s @ is)"
proof -
  let ?s0 = "in_flight_upd (\<lambda>f. f - {k}) s"
  let ?s1 = "case result of Inr _ \<Rightarrow> conclude_settlement now k i result ?s0
                | Inl err \<Rightarrow> if terminal_kind (ce_kind err) then conclude_settlement now k i result ?s0 else ?s0"
  let ?s2 = "set_settling False i ?s1"
  let ?s3 = "case result of Inr terminal \<Rightarrow> set_token_state terminal i ?s2
                | Inl err \<Rightarrow>
                    if lost_kind (ce_kind err) then fail_token i (ce_kind err) (ce_message err) (set_token_state Lost i ?s2)
                    else if terminal_kind (ce_kind err) then conclude_poison now i err ?s2
                    else fail_token i (ce_kind err) (ce_message err) (set_token_state Pending i ?s2)"
  have "frame ?s0 ?s1" by (simp add: frame_conclude_settlement split: sum.splits)
  moreover have "frame ?s1 ?s2" by (rule frame_set_settling)
  moreover have "frame x (fail_token i a b (set_token_state st i x))" for x a b st
    by (rule frame_trans [OF frame_set_token_state frame_fail_token])
  then have "frame ?s2 ?s3" by (simp add: frame_set_token_state frame_conclude_poison split: sum.splits)
  ultimately have "frame ?s0 ?s3" using frame_trans by blast
  from completion_ok [OF assms _ this] show ?thesis
    unfolding complete_settlement_def Let_def by (simp add: identities_def)
qed

lemma complete_settle_through_ok:
  assumes "actor_ok {k} (in_flight_upd (\<lambda>f. f - {k}) s)"
  shows "actor_ok {} (complete_settle_through now k target affected result s) \<and>
    (\<exists>is. identities (complete_settle_through now k target affected result s) = identities s @ is)"
proof -
  let ?s0 = "in_flight_upd (\<lambda>f. f - {k}) s"
  let ?s1 = "case result of Inr _ \<Rightarrow> conclude_through now k target affected result ?s0
                | Inl err \<Rightarrow> if lost_kind (ce_kind err) then conclude_through now k target affected result ?s0 else ?s0"
  have "frame ?s0 ?s1" by (simp add: frame_conclude_through split: sum.splits)
  then have "frame ?s0 (through_error target affected result (fold (finish_token (through_final result)) affected ?s1))"
    using frame_trans [OF _ frame_trans [OF frame_finish_tokens frame_through_error]] by blast
  from completion_ok [OF assms _ this] show ?thesis
    unfolding complete_settle_through_def Let_def by (simp add: identities_def)
qed

lemma close_settlement_ok:
  assumes "actor_ok {k} (in_flight_upd (\<lambda>f. f - {k}) s)"
  shows "actor_ok {} (close_settlement k i result s) \<and> (\<exists>is. identities (close_settlement k i result s) = identities s @ is)"
proof -
  let ?s1 = "finish_token (case result of Inr terminal \<Rightarrow> terminal | Inl _ \<Rightarrow> Lost) i (in_flight_upd (\<lambda>f. f - {k}) s)"
  have "frame ?s1 (case result of Inr _ \<Rightarrow> ?s1 | Inl err \<Rightarrow> fail_token i (ce_kind err) (ce_message err) ?s1)"
    by (simp add: frame_fail_token split: sum.splits)
  from completion_ok [OF assms _ frame_trans [OF frame_finish_token this]] show ?thesis
    unfolding close_settlement_def Let_def by (simp add: identities_def)
qed

lemma close_settle_through_ok:
  assumes "actor_ok {k} (in_flight_upd (\<lambda>f. f - {k}) s)"
  shows "actor_ok {} (close_settle_through k target affected result s) \<and>
    (\<exists>is. identities (close_settle_through k target affected result s) = identities s @ is)"
proof -
  have "frame x (through_error target affected result (fold (finish_token st) affected x))" for x st
    by (rule frame_trans [OF frame_finish_tokens frame_through_error])
  from completion_ok [OF assms _ this] show ?thesis
    unfolding close_settle_through_def Let_def by (simp add: identities_def)
qed

section \<open>Accepting settlements\<close>

text \<open>The invariant, with the subscriptions fixed and the tokens only added to.\<close>

definition steady :: "consumer_state \<Rightarrow> consumer_state \<Rightarrow> bool" where
  "steady s s' \<longleftrightarrow> actor_ok {} s' \<and> cs_subscriptions s' = cs_subscriptions s \<and> (\<exists>is. identities s' = identities s @ is)"

lemma steady_refl: "actor_ok {} s \<Longrightarrow> steady s s"
  by (simp add: steady_def)

lemma steady_trans: "steady s t \<Longrightarrow> steady t u \<Longrightarrow> steady s u"
  by (auto simp: steady_def)

lemma steady_frame: "actor_ok {} s \<Longrightarrow> frame s s' \<Longrightarrow> steady s s'"
  using actor_ok_frame [of "{}" s s'] by (auto simp: steady_def frame_def)

lemma steady_owns: "steady s s' \<Longrightarrow> owns (cs_subscriptions s) (identities s) k i \<Longrightarrow> owns (cs_subscriptions s') (identities s') k i"
  by (auto simp: steady_def owns_append)

lemma actor_ok_mono: "actor_ok K s \<Longrightarrow> actor_ok (insert k K) s"
  by (auto simp: actor_ok_def flight_ok_def serialised_def)

lemma claim_settlement_frame:
  assumes "claim_settlement i s = (r, s1)" and "i < length (the_tokens s)"
  shows "frame s s1" and "r = Some k \<Longrightarrow> owns (cs_subscriptions s1) (identities s1) k i"
proof -
  show fr: "frame s s1"
    using assms frame_trans [OF frame_set_token_state frame_fail_token]
    by (auto simp: claim_settlement_def frame_fail_token frame_set_settling split: option.splits if_splits)
  assume "r = Some k"
  then have "channel_key_for (token_sub (the_tokens s ! i)) s = Some k"
    using assms(1) by (auto simp: claim_settlement_def split: option.splits if_splits)
  then have "owns (cs_subscriptions s) (identities s) k i" using owns_channel_key [OF assms(2)] by simp
  with fr show "owns (cs_subscriptions s1) (identities s1) k i" by (auto simp: frame_def owns_append)
qed

lemma enqueue_settlement_ok:
  assumes "actor_ok {} s" and "owns (cs_subscriptions s) (identities s) k (sp_token p)" and "k \<in> st_in_flight (cs_settling s)"
  shows "steady s (enqueue_settlement k p s)" and "st_in_flight (cs_settling (enqueue_settlement k p s)) = st_in_flight (cs_settling s)"
  using assms
  by (auto simp: steady_def enqueue_settlement_def actor_ok_def flight_ok_def serialised_def owned_def identities_def ledgers_sorted_def
      split: if_splits option.splits) metis

lemma enqueue_through_ok:
  assumes "actor_ok {} s" and "owns (cs_subscriptions s) (identities s) k (tp_token p)" and "k \<in> st_in_flight (cs_settling s)"
  shows "steady s (through_queues_upd (hm_or_default k [] (\<lambda>q. q @ [p])) s)"
  using assms
  by (auto simp: steady_def actor_ok_def flight_ok_def serialised_def owned_def identities_def ledgers_sorted_def
      split: if_splits option.splits) metis

lemma launch_or_queue_ok:
  assumes "actor_ok {} s" and "owns (cs_subscriptions s) (identities s) k (sp_token p)"
  shows "steady s (launch_or_queue k p s)"
  using enqueue_settlement_ok(1) [OF assms] launch_settlement_ok [OF actor_ok_mono [OF assms(1)] assms(2)]
  by (auto simp: launch_or_queue_def steady_def)

lemma set_bt_insert: "x \<in> set (bt_insert k v xs) \<Longrightarrow> x = (k, v) \<or> x \<in> set xs"
  by (induction k v xs rule: bt_insert.induct) (auto split: if_splits)

lemma batch_insert_ok:
  assumes ok: "actor_ok {} s" and own: "owns (cs_subscriptions s) (identities s) k i"
  shows "steady s (batch_upd (hm_or_default k [] (bt_insert (token_tag (the_tokens s ! i)) i)) s)"
proof -
  have tag: "token_tag (the_tokens s ! i) = di_delivery_tag (identities s ! i)"
    using own by (simp add: owns_def identities_nth token_tag_def)
  have "batch_ok (cs_subscriptions s) (identities s) k (bt_insert (di_delivery_tag (identities s ! i)) i
      (case map_of (st_batch (cs_settling s)) k of None \<Rightarrow> [] | Some v \<Rightarrow> v))"
    using ok own
    by (auto simp: actor_ok_def flight_ok_def owned_def batch_ok_def bt_wf_insert dest!: set_bt_insert split: option.splits)
  with ok show ?thesis
    by (auto simp: tag steady_def actor_ok_def flight_ok_def serialised_def owned_def identities_def ledgers_sorted_def)
qed

lemma handle_settle_ok:
  assumes ok: "actor_ok {} s" and i: "i < length (the_tokens s)"
  shows "steady s (handle_settle i st latency s)"
proof -
  obtain r s1 where claim: "claim_settlement i s = (r, s1)" by fastforce
  have 1: "steady s s1" using steady_frame [OF ok claim_settlement_frame(1) [OF claim i]] .
  show ?thesis
  proof (cases r)
    case None
    with claim 1 show ?thesis by (simp add: handle_settle_def)
  next
    case (Some k)
    have own: "owns (cs_subscriptions s1) (identities s1) k i" using claim_settlement_frame(2) [OF claim i Some] .
    have ok1: "actor_ok {} s1" using 1 by (simp add: steady_def)
    let ?o = "observe_latency (token_sub (the_tokens s1 ! i)) latency s1"
    have 2: "steady s1 ?o" by (rule steady_frame [OF ok1 frame_observe])
    then have "steady ?o (batch_upd (hm_or_default k [] (bt_insert (token_tag (the_tokens ?o ! i)) i)) ?o)"
      using batch_insert_ok [of ?o k i] steady_owns [OF 2 own] by (simp add: steady_def)
    moreover have "the_tokens ?o = the_tokens s1" by (simp add: observe_latency_def)
    ultimately show ?thesis
      using claim Some steady_trans [OF 1 steady_trans [OF 2]] steady_trans [OF 1 launch_or_queue_ok [OF ok1]] own
      by (simp add: handle_settle_def)
  qed
qed

lemma fence_settle_through_frame:
  assumes "fence_settle_through i s = (r, s1)" and "i < length (the_tokens s)"
  shows "frame s s1" and "r = Some (k, live) \<Longrightarrow> owns (cs_subscriptions s1) (identities s1) k i"
proof -
  obtain c s2 where claim: "claim_settlement i s = (c, s2)" by fastforce
  note cl = claim_settlement_frame [OF claim assms(2)]
  have undo: "frame s (fail_token i a b (set_settling False i s2))" for a b
    by (rule frame_trans [OF cl(1) frame_trans [OF frame_set_settling frame_fail_token]])
  show "frame s s1"
    using assms(1) claim cl(1) undo
    by (auto simp: fence_settle_through_def frame_fail_token split: if_splits option.splits sum.splits)
  assume "r = Some (k, live)"
  then have "c = Some k" "s1 = s2"
    using assms(1) claim by (auto simp: fence_settle_through_def split: if_splits option.splits sum.splits)
  then show "owns (cs_subscriptions s1) (identities s1) k i" using cl(2) by simp
qed

lemma handle_settle_through_ok:
  assumes ok: "actor_ok {} s" and i: "i < length (the_tokens s)"
  shows "steady s (handle_settle_through i latency s)"
proof -
  obtain r s1 where fence: "fence_settle_through i s = (r, s1)" by fastforce
  have 1: "steady s s1" using steady_frame [OF ok fence_settle_through_frame(1) [OF fence i]] .
  then have ok1: "actor_ok {} s1" by (simp add: steady_def)
  show ?thesis
  proof (cases r)
    case None
    with fence 1 show ?thesis by (simp add: handle_settle_through_def)
  next
    case (Some kl)
    obtain k live where kl: "kl = (k, live)" by fastforce
    have own: "owns (cs_subscriptions s1) (identities s1) k i"
      using fence_settle_through_frame(2) [OF fence i] Some kl by simp
    have undo: "steady s (fail_token i a b (set_settling False i s1))" for a b
      by (rule steady_trans [OF 1 steady_frame [OF ok1 frame_trans [OF frame_set_settling frame_fail_token]]])
    have go: "steady s (let s2 = observe_latency (token_sub (the_tokens s1 ! i)) latency (fold (set_settling True) affected s1);
                            p = \<lparr>tp_token = i, tp_affected = affected\<rparr>
                        in if k \<in> st_in_flight (cs_settling s2)
                           then through_queues_upd (hm_or_default k [] (\<lambda>q. q @ [p])) s2
                           else launch_settle_through k p s2)" for affected
    proof -
      let ?s2 = "observe_latency (token_sub (the_tokens s1 ! i)) latency (fold (set_settling True) affected s1)"
      have "frame x (fold (set_settling True) affected x)" for x by (rule frame_fold) (rule frame_set_settling)
      then have 2: "steady s1 ?s2" by (intro steady_frame [OF ok1] frame_trans [OF _ frame_observe])
      have own2: "owns (cs_subscriptions ?s2) (identities ?s2) k i" by (rule steady_owns [OF 2 own])
      have ok2: "actor_ok {} ?s2" using 2 by (simp add: steady_def)
      have "steady ?s2 (through_queues_upd (hm_or_default k [] (\<lambda>q. q @ [\<lparr>tp_token = i, tp_affected = affected\<rparr>])) ?s2)"
        if "k \<in> st_in_flight (cs_settling ?s2)"
        using enqueue_through_ok [OF ok2 _ that] own2 by simp
      moreover have "steady ?s2 (launch_settle_through k \<lparr>tp_token = i, tp_affected = affected\<rparr> ?s2)"
        if "k \<notin> st_in_flight (cs_settling ?s2)"
        using launch_settle_through_ok [OF actor_ok_mono [OF ok2], of k "\<lparr>tp_token = i, tp_affected = affected\<rparr>"] own2 that
        by (simp add: steady_def)
      ultimately show ?thesis
        using steady_trans [OF 1 steady_trans [OF 2]] by (simp add: Let_def)
    qed
    show ?thesis
      using fence undo go unfolding handle_settle_through_def Some kl
      by (simp add: Let_def split: option.splits sum.splits)
  qed
qed

section \<open>Flushing\<close>

lemma flush_run_mem: "i \<in> set (flush_run B es) \<Longrightarrow> \<exists>tag. (tag, i) \<in> set B"
proof (induction B es rule: flush_run.induct)
  case (2 B tag e es)
  then show ?case by (cases "map_of B tag") (auto split: if_splits dest: map_of_SomeD)
qed simp

lemma stragglers_mem: "p \<in> set (stragglers_from n B L) \<Longrightarrow> \<exists>tag. (tag, sp_token p) \<in> set B"
  by (auto simp: stragglers_from_def bt_range_def)

lemma fold_enqueue_ok:
  "actor_ok {} s \<Longrightarrow> (\<And>p. p \<in> set ps \<Longrightarrow> owns (cs_subscriptions s) (identities s) k (sp_token p)) \<Longrightarrow>
     k \<in> st_in_flight (cs_settling s) \<Longrightarrow> steady s (fold (enqueue_settlement k) ps s)"
proof (induction ps arbitrary: s)
  case (Cons p ps)
  note e = enqueue_settlement_ok [OF Cons.prems(1) Cons.prems(2) Cons.prems(3), of p, simplified]
  have "steady (enqueue_settlement k p s) (fold (enqueue_settlement k) ps (enqueue_settlement k p s))"
  proof (rule Cons.IH)
    show "actor_ok {} (enqueue_settlement k p s)" using e(1) by (simp add: steady_def)
  qed (use Cons.prems e(2) steady_owns [OF e(1)] in auto)
  with steady_trans [OF e(1)] show ?case by simp
qed (simp add: steady_refl)

lemma fold_launch_ok:
  "actor_ok {} s \<Longrightarrow> (\<And>p. p \<in> set ps \<Longrightarrow> owns (cs_subscriptions s) (identities s) k (sp_token p)) \<Longrightarrow>
     steady s (fold (launch_or_queue k) ps s)"
proof (induction ps arbitrary: s)
  case (Cons p ps)
  note e = launch_or_queue_ok [OF Cons.prems(1) Cons.prems(2), of p, simplified]
  have "steady (launch_or_queue k p s) (fold (launch_or_queue k) ps (launch_or_queue k p s))"
  proof (rule Cons.IH)
    show "actor_ok {} (launch_or_queue k p s)" using e(1) by (simp add: steady_def)
  qed (use Cons.prems steady_owns [OF e(1)] in auto)
  with steady_trans [OF e(1)] show ?case by simp
qed (simp add: steady_refl)

lemma batch_delete_ok: "actor_ok {} s \<Longrightarrow> steady s (batch_upd (AList.delete k) s)"
  by (auto simp: steady_def actor_ok_def flight_ok_def serialised_def owned_def identities_def ledgers_sorted_def delete_conv' split: if_splits)

lemma flush_channel_ok:
  assumes ok: "actor_ok {} s"
  shows "steady s (flush_channel k s)"
proof (cases "k \<in> st_in_flight (cs_settling s) \<or> map_of (st_batch (cs_settling s)) k = None \<or> map_of (the_ledgers s) k = None")
  case True
  then show ?thesis using steady_refl [OF ok] batch_delete_ok [OF ok]
    by (auto simp: flush_channel_def split: option.splits)
next
  case False
  then obtain B L where BL: "k \<notin> st_in_flight (cs_settling s)" "map_of (st_batch (cs_settling s)) k = Some B" "map_of (the_ledgers s) k = Some L"
    by auto
  let ?run = "flush_run B (bt_range (\<lambda>tag. cl_acked_prefix L + 1 \<le> tag) (cl_pending L))"
  let ?st = "stragglers_from (if ?run = [] then cl_acked_prefix L + 1 else token_tag (the_tokens s ! last ?run) + 1) B L"
  let ?s1 = "batch_upd (AList.delete k) s"
  have 1: "steady s ?s1" by (rule batch_delete_ok [OF ok])
  then have ok1: "actor_ok {} ?s1" by (simp add: steady_def)
  have own: "owns (cs_subscriptions s) (identities s) k i" if "(tag, i) \<in> set B" for tag i
    using ok BL(2) that by (auto simp: actor_ok_def flight_ok_def owned_def batch_ok_def)
  have own1: "owns (cs_subscriptions ?s1) (identities ?s1) k i" if "(tag, i) \<in> set B" for tag i
    using steady_owns [OF 1 own [OF that]] .
  have st: "owns (cs_subscriptions ?s1) (identities ?s1) k (sp_token p)" if "p \<in> set ?st" for p
    using stragglers_mem [OF that] own1 by blast
  show ?thesis
  proof (cases "?run = []")
    case True
    have "steady s (fold (launch_or_queue k) ?st ?s1)" using steady_trans [OF 1 fold_launch_ok [OF ok1 st]] by blast
    with BL True show ?thesis by (simp add: flush_channel_def Let_def)
  next
    case False
    let ?p = "\<lparr>tp_token = last ?run, tp_affected = ?run\<rparr>"
    have "last ?run \<in> set ?run" using False by simp
    then have "owns (cs_subscriptions ?s1) (identities ?s1) k (tp_token ?p)"
      using flush_run_mem own1 by fastforce
    note l = launch_settle_through_ok [OF actor_ok_mono [OF ok1] this]
    have free: "k \<notin> st_in_flight (cs_settling ?s1)" using BL(1) by simp
    have 2: "steady ?s1 (launch_settle_through k ?p ?s1)" using l(1,3,4) [OF free] by (simp add: steady_def)
    have "steady (launch_settle_through k ?p ?s1) (fold (enqueue_settlement k) ?st (launch_settle_through k ?p ?s1))"
      using l(1,2) [OF free] steady_owns [OF 2 st] by (intro fold_enqueue_ok) auto
    then have "steady s (fold (enqueue_settlement k) ?st (launch_settle_through k ?p ?s1))"
      using steady_trans [OF 1 steady_trans [OF 2]] by blast
    with BL False show ?thesis by (simp add: flush_channel_def Let_def)
  qed
qed

lemma fold_steady: "(\<And>x s. actor_ok {} s \<Longrightarrow> steady s (f x s)) \<Longrightarrow> actor_ok {} s \<Longrightarrow> steady s (fold f xs s)"
proof (induction xs arbitrary: s)
  case (Cons x xs)
  then have "steady s (f x s)" "actor_ok {} (f x s)" by (auto simp: steady_def)
  with Cons show ?case using steady_trans [of s "f x s"] by simp
qed (simp add: steady_refl)

lemma flush_acked_ok: "actor_ok {} s \<Longrightarrow> steady s (flush_acked s)"
  unfolding flush_acked_def by (rule fold_steady [OF flush_channel_ok])

section \<open>The running set\<close>

fun command_known :: "nat \<Rightarrow> control_command \<Rightarrow> bool" where
  "command_known n (SettleCommand i _ _) = (i < n)"
| "command_known n (SettleThroughCommand i _) = (i < n)"
| "command_known n (GetPrefetchStats _) = True"

definition consumer_ok :: "'e consumer_system \<Rightarrow> bool" where
  "consumer_ok y \<longleftrightarrow> actor_ok {} (cy_actor y) \<and>
     (\<forall>c. c \<in> set (ct_queue (cy_control y)) \<longrightarrow> command_known (length (the_tokens (cy_actor y))) c)"

lemma command_known_mono: "command_known n c \<Longrightarrow> n \<le> m \<Longrightarrow> command_known m c"
  by (cases c) auto

lemma steady_length: "steady s s' \<Longrightarrow> length (the_tokens s) \<le> length (the_tokens s')"
  unfolding steady_def by (metis length_append length_identities le_add1)

lemma consumer_ok_actor:
  "consumer_ok y \<Longrightarrow> steady (cy_actor y) s' \<Longrightarrow> consumer_ok (y\<lparr>cy_actor := s'\<rparr>)"
  using steady_length [of "cy_actor y" s'] command_known_mono by (auto simp: consumer_ok_def steady_def)

lemma handle_incoming_steady:
  assumes ok: "actor_ok {} s" and room: "length (in_pending (cs_intake s)) < in_pending_capacity (cs_intake s)"
  shows "steady s (handle_incoming now sub r s)"
proof -
  note step = intake_step_handle_incoming [of s now sub r]
  have "actor_ok {} (handle_incoming now sub r s)"
    using ok room step handle_incoming_wf [of s now sub r] handle_incoming_pending [of now sub r s]
      flight_part_eq [of "cs_settling (handle_incoming now sub r s)" "cs_settling s"]
      owned_append [of "cs_subscriptions s" "identities s" "cs_settling s"]
    by (auto simp: actor_ok_def flight_ok_def intake_step_def identities_def)
  with step show ?thesis by (auto simp: steady_def intake_step_def identities_def)
qed

lemma dispatch_steady: "actor_ok {} s \<Longrightarrow> steady s (dispatch now s)"
  by (rule steady_frame) (simp_all add: frame_of_intake_step intake_step_dispatch dispatch_wf dispatch_pending_length)

lemma drain_incoming_steady: "actor_ok {} s \<Longrightarrow> steady s (snd (drain_incoming now q s))"
proof (induction now q s rule: drain_incoming.induct)
  case (2 now sub r q s)
  show ?case
  proof (cases "length (in_pending (cs_intake s)) < in_pending_capacity (cs_intake s)")
    case True
    note h = handle_incoming_steady [OF 2(2) True, of now sub r]
    then have "steady (handle_incoming now sub r s) (snd (drain_incoming now q (handle_incoming now sub r s)))"
      using 2(1) True by (simp add: steady_def)
    with steady_trans [OF h] True show ?thesis by simp
  qed (simp add: steady_refl 2)
qed (simp add: steady_refl)

lemma handle_control_ok:
  assumes "actor_ok {} (cy_actor y)" and "command_known (length (the_tokens (cy_actor y))) c"
  shows "steady (cy_actor y) (cy_actor (handle_control c y)) \<and> cy_control (handle_control c y) = cy_control y"
  using assms by (cases c) (auto simp: handle_settle_ok handle_settle_through_ok steady_refl)

lemma fold_handle_control_ok:
  "actor_ok {} (cy_actor y) \<Longrightarrow> (\<And>c. c \<in> set cs \<Longrightarrow> command_known (length (the_tokens (cy_actor y))) c) \<Longrightarrow>
     steady (cy_actor y) (cy_actor (fold handle_control cs y)) \<and> cy_control (fold handle_control cs y) = cy_control y"
proof (induction cs arbitrary: y)
  case (Cons c cs)
  note h = handle_control_ok [OF Cons.prems(1), of c]
  then have st: "steady (cy_actor y) (cy_actor (handle_control c y))" using Cons.prems(2) by simp
  have "steady (cy_actor (handle_control c y)) (cy_actor (fold handle_control cs (handle_control c y))) \<and>
      cy_control (fold handle_control cs (handle_control c y)) = cy_control (handle_control c y)"
  proof (rule Cons.IH)
    show "actor_ok {} (cy_actor (handle_control c y))" using st by (simp add: steady_def)
    show "command_known (length (the_tokens (cy_actor (handle_control c y)))) c'" if "c' \<in> set cs" for c'
      using Cons.prems(2) [of c'] that command_known_mono steady_length [OF st] by auto
  qed
  with h Cons.prems(2) show ?case using steady_trans [OF st] by simp
qed (simp add: steady_refl)

lemma flush_if_drained_ok: "actor_ok {} s \<Longrightarrow> steady s (flush_if_drained s)"
  by (simp add: flush_if_drained_def flush_acked_ok steady_refl)

lemma loop_top_ok:
  assumes "consumer_ok y"
  shows "consumer_ok (loop_top now y)"
proof -
  let ?y0 = "cy_control_update (ct_queue_update (\<lambda>_. [])) y"
  have ok: "actor_ok {} (cy_actor ?y0)" using assms by (simp add: consumer_ok_def)
  have d: "steady (cy_actor y) (cy_actor (drain_control y))" "cy_control (drain_control y) = cy_control ?y0"
    using fold_handle_control_ok [OF ok, of "ct_queue (cy_control y)"] assms
    by (simp_all add: drain_control_def consumer_ok_def)
  obtain q s where inc: "drain_incoming now (cy_incoming (drain_control y)) (cy_actor (drain_control y)) = (q, s)" by fastforce
  have "actor_ok {} (cy_actor (drain_control y))" using d(1) by (simp add: steady_def)
  from drain_incoming_steady [OF this, of now "cy_incoming (drain_control y)"] inc
  have "actor_ok {} s" by (simp add: steady_def)
  from flush_if_drained_ok [OF this] inc d(2) show ?thesis
    by (simp add: loop_top_def Let_def consumer_ok_def steady_def)
qed

lemma arm_control_ok: "consumer_ok y \<Longrightarrow> consumer_ok (arm_control y)"
proof (cases "ct_queue (cy_control y)")
  case (Cons c q)
  assume ok: "consumer_ok y"
  let ?y = "cy_control_update (ct_queue_update (\<lambda>_. q)) y"
  have h: "steady (cy_actor ?y) (cy_actor (handle_control c ?y)) \<and> cy_control (handle_control c ?y) = cy_control ?y"
    using ok Cons by (intro handle_control_ok) (auto simp: consumer_ok_def)
  have "command_known (length (the_tokens (cy_actor (handle_control c ?y)))) c'" if "c' \<in> set q" for c'
    using ok Cons that command_known_mono [OF _ steady_length [of "cy_actor y"]] h by (auto simp: consumer_ok_def)
  with h Cons show ?thesis by (simp add: arm_control_def consumer_ok_def steady_def)
qed (simp add: arm_control_def)

lemma arm_incoming_ok: "consumer_ok y \<Longrightarrow> consumer_ok (arm_incoming now y)"
  unfolding arm_incoming_def
  using consumer_ok_actor [of y, OF _ handle_incoming_steady]
  by (auto simp: consumer_ok_def split: list.splits)

lemma collect_prefetch_subs: "snd (collect_prefetch_updates s) = s\<lparr>cs_adaptive := snd (collect_updates (cs_adaptive s))\<rparr>"
  by (simp add: collect_prefetch_updates_def split: prod.splits)

lemma arm_prefetch_steady: "actor_ok {} s \<Longrightarrow> steady s (arm_prefetch s)"
proof (rule steady_frame)
  obtain us s1 where c: "collect_prefetch_updates s = (us, s1)" by fastforce
  then have "s1 = s\<lparr>cs_adaptive := snd (collect_updates (cs_adaptive s))\<rparr>" using collect_prefetch_subs [of s] by simp
  then show "frame s (arm_prefetch s)"
    by (simp add: arm_prefetch_def c frame_def identities_def ledgers_sorted_def bounded_errors_def)
qed

lemma done_known:
  assumes "\<exists>is. identities s' = identities s @ is"
  shows "length (the_tokens s) \<le> length (the_tokens s')"
  using assms by (metis length_append length_identities le_add1)

lemma arm_settled_ok:
  assumes ok: "consumer_ok y"
  shows "consumer_ok (arm_settled env now n y)"
proof (cases "n < length (st_futures (cs_settling (cy_actor y)))")
  case True
  let ?s = "cy_actor y"
  let ?f = "st_futures (cs_settling ?s) ! n"
  let ?t = "futures_upd (take_future n) ?s"
  have "actor_ok {sf_key ?f} (in_flight_upd (\<lambda>f. f - {sf_key ?f}) ?t)"
    using future_done_ok [OF _ True] ok by (simp add: consumer_ok_def)
  note c = complete_settlement_ok [OF this, of now "sf_token ?f"]
  have "length (the_tokens ?s) \<le> length (the_tokens (complete_settlement now (sf_key ?f) (sf_token ?f) r ?t))" for r
    using done_known [of _ ?t] c by simp
  with c ok True command_known_mono show ?thesis
    by (auto simp: arm_settled_def Let_def consumer_ok_def split: prod.splits)
qed (use ok in \<open>simp add: arm_settled_def\<close>)

lemma arm_through_ok:
  assumes ok: "consumer_ok y"
  shows "consumer_ok (arm_through env now n y)"
proof (cases "n < length (st_throughs (cs_settling (cy_actor y)))")
  case True
  let ?s = "cy_actor y"
  let ?f = "st_throughs (cs_settling ?s) ! n"
  let ?t = "throughs_upd (take_future n) ?s"
  have "actor_ok {tf_key ?f} (in_flight_upd (\<lambda>f. f - {tf_key ?f}) ?t)"
    using through_done_ok [OF _ True] ok by (simp add: consumer_ok_def)
  note c = complete_settle_through_ok [OF this, of now "tf_target ?f" "tf_affected ?f"]
  have "length (the_tokens ?s) \<le> length (the_tokens (complete_settle_through now (tf_key ?f) (tf_target ?f) (tf_affected ?f) r ?t))" for r
    using done_known [of _ ?t] c by simp
  with c ok True command_known_mono show ?thesis
    by (auto simp: arm_through_def Let_def consumer_ok_def split: prod.splits)
qed (use ok in \<open>simp add: arm_through_def\<close>)

lemma close_one_settled_ok:
  assumes ok: "consumer_ok y"
  shows "consumer_ok (close_one_settled env n y)"
proof (cases "n < length (st_futures (cs_settling (cy_actor y)))")
  case True
  let ?s = "cy_actor y"
  let ?f = "st_futures (cs_settling ?s) ! n"
  let ?t = "futures_upd (take_future n) ?s"
  have "actor_ok {sf_key ?f} (in_flight_upd (\<lambda>f. f - {sf_key ?f}) ?t)"
    using future_done_ok [OF _ True] ok by (simp add: consumer_ok_def)
  note c = close_settlement_ok [OF this, of "sf_token ?f"]
  have "length (the_tokens ?s) \<le> length (the_tokens (close_settlement (sf_key ?f) (sf_token ?f) r ?t))" for r
    using done_known [of _ ?t] c by simp
  with c ok True command_known_mono show ?thesis
    by (auto simp: close_one_settled_def Let_def consumer_ok_def split: prod.splits)
qed (use ok in \<open>simp add: close_one_settled_def\<close>)

lemma close_one_through_ok:
  assumes ok: "consumer_ok y"
  shows "consumer_ok (close_one_through env n y)"
proof (cases "n < length (st_throughs (cs_settling (cy_actor y)))")
  case True
  let ?s = "cy_actor y"
  let ?f = "st_throughs (cs_settling ?s) ! n"
  let ?t = "throughs_upd (take_future n) ?s"
  have "actor_ok {tf_key ?f} (in_flight_upd (\<lambda>f. f - {tf_key ?f}) ?t)"
    using through_done_ok [OF _ True] ok by (simp add: consumer_ok_def)
  note c = close_settle_through_ok [OF this, of "tf_target ?f" "tf_affected ?f"]
  have "length (the_tokens ?s) \<le> length (the_tokens (close_settle_through (tf_key ?f) (tf_target ?f) (tf_affected ?f) r ?t))" for r
    using done_known [of _ ?t] c by simp
  with c ok True command_known_mono show ?thesis
    by (auto simp: close_one_through_def Let_def consumer_ok_def split: prod.splits)
qed (use ok in \<open>simp add: close_one_through_def\<close>)

text \<open>The sweep of the teardown handles the commands as the loop does.\<close>

lemma close_command_control: "close_command c (cy_actor y) = cy_actor (handle_control c y)"
  by (cases c) auto

lemma fold_close_command: "fold close_command cs (cy_actor y) = cy_actor (fold handle_control cs y)"
  by (induction cs arbitrary: y) (simp_all add: close_command_control)

lemma close_start_ok:
  assumes "consumer_ok y"
  shows "consumer_ok (close_start y)"
proof -
  have "steady (cy_actor y) (fold close_command (ct_queue (cy_control y)) (cy_actor y))"
    using fold_handle_control_ok [of y "ct_queue (cy_control y)"] assms
    by (simp add: consumer_ok_def fold_close_command)
  then have "actor_ok {} (close_sweep (ct_queue (cy_control y)) (cy_actor y))"
    using flush_acked_ok by (simp add: close_sweep_def steady_def)
  then show ?thesis by (simp add: close_start_def consumer_ok_def)
qed

text \<open>The embedder's operations.\<close>

lemma control_send_known:
  "\<forall>c'. c' \<in> set (ct_queue ct) \<longrightarrow> command_known n c' \<Longrightarrow> command_known n c \<Longrightarrow>
     \<forall>c'. c' \<in> set (ct_queue (snd (control_send c ct))) \<longrightarrow> command_known n c'"
  by (auto simp: control_send_def)

lemma try_settle_identities:
  assumes "try_settle epoch now st i (ts, ct) = (r, ts', ct')"
  shows "map tk_identity ts' = map tk_identity ts" and "\<exists>lat. ct' = ct \<or> ct' = snd (control_send (SettleCommand i st lat) ct)"
proof -
  let ?ts1 = "store_token (\<lambda>t. t\<lparr>tk_state := delivery_state_code (settlement_terminal st)\<rparr>) i ts"
  have st: "map tk_identity (store_token (\<lambda>t. t\<lparr>tk_state := c\<rparr>) i xs) = map tk_identity xs" for c xs
    by (simp add: identities_store)
  from assms st show "map tk_identity ts' = map tk_identity ts"
    by (auto simp: try_settle_def Let_def split: if_splits prod.splits sum.splits settlement_error_kind.splits)
  from assms show "\<exists>lat. ct' = ct \<or> ct' = snd (control_send (SettleCommand i st lat) ct)"
    by (auto simp: try_settle_def Let_def split: if_splits prod.splits sum.splits settlement_error_kind.splits) (metis snd_conv)+
qed

lemma embedder_settles_ok:
  assumes ok: "consumer_ok y" and i: "known_token i y"
  shows "consumer_ok (embedder_settles epoch now st i y)"
proof -
  obtain r ts ct where t: "try_settle epoch now st i (the_tokens (cy_actor y), cy_control y) = (r, ts, ct)"
    by (metis prod.exhaust)
  note ids = try_settle_identities [OF t]
  have "frame (cy_actor y) (tokens_upd (\<lambda>_. ts) (cy_actor y))"
    using ids(1) by (simp add: frame_def identities_def ledgers_sorted_def bounded_errors_def)
  then have "actor_ok {} (tokens_upd (\<lambda>_. ts) (cy_actor y))" using ok actor_ok_frame by (auto simp: consumer_ok_def)
  moreover have len: "length ts = length (the_tokens (cy_actor y))" using ids(1) by (metis length_map)
  moreover have "\<forall>c'. c' \<in> set (ct_queue ct) \<longrightarrow> command_known (length ts) c'"
  proof -
    have "\<forall>c'. c' \<in> set (ct_queue (snd (control_send (SettleCommand i st lat) (cy_control y)))) \<longrightarrow> command_known (length ts) c'" for lat
      using ok i len by (intro control_send_known) (auto simp: consumer_ok_def known_token_def)
    then show ?thesis using ids(2) ok len by (auto simp: consumer_ok_def)
  qed
  ultimately show ?thesis by (simp add: embedder_settles_def t consumer_ok_def)
qed

lemma flume_recv_ok:
  assumes "flume_recv y = (x, y1)" and "consumer_ok y"
  shows "consumer_ok y1"
proof (cases "sh_flume (cs_shared (cy_actor y))")
  case (Cons a q)
  have "frame (cy_actor y) (flume_upd (\<lambda>_. q) (cy_actor y))"
    using Cons by (auto simp: frame_def identities_def ledgers_sorted_def bounded_errors_def)
  with assms Cons show ?thesis
    using consumer_ok_actor [OF assms(2) steady_frame] by (auto simp: flume_recv_def consumer_ok_def)
qed (use assms in \<open>simp add: flume_recv_def\<close>)

lemma stamp_popped_ok: "consumer_ok y \<Longrightarrow> consumer_ok (stamp_popped epoch now i y)"
proof -
  assume ok: "consumer_ok y"
  have "frame (cy_actor y) (tokens_upd (store_token (mark_popped epoch now) i) (cy_actor y))"
    by (rule frame_tokens) (simp add: identities_store mark_popped_def)
  from consumer_ok_actor [OF ok steady_frame [OF _ this]] ok show ?thesis
    by (simp add: stamp_popped_def consumer_ok_def)
qed

lemma handle_fields_ok [simp]:
  "consumer_ok (cy_handle_update f y) = consumer_ok y"
  "consumer_ok (y\<lparr>cy_phase := ph\<rparr>) = consumer_ok y"
  "consumer_ok (y\<lparr>cy_incoming := q\<rparr>) = consumer_ok y"
  by (simp_all add: consumer_ok_def)

lemma try_next_ok: "consumer_ok y \<Longrightarrow> consumer_ok (snd (try_next epoch now y))"
  using flume_recv_ok
  by (auto simp: try_next_def notify_one_def take_pending_error_def stamp_popped_ok
      split: prod.splits option.splits sum.splits)

lemma batch_loop_ok: "consumer_ok y \<Longrightarrow> consumer_ok (snd (batch_loop epoch now n batch y))"
proof (induction n arbitrary: batch y)
  case (Suc n)
  obtain x y1 where r: "flume_recv y = (x, y1)" by fastforce
  have "consumer_ok y1" by (rule flume_recv_ok [OF r Suc.prems])
  with r Suc.IH show ?case
    by (auto simp: notify_one_def stash_error_def stamp_popped_ok split: option.splits sum.splits)
qed simp

lemma try_next_batch_ok: "consumer_ok y \<Longrightarrow> consumer_ok (snd (try_next_batch epoch now n y))"
  using batch_loop_ok [of y epoch now "max 1 (min n 256)" "[]"]
  by (auto simp: try_next_batch_def notify_one_def take_pending_error_def split: prod.splits sum.splits list.splits option.splits)

lemma drain_errors_ok: "consumer_ok y \<Longrightarrow> consumer_ok (snd (drain_errors y))"
proof -
  assume ok: "consumer_ok y"
  have "frame (cy_actor y) (cs_shared_update (sh_errors_update (\<lambda>_. [])) (cy_actor y))"
    by (simp add: frame_def identities_def ledgers_sorted_def bounded_errors_def)
  from consumer_ok_actor [OF ok steady_frame [OF _ this]] ok show ?thesis by (simp add: drain_errors_def consumer_ok_def)
qed

interpretation consumer_invariant: invariant_machine "consumer_step env ch" consumer_ok for env :: "'e consumer_env" and ch
proof
  fix y :: "'e consumer_system" and ev
  assume ok: "consumer_ok y"
  have select: "consumer_ok (at_select f y)" if "\<And>y. consumer_ok y \<Longrightarrow> consumer_ok (f y)" for f
    using ok that by (simp add: at_select_def)
  show "consumer_ok (consumer_step env ch ev y)"
  proof (cases ev)
    case (ArmNotified now)
    have "consumer_ok (cy_actor_update (dispatch now) (cy_handle_update (hd_notify_update (\<lambda>_. False)) z))" if "consumer_ok z" for z :: "'e consumer_system"
      using consumer_ok_actor [of z "dispatch now (cy_actor z)"] that dispatch_steady [of "cy_actor z" now]
      by (simp add: consumer_ok_def)
    with ArmNotified ok select show ?thesis by simp
  next
    case ArmPrefetch
    have "consumer_ok (cy_actor_update arm_prefetch z)" if "consumer_ok z" for z :: "'e consumer_system"
      using consumer_ok_actor [of z "arm_prefetch (cy_actor z)"] that arm_prefetch_steady [of "cy_actor z"]
      by (simp add: consumer_ok_def)
    with ArmPrefetch select show ?thesis by simp
  next
    case (EmbedderSettlesThrough epoch now i)
    then show ?thesis
      using ok control_send_known [of "cy_control y" "length (the_tokens (cy_actor y))"
          "SettleThroughCommand i (controller_latency epoch now (the_tokens (cy_actor y) ! i))"]
      by (simp add: consumer_ok_def known_token_def try_settle_through_def)
  next
    case (EmbedderAsksStats n)
    then show ?thesis
      using ok control_send_known [of "cy_control y" "length (the_tokens (cy_actor y))" "GetPrefetchStats n"]
      by (simp add: consumer_ok_def)
  next
    case CloseDone
    then show ?thesis using ok by (simp add: close_finish_def consumer_ok_def)
  qed (use ok select in \<open>simp_all add: loop_top_ok arm_control_ok arm_incoming_ok arm_settled_ok arm_through_ok close_start_ok
      embedder_settles_ok try_next_ok try_next_batch_ok drain_errors_ok handle_close_def close_one_settled_ok close_one_through_ok\<close>)
qed

section \<open>The start\<close>

lemma map_of_fold_update:
  "map_of (fold (\<lambda>s. AList.update (sub_id s) (f s)) subs m) k =
     (if k \<in> sub_id ` set subs then Some (f (last (filter (\<lambda>s. sub_id s = k) subs))) else map_of m k)"
proof (induction subs arbitrary: m)
  case (Cons a subs)
  have "(filter (\<lambda>s. sub_id s = k) subs = []) = (k \<notin> sub_id ` set subs)" by (auto simp: filter_empty_conv)
  with Cons show ?case by (auto simp: update_conv)
qed simp

lemma fold_register:
  assumes "\<And>s. s \<in> set subs \<Longrightarrow> 0 < weight (sub_policy s)" and "sched_wf sch"
  shows "sched_wf (fold (\<lambda>s. register (sub_id s) (sub_policy s)) subs sch)"
    and "all_ids (fold (\<lambda>s. register (sub_id s) (sub_policy s)) subs sch) = sub_id ` set subs \<union> all_ids sch"
  using assms by (induction subs arbitrary: sch) (auto simp: wfs.reg_ok wfs.reg_keys)

lemma sched_wf_default: "sched_wf scheduler_default" "all_ids scheduler_default = {}"
  by (simp_all add: sched_wf_def scheduler_default_def all_ids_def)

lemma ledgers_start:
  "map_of (fold (\<lambda>s. AList.update (subscription_key s) channel_ledger_default) subs m) k = Some L \<Longrightarrow>
     L = channel_ledger_default \<or> map_of m k = Some L"
  by (induction subs arbitrary: m) (fastforce simp: update_conv split: if_splits)+

lemma consumer_start_ok:
  assumes "\<And>s. s \<in> set subs \<Longrightarrow> 0 < weight (sub_policy s)"
  shows "consumer_ok (consumer_start subs qos m e)"
proof -
  note reg = fold_register [OF assms sched_wf_default(1)]
  let ?s = "actor_new subs (max (total_prefetch subs) COMMAND_CAPACITY) (shared_new subs qos m)"
  have "intake_wf (cs_intake ?s)"
    using reg by (auto simp: actor_new_def Let_def intake_wf_def buffers_ready_def within_budget_def map_of_fold_update sched_wf_default
        split: if_splits)
  moreover have "ledgers_sorted ?s"
    unfolding ledgers_sorted_def actor_new_def Let_def using ledgers_start [of subs "[]"]
    by (force simp: channel_ledger_default_def)
  moreover have "flight_ok {} ?s"
    by (simp add: actor_new_def Let_def flight_ok_def serialised_def owned_def)
  moreover have "bounded_errors (cs_shared ?s)"
    by (simp add: actor_new_def Let_def shared_new_def bounded_errors_def ERROR_CHANNEL_CAPACITY_def)
  ultimately show ?thesis
    by (simp add: consumer_start_def consumer_ok_def actor_ok_def) (simp add: actor_new_def Let_def)
qed

end
