(* ===== verification/Consumer_Conservation.thy ===== *)
theory Consumer_Conservation
  imports Consumer_Safety
begin

text \<open>
  Work conservation along the runs of a consumer set. As long as the broker sends no poison
  delivery, the ready set of the scheduler names exactly the subscriptions with something
  buffered, whatever the embedder, the settlements and the byte budgets do.
\<close>

section \<open>Tidy intake\<close>

definition tidy :: "consumer_state \<Rightarrow> bool" where
  "tidy s \<longleftrightarrow> conserving s \<and> (\<forall>k d. (k, d) \<in> set (in_pending (cs_intake s)) \<longrightarrow> \<not> poisonous s k d)"

lemma tidy_cong:
  assumes "tidy s" and "cs_subscriptions s' = cs_subscriptions s" and "intake_wf (cs_intake s')"
    and "the_buffers s' = the_buffers s" and "in_scheduler (cs_intake s') = in_scheduler (cs_intake s)"
    and "set (in_pending (cs_intake s')) \<subseteq> set (in_pending (cs_intake s))"
  shows "tidy s'"
proof -
  have "poisonous s' = poisonous s" using assms(2) by (simp add: fun_eq_iff poisonous_def)
  with assms show ?thesis by (auto simp: tidy_def conserving_def ready_exact_def subs_known_def poison_free_def)
qed

lemma tidy_wf: "tidy s \<Longrightarrow> intake_wf (cs_intake s)"
  by (simp add: tidy_def conserving_def)

text \<open>Steps that touch neither the intake nor the subscriptions.\<close>

definition untouched :: "consumer_state \<Rightarrow> consumer_state \<Rightarrow> bool" where
  "untouched s s' \<longleftrightarrow> cs_intake s' = cs_intake s \<and> cs_subscriptions s' = cs_subscriptions s"

lemma tidy_untouched: "tidy s \<Longrightarrow> untouched s s' \<Longrightarrow> tidy s'"
  using tidy_wf [of s] by (auto simp: untouched_def intro: tidy_cong)

named_theorems untouched_eqs \<open>the intake and the subscriptions after operations that leave them alone\<close>

lemma untouched_basic [untouched_eqs]:
  "cs_intake (record_settlement_error e s) = cs_intake s" "cs_subscriptions (record_settlement_error e s) = cs_subscriptions s"
  "cs_intake (set_token_state st i s) = cs_intake s" "cs_subscriptions (set_token_state st i s) = cs_subscriptions s"
  "cs_intake (set_settling b i s) = cs_intake s" "cs_subscriptions (set_settling b i s) = cs_subscriptions s"
  "cs_intake (fail_token i k m s) = cs_intake s" "cs_subscriptions (fail_token i k m s) = cs_subscriptions s"
  "cs_intake (observe_latency sub d s) = cs_intake s" "cs_subscriptions (observe_latency sub d s) = cs_subscriptions s"
  "cs_subscriptions (claim_ledger sub tag s) = cs_subscriptions s"
  "cs_intake (finish_token st i s) = cs_intake s" "cs_subscriptions (finish_token st i s) = cs_subscriptions s"
  "cs_intake (through_error target affected result s) = cs_intake s"
  "cs_subscriptions (through_error target affected result s) = cs_subscriptions s"
  by (simp_all add: record_settlement_error_def set_token_state_def set_settling_def fail_token_def
      observe_latency_def claim_ledger_def finish_token_def through_error_def split: option.splits sum.splits)

lemma untouched_fold:
  assumes "\<And>x s. cs_intake (f x s) = cs_intake s" "\<And>x s. cs_subscriptions (f x s) = cs_subscriptions s"
  shows "cs_intake (fold f xs s) = cs_intake s" "cs_subscriptions (fold f xs s) = cs_subscriptions s"
  using assms by (induction xs arbitrary: s) auto

lemma untouched_launch [untouched_eqs]:
  "cs_intake (launch_settlement k p s) = cs_intake s" "cs_subscriptions (launch_settlement k p s) = cs_subscriptions s"
  "cs_intake (launch_settle_through k q s) = cs_intake s" "cs_subscriptions (launch_settle_through k q s) = cs_subscriptions s"
  "cs_intake (enqueue_settlement k p s) = cs_intake s" "cs_subscriptions (enqueue_settlement k p s) = cs_subscriptions s"
  by (auto simp: launch_settlement_def launch_settle_through_def stage_settlement_launch_def enqueue_settlement_def Let_def
      untouched_basic split: option.splits)

lemma untouched_queue [untouched_eqs]:
  "cs_intake (launch_or_queue k p s) = cs_intake s" "cs_subscriptions (launch_or_queue k p s) = cs_subscriptions s"
  "cs_intake (drain_settlement_queue k s) = cs_intake s" "cs_subscriptions (drain_settlement_queue k s) = cs_subscriptions s"
  by (simp_all add: launch_or_queue_def drain_settlement_queue_def Let_def untouched_launch split: option.splits list.splits)

lemma untouched_poison [untouched_eqs]:
  "cs_intake (conclude_poison now i err s) = cs_intake s" "cs_subscriptions (conclude_poison now i err s) = cs_subscriptions s"
  by (simp_all add: conclude_poison_def Let_def untouched_basic spawn_poison_settlement_def record_poison_metrics_def
      split: option.splits prod.splits if_splits)

lemma untouched_claim:
  assumes "claim_settlement i s = (r, s1)" shows "cs_intake s1 = cs_intake s" "cs_subscriptions s1 = cs_subscriptions s"
  using assms by (auto simp: claim_settlement_def untouched_basic split: option.splits if_splits)

lemma untouched_fence:
  assumes "fence_settle_through i s = (r, s1)" shows "cs_intake s1 = cs_intake s" "cs_subscriptions s1 = cs_subscriptions s"
proof -
  obtain c s2 where c: "claim_settlement i s = (c, s2)" by fastforce
  note u = untouched_claim [OF c]
  show "cs_intake s1 = cs_intake s" "cs_subscriptions s1 = cs_subscriptions s"
    using assms u by (auto simp: fence_settle_through_def c untouched_basic split: option.splits sum.splits if_splits)
qed

lemma untouched_handle_settle: "untouched s (handle_settle i st latency s)"
proof -
  obtain c s2 where c: "claim_settlement i s = (c, s2)" by fastforce
  note u = untouched_claim [OF c]
  show ?thesis
    by (simp add: untouched_def handle_settle_def c Let_def u untouched_eqs split: option.splits settlement.splits)
qed

lemma untouched_handle_through: "untouched s (handle_settle_through i latency s)"
proof -
  obtain c s2 where c: "fence_settle_through i s = (c, s2)" by fastforce
  note u = untouched_fence [OF c]
  show ?thesis
    by (simp add: untouched_def handle_settle_through_def c Let_def u untouched_eqs untouched_fold
        split: option.splits sum.splits prod.splits)
qed

lemma untouched_flush: "untouched s (flush_acked s)"
proof -
  have "cs_intake (flush_channel k s) = cs_intake s" "cs_subscriptions (flush_channel k s) = cs_subscriptions s" for k s
    by (simp_all add: flush_channel_def Let_def untouched_eqs untouched_fold split: option.splits)
  then show ?thesis unfolding flush_acked_def untouched_def by (simp add: untouched_fold)
qed

section \<open>Dispatching keeps the intake tidy\<close>

lemma dispatch_step_stop_conserving:
  assumes inv: "conserving s" and step: "dispatch_step now s = (False, s')"
  shows "conserving s'"
proof -
  have wf': "intake_wf (cs_intake s')" using inv dispatch_step_wf [OF _ step] by (simp add: conserving_def)
  have subs: "cs_subscriptions s' = cs_subscriptions s" "poisonous s' = poisonous s"
    using intake_step_dispatch_step [OF step] poisonous_step by (auto simp: intake_step_def)
  show ?thesis
  proof (cases "in_source_errors (cs_intake s)")
    case (Cons e es)
    with step have "s' = s" by (auto simp: dispatch_step_def split: option.splits)
    with inv show ?thesis by simp
  next
    case Nil
    obtain r sch where p: "pick (in_scheduler (cs_intake s)) = (r, sch)" by fastforce
    have wf: "sched_wf (in_scheduler (cs_intake s))" using inv by (simp add: conserving_def intake_wf_def)
    note sch = wfs.next_ok [OF wf p] wfs.next_ready [OF wf p]
    show ?thesis
    proof (cases r)
      case None
      then have "s' = scheduler_upd (\<lambda>_. sch) s" using step Nil p by (simp add: dispatch_step_def)
      with inv wf' subs sch show ?thesis by (simp add: conserving_def ready_exact_def subs_known_def poison_free_def)
    next
      case (Some sub)
      then obtain d ds where b: "map_of (the_buffers s) sub = Some (d # ds)"
        using wfs.next_Some [OF wf] p inv by (fastforce simp: conserving_def ready_exact_def)
      let ?s = "buffers_upd (hm_modify sub (\<lambda>_. ds)) (scheduler_upd (\<lambda>_. sch) s)"
      have "dispatch_delivery now sub d ?s = (False, s')" using step Nil Some p b by (simp add: dispatch_step_def)
      then have "cs_intake s' = cs_intake (requeue_front sub d ?s)" by (auto elim: dispatch_delivery_intake)
      then have "map_of (the_buffers s') k = map_of (the_buffers s) k"
        "ready_ids (in_scheduler (cs_intake s')) = ready_ids (in_scheduler (cs_intake s)) \<union> ({sub} \<inter> all_ids sch)" for k
        using b sch by (auto simp: requeue_front_def wfs.up_ready)
      with inv wf' subs b show ?thesis
        by (auto simp: conserving_def ready_exact_def subs_known_def poison_free_def)
    qed
  qed
qed

lemma dispatch_loop_conserving: "conserving s \<Longrightarrow> conserving (dispatch_loop now s)"
proof (induction now s rule: dispatch_loop.induct)
  case (1 now s)
  obtain go t where step: "dispatch_step now s = (go, t)" by fastforce
  have "conserving t" using dispatch_step_go [OF 1(2), of now t] dispatch_step_stop_conserving [OF 1(2), of now t] step by (cases go) simp_all
  with 1(1) [OF step [symmetric]] step show ?case by (subst dispatch_loop.simps) (cases go; simp)
qed

lemma drain_list_keeps: "set (in_pending (cs_intake (drain_list q s))) \<subseteq> set q"
  by (induction q s rule: drain_list.induct) auto

lemma tidy_drain: "tidy s \<Longrightarrow> tidy (drain_pending s)"
proof -
  assume t: "tidy s"
  have "conserving (drain_pending s)"
    unfolding drain_pending_def using t by (intro drain_list_conserving) (auto simp: tidy_def)
  moreover have "poisonous (drain_pending s) = poisonous s" by (rule poisonous_step [OF intake_step_drain])
  ultimately show ?thesis
    using t drain_list_keeps [of "in_pending (cs_intake s)" s] by (auto simp: tidy_def drain_pending_def)
qed

lemma tidy_dispatch: "tidy s \<Longrightarrow> tidy (dispatch now s)"
proof -
  assume "tidy s"
  then have t: "tidy (drain_pending s)" by (rule tidy_drain)
  then have "conserving (dispatch now s)" unfolding dispatch_def by (intro dispatch_loop_conserving) (simp add: tidy_def)
  moreover have "poisonous (dispatch now s) = poisonous (drain_pending s)"
    unfolding dispatch_def by (rule poisonous_step [OF intake_step_dispatch_loop])
  ultimately show ?thesis using t by (simp add: tidy_def dispatch_def dispatch_loop_pending)
qed

lemma tidy_dispatch_clears:
  "tidy s \<Longrightarrow> s' = dispatch now s \<Longrightarrow>
     \<not> can_send s' \<or> in_source_errors (cs_intake s') = [] \<and> (\<forall>k b. map_of (the_buffers s') k = Some b \<longrightarrow> b = [])"
  by (rule dispatch_conserves) (auto simp: tidy_def)

lemma tidy_incoming:
  assumes t: "tidy s" and ok: "\<And>d. r = Inr d \<Longrightarrow> \<not> poisonous s sub d"
  shows "tidy (handle_incoming now sub r s)"
proof (cases r)
  case (Inl e)
  have "tidy (record_source_error x s)" for x
    using t record_source_error_wf [OF tidy_wf [OF t]] by (intro tidy_cong [OF t]) (simp_all add: record_source_error_def)
  then show ?thesis using Inl by (simp add: handle_incoming_def tidy_dispatch)
next
  case (Inr d)
  let ?s = "claim_ledger sub (d_delivery_tag d) s"
  have 1: "tidy ?s" by (rule tidy_untouched [OF t]) (simp add: untouched_def untouched_eqs)
  have np: "\<not> poisonous ?s sub d" using ok [OF Inr] by (simp add: poisonous_def claim_ledger_def split: option.splits)
  have over: "tidy (settle_oversized sub d ?s)"
    using settle_oversized_wf [OF tidy_wf [OF 1]] intake_step_oversized [of ?s sub d]
    by (intro tidy_cong [OF 1]) (simp_all add: settle_oversized_def Let_def settle_poison_intake intake_step_def)
  have park: "tidy (pending_upd (\<lambda>q. q @ [(sub, d)]) ?s)"
    using 1 np by (auto simp: tidy_def conserving_def ready_exact_def subs_known_def poison_free_def poisonous_def)
  have buffer: "tidy (buffer_delivery sub d ?s)" if "\<not> over_budget sub d ?s"
    using buffer_delivery_conserving [OF _ that np] 1 poisonous_step [OF intake_step_buffer [of ?s sub d]]
    by (auto simp: tidy_def buffer_delivery_def Let_def)
  have "tidy (metrics_upd f (pending_upd (\<lambda>q. q @ [(sub, d)]) ?s))" for f
    by (rule tidy_untouched [OF park]) (simp add: untouched_def)
  with Inr over tidy_dispatch [OF buffer] tidy_dispatch [OF tidy_drain [OF park]] show ?thesis
    by (simp add: handle_incoming_def Let_def)
qed

section \<open>Every event keeps the intake tidy\<close>

lemma tidy_release: "tidy s \<Longrightarrow> tidy (release_bytes i s)"
  using intake_wf_sub [OF tidy_wf, of s] by (auto simp: release_bytes_def intro: tidy_cong)

lemma tidy_refill: "tidy s \<Longrightarrow> tidy (try_drain_pending now s)"
  unfolding try_drain_pending_def by (intro tidy_dispatch tidy_drain)

lemma tidy_fold: "(\<And>x s. tidy s \<Longrightarrow> tidy (f x s)) \<Longrightarrow> tidy s \<Longrightarrow> tidy (fold f xs s)"
  by (induction xs arbitrary: s) auto

lemma tidy_conclude: "tidy s \<Longrightarrow> tidy (conclude_settlement now k i result s)"
proof -
  assume t: "tidy s"
  let ?e = "settled_for now (the_tokens s ! i)"
  have "tidy (case result of Inr Acked \<Rightarrow> metrics_upd (record_ack ?e) s | Inr Rejected \<Rightarrow> metrics_upd (record_reject ?e) s | _ \<Rightarrow> s)"
    by (rule tidy_untouched [OF t]) (simp add: untouched_def split: sum.splits delivery_state.splits)
  from tidy_untouched [OF tidy_refill [OF tidy_release [OF this]]] show ?thesis
    by (simp add: conclude_settlement_def Let_def untouched_def)
qed

lemma tidy_conclude_through: "tidy s \<Longrightarrow> tidy (conclude_through now k target affected result s)"
proof -
  assume t: "tidy s"
  have "tidy (fold release_bytes affected s)" by (rule tidy_fold [OF tidy_release t])
  then have "tidy (if b then metrics_upd f (fold release_bytes affected s) else fold release_bytes affected s)" for b f
    by (rule tidy_untouched) (simp add: untouched_def)
  from tidy_untouched [OF tidy_refill [OF this]] show ?thesis
    by (simp add: conclude_through_def Let_def untouched_def)
qed

lemma tidy_complete: "tidy s \<Longrightarrow> tidy (complete_settlement now k i result s)"
proof -
  assume t: "tidy s"
  let ?s0 = "in_flight_upd (\<lambda>f. f - {k}) s"
  have 0: "tidy ?s0" by (rule tidy_untouched [OF t]) (simp add: untouched_def)
  then have "tidy (case result of Inr _ \<Rightarrow> conclude_settlement now k i result ?s0
                | Inl err \<Rightarrow> if terminal_kind (ce_kind err) then conclude_settlement now k i result ?s0 else ?s0)"
    by (simp add: tidy_conclude split: sum.splits)
  then show ?thesis
    by (rule tidy_untouched) (simp add: untouched_def complete_settlement_def Let_def untouched_eqs split: sum.splits)
qed

lemma tidy_complete_through: "tidy s \<Longrightarrow> tidy (complete_settle_through now k target affected result s)"
proof -
  assume t: "tidy s"
  let ?s0 = "in_flight_upd (\<lambda>f. f - {k}) s"
  have "tidy ?s0" by (rule tidy_untouched [OF t]) (simp add: untouched_def)
  then have "tidy (case result of Inr _ \<Rightarrow> conclude_through now k target affected result ?s0
                | Inl err \<Rightarrow> if lost_kind (ce_kind err) then conclude_through now k target affected result ?s0 else ?s0)"
    by (simp add: tidy_conclude_through split: sum.splits)
  then show ?thesis
    by (rule tidy_untouched) (simp add: untouched_def complete_settle_through_def Let_def untouched_eqs untouched_fold)
qed

lemma untouched_close:
  "untouched s (close_settlement k i result s)" "untouched s (close_settle_through k target affected result s)"
  by (simp_all add: untouched_def close_settlement_def close_settle_through_def Let_def untouched_eqs untouched_fold split: sum.splits)

lemma untouched_controls:
  "untouched (cy_actor y) (cy_actor (fold handle_control cs y)) \<and> cy_incoming (fold handle_control cs y) = cy_incoming y"
proof (induction cs arbitrary: y)
  case (Cons c cs)
  have "untouched (cy_actor y) (cy_actor (handle_control c y)) \<and> cy_incoming (handle_control c y) = cy_incoming y"
    by (cases c) (simp_all add: untouched_handle_settle untouched_handle_through, simp add: untouched_def)
  with Cons [of "handle_control c y"] show ?case by (simp add: untouched_def)
qed (simp add: untouched_def)

text \<open>A running set is calm when its intake is tidy and nothing that waits in the incoming channel is poison.
  The subscriptions never change.\<close>

definition calm :: "(string \<times> runtime_subscription) list \<Rightarrow> 'e consumer_system \<Rightarrow> bool" where
  "calm rts y \<longleftrightarrow> cs_subscriptions (cy_actor y) = rts \<and> tidy (cy_actor y) \<and>
     (\<forall>k d. (k, Inr d) \<in> set (cy_incoming y) \<longrightarrow> \<not> poisonous (cy_actor y) k d)"

lemma poisonous_subs: "cs_subscriptions s' = cs_subscriptions s \<Longrightarrow> poisonous s' = poisonous s"
  by (simp add: fun_eq_iff poisonous_def)

lemma calm_replace:
  assumes "calm rts y" and "tidy (cy_actor y')" and "cs_subscriptions (cy_actor y') = cs_subscriptions (cy_actor y)"
    and "cy_incoming y' = cy_incoming y"
  shows "calm rts y'"
  using assms(1,2,4) unfolding calm_def poisonous_subs [OF assms(3)] assms(3) by simp

lemma incoming_subs: "cs_subscriptions (handle_incoming now sub r s) = cs_subscriptions s"
  using intake_step_handle_incoming [of s now sub r] by (simp add: intake_step_def)

lemma drain_incoming_tidy:
  "tidy s \<Longrightarrow> (\<And>k d. (k, Inr d) \<in> set q \<Longrightarrow> \<not> poisonous s k d) \<Longrightarrow> drain_incoming now q s = (q', s') \<Longrightarrow>
     tidy s' \<and> cs_subscriptions s' = cs_subscriptions s \<and> set q' \<subseteq> set q"
proof (induction now q s rule: drain_incoming.induct)
  case (2 now sub r q s)
  show ?case
  proof (cases "length (in_pending (cs_intake s)) < in_pending_capacity (cs_intake s)")
    case True
    have "tidy (handle_incoming now sub r s)" using 2(2,3) by (intro tidy_incoming) auto
    moreover have "poisonous (handle_incoming now sub r s) = poisonous s" by (rule poisonous_subs [OF incoming_subs])
    ultimately show ?thesis using 2 True incoming_subs by auto
  qed (use 2 in auto)
qed auto

lemma calm_loop_top:
  assumes "calm rts y" shows "calm rts (loop_top now y)"
proof -
  let ?y0 = "cy_control_update (ct_queue_update (\<lambda>_. [])) y"
  let ?y1 = "drain_control y"
  have u: "untouched (cy_actor y) (cy_actor ?y1)" "cy_incoming ?y1 = cy_incoming y"
    using untouched_controls [of ?y0 "ct_queue (cy_control y)"] by (simp_all add: drain_control_def)
  have t: "tidy (cy_actor ?y1)" using assms tidy_untouched u(1) by (auto simp: calm_def)
  have sub: "cs_subscriptions (cy_actor ?y1) = rts" using assms u(1) by (simp add: calm_def untouched_def)
  have po: "poisonous (cy_actor ?y1) = poisonous (cy_actor y)" using u(1) by (intro poisonous_subs) (simp add: untouched_def)
  obtain q s where d: "drain_incoming now (cy_incoming ?y1) (cy_actor ?y1) = (q, s)" by fastforce
  have "\<not> poisonous (cy_actor ?y1) k d" if "(k, Inr d) \<in> set (cy_incoming ?y1)" for k d
    using that assms unfolding po u(2) calm_def by blast
  from drain_incoming_tidy [OF t this d] have s: "tidy s" "cs_subscriptions s = rts" "set q \<subseteq> set (cy_incoming y)"
    unfolding sub u(2) by blast+
  have f: "untouched s (flush_if_drained s)" by (simp add: flush_if_drained_def untouched_flush) (simp add: untouched_def)
  have "tidy (flush_if_drained s)" by (rule tidy_untouched [OF s(1) f])
  moreover have "cs_subscriptions (flush_if_drained s) = rts" using f s(2) by (simp add: untouched_def)
  moreover have "poisonous (flush_if_drained s) = poisonous (cy_actor y)"
    using calculation(2) assms by (intro poisonous_subs) (simp add: calm_def)
  moreover have "\<not> poisonous (cy_actor y) k d" if "(k, Inr d) \<in> set q" for k d
    using that s(3) assms unfolding calm_def by blast
  ultimately show ?thesis by (simp add: loop_top_def Let_def d calm_def)
qed

lemma calm_untouched:
  assumes "calm rts y" and "untouched (cy_actor y) (cy_actor y')" and "cy_incoming y' = cy_incoming y"
  shows "calm rts y'"
proof (rule calm_replace [OF assms(1)])
  show "tidy (cy_actor y')" using assms(1) by - (rule tidy_untouched [OF _ assms(2)], simp add: calm_def)
qed (use assms in \<open>simp_all add: untouched_def\<close>)

lemma flume_recv_untouched:
  assumes "flume_recv y = (x, y1)" shows "untouched (cy_actor y) (cy_actor y1)" "cy_incoming y1 = cy_incoming y"
  using assms by (auto simp: flume_recv_def untouched_def split: list.splits)

lemma calm_recv: "calm rts y \<Longrightarrow> flume_recv y = (x, y1) \<Longrightarrow> calm rts y1"
  by (rule calm_untouched [OF _ flume_recv_untouched])

lemma calm_handle [simp]:
  "calm rts (notify_one y) = calm rts y" "calm rts (stash_error e y) = calm rts y"
  "calm rts (stamp_popped epoch now i y) = calm rts y" "calm rts (snd (take_pending_error y)) = calm rts y"
  "calm rts (cy_handle_update f y) = calm rts y" "calm rts (y\<lparr>cy_phase := ph\<rparr>) = calm rts y" "calm rts (y\<lparr>cy_control := ct\<rparr>) = calm rts y"
proof -
  have eq: "calm rts y1 = calm rts y2" if "untouched (cy_actor y1) (cy_actor y2)" "cy_incoming y1 = cy_incoming y2" for y1 y2 :: "'b consumer_system"
    using that by (intro iffI) (erule calm_untouched, simp_all add: untouched_def)+
  show "calm rts (notify_one y) = calm rts y" "calm rts (stash_error e y) = calm rts y"
    "calm rts (stamp_popped epoch now i y) = calm rts y" "calm rts (snd (take_pending_error y)) = calm rts y"
    "calm rts (cy_handle_update f y) = calm rts y" "calm rts (y\<lparr>cy_phase := ph\<rparr>) = calm rts y" "calm rts (y\<lparr>cy_control := ct\<rparr>) = calm rts y"
    by (rule eq; simp add: untouched_def notify_one_def stash_error_def stamp_popped_def take_pending_error_def)+
qed

lemma calm_try_next: "calm rts y \<Longrightarrow> calm rts (snd (try_next epoch now y))"
proof -
  assume c: "calm rts y"
  obtain x y1 where r: "flume_recv y = (x, y1)" by fastforce
  have "calm rts y1" by (rule calm_recv [OF c r])
  with c show ?thesis by (simp add: try_next_def r take_pending_error_def split: option.splits sum.splits)
qed

lemma calm_batch: "calm rts y \<Longrightarrow> calm rts (snd (batch_loop epoch now n batch y))"
proof (induction n arbitrary: batch y)
  case (Suc n)
  obtain x y1 where r: "flume_recv y = (x, y1)" by fastforce
  have "calm rts y1" by (rule calm_recv [OF Suc.prems r])
  with r Suc.IH show ?case by (auto split: option.splits sum.splits)
qed simp

lemma calm_try_next_batch: "calm rts y \<Longrightarrow> calm rts (snd (try_next_batch epoch now n y))"
proof -
  assume c: "calm rts y"
  obtain x y1 where r: "batch_loop epoch now (max 1 (min n 256)) [] y = (x, y1)" by fastforce
  have "calm rts y1" using calm_batch [OF c, of epoch now "max 1 (min n 256)" "[]"] r by simp
  with c show ?thesis by (simp add: try_next_batch_def r [simplified] take_pending_error_def split: option.splits sum.splits list.splits)
qed

lemma dispatch_subs: "cs_subscriptions (dispatch now s) = cs_subscriptions s"
  using intake_step_dispatch [of s now] by (simp add: intake_step_def)

lemma complete_subs:
  "cs_subscriptions (complete_settlement now k i result s) = cs_subscriptions s"
  "cs_subscriptions (complete_settle_through now k target affected result s) = cs_subscriptions s"
proof -
  have c: "cs_subscriptions (conclude_settlement now k i result s) = cs_subscriptions s" for result s
    using frame_conclude_settlement [of s now k i result] by (simp add: frame_def)
  have t: "cs_subscriptions (conclude_through now k target affected result s) = cs_subscriptions s" for result s
    using frame_conclude_through [of s now k target affected result] by (simp add: frame_def)
  show "cs_subscriptions (complete_settlement now k i result s) = cs_subscriptions s"
    "cs_subscriptions (complete_settle_through now k target affected result s) = cs_subscriptions s"
    by (simp_all add: complete_settlement_def complete_settle_through_def Let_def untouched_eqs untouched_fold c t split: sum.splits)
qed

text \<open>An event brings no poison when it is not the arrival of a delivery the subscription would settle as poison.\<close>

fun wholesome :: "(string \<Rightarrow> delivery \<Rightarrow> bool) \<Rightarrow> consumer_event \<Rightarrow> bool" where
  "wholesome poison (PumpSends sub (Inr d)) = (\<not> poison sub d)"
| "wholesome poison _ = True"

lemma calm_step:
  assumes "calm rts y" and "wholesome (poisonous (cy_actor y)) ev"
  shows "calm rts (consumer_step env ch ev y)"
proof -
  note t = assms(1)
  have select: "calm rts (at_select f y)" if "\<And>z. calm rts z \<Longrightarrow> calm rts (f z)" for f
    using t that by (simp add: at_select_def)
  show ?thesis
  proof (cases ev)
    case (LoopTop now)
    with t show ?thesis by (simp add: calm_loop_top)
  next
    case ArmControl
    have "calm rts (arm_control z)" if "calm rts z" for z :: "'a consumer_system"
    proof (cases "ct_queue (cy_control z)")
      case (Cons c q)
      show ?thesis
        using untouched_controls [of "cy_control_update (ct_queue_update (\<lambda>_. q)) z" "[c]"] Cons
        by (intro calm_untouched [OF that]) (simp_all add: arm_control_def)
    qed (simp add: arm_control_def that)
    with ArmControl select show ?thesis by simp
  next
    case (ArmIncoming now)
    have "calm rts (arm_incoming now z)" if z: "calm rts z" for z :: "'a consumer_system"
    proof (cases "cy_incoming z")
      case (Cons x q)
      obtain sub r where x: "x = (sub, r)" by fastforce
      have "tidy (handle_incoming now sub r (cy_actor z))"
        using z Cons x by (intro tidy_incoming) (auto simp: calm_def)
      with z Cons x poisonous_subs [OF incoming_subs, of now sub r "cy_actor z"] incoming_subs [of now sub r "cy_actor z"]
      show ?thesis by (simp add: arm_incoming_def calm_def)
    qed (simp add: arm_incoming_def z)
    with ArmIncoming select show ?thesis by simp
  next
    case (ArmNotified now)
    have "calm rts (cy_actor_update (dispatch now) (cy_handle_update f z))" if "calm rts z" for f and z :: "'a consumer_system"
      using that poisonous_subs [OF dispatch_subs, of now "cy_actor z"] by (simp add: calm_def tidy_dispatch dispatch_subs)
    with ArmNotified t select show ?thesis by simp
  next
    case ArmPrefetch
    have "untouched s (arm_prefetch s)" for s
      using collect_prefetch_subs [of s] by (auto simp: arm_prefetch_def untouched_def split: prod.splits)
    then have "calm rts (cy_actor_update arm_prefetch z)" if "calm rts z" for z :: "'a consumer_system"
      by (intro calm_untouched [OF that]) simp_all
    with ArmPrefetch select show ?thesis by simp
  next
    case (ArmSettled now n)
    have "calm rts (arm_settled env now n z)" if z: "calm rts z" for z :: "'a consumer_system"
    proof -
      have "tidy (futures_upd (take_future n) (cy_actor z))"
        using z by - (rule tidy_untouched [of "cy_actor z"], simp_all add: calm_def untouched_def)
      then have "tidy (complete_settlement now k i r (futures_upd (take_future n) (cy_actor z)))" for k i r by (rule tidy_complete)
      then show ?thesis
        using z by (intro calm_replace [OF z]) (simp_all add: arm_settled_def Let_def complete_subs calm_def split: prod.splits)
    qed
    with ArmSettled select show ?thesis by simp
  next
    case (ArmThrough now n)
    have "calm rts (arm_through env now n z)" if z: "calm rts z" for z :: "'a consumer_system"
    proof -
      have "tidy (throughs_upd (take_future n) (cy_actor z))"
        using z by - (rule tidy_untouched [of "cy_actor z"], simp_all add: calm_def untouched_def)
      then have "tidy (complete_settle_through now k a b r (throughs_upd (take_future n) (cy_actor z)))" for k a b r
        by (rule tidy_complete_through)
      then show ?thesis
        using z by (intro calm_replace [OF z]) (simp_all add: arm_through_def Let_def complete_subs calm_def split: prod.splits)
    qed
    with ArmThrough select show ?thesis by simp
  next
    case ArmClose
    have "untouched s (close_sweep cs s)" for cs s
    proof -
      have "untouched s (fold close_command cs s)"
        using untouched_controls [of "y\<lparr>cy_actor := s\<rparr>" cs] fold_close_command [of cs "y\<lparr>cy_actor := s\<rparr>"] by simp
      with untouched_flush [of "fold close_command cs s"] show ?thesis by (simp add: close_sweep_def untouched_def)
    qed
    then have "calm rts (close_start y)" by (intro calm_untouched [OF t]) (simp_all add: close_start_def)
    with ArmClose t show ?thesis by simp
  next
    case (PumpSends sub r)
    with assms show ?thesis by (cases r) (auto simp: calm_def)
  next
    case (EmbedderSettles epoch now st i)
    have "calm rts (embedder_settles epoch now st i y)"
      by (intro calm_untouched [OF t]) (simp_all add: embedder_settles_def untouched_def split: prod.splits)
    with EmbedderSettles t show ?thesis by simp
  next
    case EmbedderDrainsErrors
    have "calm rts (snd (drain_errors y))" by (intro calm_untouched [OF t]) (simp_all add: drain_errors_def untouched_def)
    with EmbedderDrainsErrors show ?thesis by simp
  next
    case (CloseSettled n)
    have "calm rts (close_one_settled env n y)"
      using untouched_close(1) [of "futures_upd (take_future n) (cy_actor y)"]
      by (intro calm_untouched [OF t]) (simp_all add: close_one_settled_def untouched_def Let_def split: prod.splits)
    with CloseSettled t show ?thesis by simp
  next
    case (CloseThrough n)
    have "calm rts (close_one_through env n y)"
      using untouched_close(2) [of "throughs_upd (take_future n) (cy_actor y)"]
      by (intro calm_untouched [OF t]) (simp_all add: close_one_through_def untouched_def Let_def split: prod.splits)
    with CloseThrough t show ?thesis by simp
  next
    case CloseDone
    have "calm rts (close_finish ch y)" by (intro calm_untouched [OF t]) (simp_all add: close_finish_def untouched_def)
    with CloseDone t show ?thesis by simp
  qed (use t in \<open>simp_all add: calm_try_next calm_try_next_batch handle_close_def\<close>)
qed

lemma calm_run:
  assumes "calm rts y" and "\<forall>ev\<in>set es. wholesome (poisonous (cy_actor y)) ev"
  shows "calm rts (run_events (consumer_step env ch) es y)"
  using assms
proof (induction es arbitrary: y)
  case (Cons ev es)
  then have c: "calm rts (consumer_step env ch ev y)" by (intro calm_step) simp_all
  moreover have "poisonous (cy_actor (consumer_step env ch ev y)) = poisonous (cy_actor y)"
    using c Cons.prems(1) by (intro poisonous_subs) (simp add: calm_def)
  ultimately show ?case using Cons by simp
qed simp

end
