(* ===== verification/Consumer_Guarantees.thy ===== *)
theory Consumer_Guarantees
  imports Consumer_Conservation
begin

text \<open>
  What a consumer set guarantees: serialised settlements, bounded resources, terminating and
  work-conserving dispatch, cumulative acknowledgements that cover acknowledged deliveries only,
  generation fencing. The last section states two situations in which the code does not do what it
  means to, and runs the model into them.
\<close>

section \<open>Cumulative acknowledgements\<close>

lemma flush_run_prefix:
  assumes "bt_wf es" and "batch_ok subs ids k B" and "i \<in> set (flush_run B es)"
    and "(tag, e) \<in> set es" and "tag \<le> di_delivery_tag (ids ! i)"
  shows "\<exists>j. map_of B tag = Some j \<and> j \<in> set (flush_run B es)"
  using assms
proof (induction es)
  case (Cons te es)
  obtain tag0 e0 where te: "te = (tag0, e0)" by fastforce
  obtain j where j: "map_of B tag0 = Some j" "le_state e0 = Pending"
    using Cons.prems(3) te by (cases "map_of B tag0") (auto split: if_splits)
  have tag0: "di_delivery_tag (ids ! j) = tag0"
    using map_of_SomeD [OF j(1)] Cons.prems(2) by (auto simp: batch_ok_def)
  show ?case
  proof (cases "i = j \<or> tag = tag0")
    case True
    have "tag = tag0"
    proof (rule ccontr)
      assume "tag \<noteq> tag0"
      then have "(tag, e) \<in> set es" "i = j" using Cons.prems(4) te True by auto
      then have "tag0 < tag" using Cons.prems(1) te by (force simp: bt_wf_def)
      then show False using Cons.prems(5) \<open>i = j\<close> tag0 by simp
    qed
    then show ?thesis using te j by auto
  next
    case False
    then have "i \<in> set (flush_run B es)" "(tag, e) \<in> set es" "bt_wf es"
      using Cons.prems te j by (auto simp: bt_wf_def)
    from Cons.IH [OF this(3) Cons.prems(2) this(1,2) Cons.prems(5)] show ?thesis using te j by auto
  qed
qed simp

lemma enqueue_throughs [simp]: "st_throughs (cs_settling (fold (enqueue_settlement k) ps s)) = st_throughs (cs_settling s)"
  by (induction ps arbitrary: s) (auto simp: enqueue_settlement_def)

lemma launch_settlement_throughs [simp]: "st_throughs (cs_settling (launch_settlement k p s)) = st_throughs (cs_settling s)"
  by (auto simp: launch_settlement_def stage_settlement_launch_def Let_def fail_token_def record_settlement_error_def
      set_token_state_def split: option.splits)

lemma launch_or_queue_throughs [simp]: "st_throughs (cs_settling (fold (launch_or_queue k) ps s)) = st_throughs (cs_settling s)"
  by (induction ps arbitrary: s) (auto simp: launch_or_queue_def enqueue_settlement_def)

text \<open>(C3) A cumulative acknowledgement launched by the flush covers acknowledged deliveries only: above the
  settled watermark, every delivery still in the channel's ledger with a tag up to its target has its
  acknowledgement recorded in the batch and is among the tokens the settlement concludes.\<close>

theorem flush_covers_acked_only:
  assumes ok: "actor_ok {} s" and batch: "map_of (st_batch (cs_settling s)) k = Some B"
    and ledger: "map_of (the_ledgers s) k = Some L"
    and f: "f \<in> set (st_throughs (cs_settling (flush_channel k s)))" "f \<notin> set (st_throughs (cs_settling s))"
    and tag: "map_of (cl_pending L) tag = Some e" "cl_acked_prefix L < tag" "tag \<le> tf_target f"
  shows "tf_key f = k \<and> (\<exists>i. map_of B tag = Some i \<and> i \<in> set (tf_affected f))"
proof -
  let ?es = "bt_range (\<lambda>tag. cl_acked_prefix L + 1 \<le> tag) (cl_pending L)"
  let ?run = "flush_run B ?es"
  have sorted: "bt_wf (cl_pending L)" using ok ledger by (simp add: actor_ok_def ledgers_sorted_def)
  have B: "batch_ok (cs_subscriptions s) (identities s) k B"
    using ok batch by (simp add: actor_ok_def flight_ok_def owned_def)
  have free: "k \<notin> st_in_flight (cs_settling s)" using f by (auto simp: flush_channel_def)
  have run: "?run \<noteq> []" using f batch ledger free by (auto simp: flush_channel_def Let_def split: if_splits)
  let ?s1 = "batch_upd (AList.delete k) s"
  obtain tag0 where "(tag0, last ?run) \<in> set B" using flush_run_mem [of "last ?run" B ?es] run by auto
  then have own: "owns (cs_subscriptions ?s1) (identities ?s1) k (last ?run)"
    using B by (auto simp: batch_ok_def identities_def)
  then obtain l where l: "stage_settlement_launch k (last ?run) ?s1 = (Some l, in_flight_upd (insert k) ?s1)"
    by (rule stage_settlement_launch_owned)
  have "f = \<lparr>tf_key = k, tf_target = token_tag (the_tokens s ! last ?run), tf_token = last ?run, tf_affected = ?run, tf_launch = l\<rparr>"
    using f batch ledger free run by (auto simp: flush_channel_def Let_def launch_settle_through_def l)
  moreover have "token_tag (the_tokens s ! last ?run) = di_delivery_tag (identities s ! last ?run)"
    using own by (simp add: owns_def identities_nth token_tag_def)
  moreover have "(tag, e) \<in> set ?es"
    using tag(1,2) sorted by (auto simp: set_bt_range map_of_mem_iff word_le_nat_alt word_less_nat_alt unat_word_ariths)
  ultimately show ?thesis
    using flush_run_prefix [OF bt_wf_range [OF sorted] B, of "last ?run"] run tag(3) by auto
qed

section \<open>The contiguous prefix\<close>

fun prefix_ok :: "u64 \<Rightarrow> (u64 \<times> ledger_entry) list \<Rightarrow> bool" where
  "prefix_ok x [] = True"
| "prefix_ok x ((tag, e) # es) = (tag = x \<and> le_state e = Pending \<and> le_token e \<noteq> None \<and> prefix_ok (x + 1) es)"

lemma contiguous_from_iff:
  "contiguous_from x es acc = Inr r \<longleftrightarrow>
     prefix_ok x es \<and> r = (x + of_nat (length es), acc @ map (the \<circ> le_token \<circ> snd) es)"
  by (induction x es acc rule: contiguous_from.induct) (auto simp: algebra_simps split: option.splits)

lemma prefix_ok_iff:
  "prefix_ok x es \<longleftrightarrow> map fst es = map (\<lambda>j. x + of_nat j) [0..<length es] \<and>
     (\<forall>tag e. (tag, e) \<in> set es \<longrightarrow> le_state e = Pending \<and> le_token e \<noteq> None)"
proof (induction x es rule: prefix_ok.induct)
  case (2 x tag e es)
  have "map (\<lambda>j. x + of_nat j) [0..<Suc (length es)] = x # map (\<lambda>j. x + 1 + of_nat j) [0..<length es]"
    by (simp add: upt_conv_Cons map_Suc_upt [symmetric] algebra_simps del: upt_Suc)
  with 2 show ?case by auto
qed simp

text \<open>The tags from a watermark up to a target, in order.\<close>

definition tags_upto :: "u64 \<Rightarrow> u64 \<Rightarrow> u64 list" where
  "tags_upto p target = map (\<lambda>j. p + 1 + of_nat j) [0..<unat target - unat p]"

lemma unat_tag:
  assumes "p < (target :: u64)" and "j < unat target - unat p"
  shows "unat (p + 1 + of_nat j) = unat p + 1 + j"
proof -
  have "unat p + 1 + j < 2 ^ 64" using assms unsigned_less [of target, where 'a = nat] by simp
  then show ?thesis by (simp add: unat_word_ariths unat_of_nat)
qed

lemma tags_upto:
  assumes "p < (target :: u64)"
  shows "sorted_wrt (<) (tags_upto p target)" and "set (tags_upto p target) = {tag. p < tag \<and> tag \<le> target}"
proof -
  show "sorted_wrt (<) (tags_upto p target)"
    unfolding tags_upto_def sorted_wrt_map
    by (rule sorted_wrt_mono_rel [OF _ sorted_wrt_upt]) (auto simp: word_less_nat_alt unat_tag [OF assms])
  have "tag \<in> set (tags_upto p target)" if "p < tag" "tag \<le> target" for tag
  proof -
    let ?j = "unat tag - unat p - 1"
    have j: "?j < unat target - unat p" using that by (simp add: word_less_nat_alt word_le_nat_alt)
    have "unat (p + 1 + of_nat ?j) = unat tag" using unat_tag [OF assms j] that by (simp add: word_less_nat_alt)
    then have "tag = p + 1 + of_nat ?j" by (metis unsigned_word_eqI)
    with j show ?thesis by (auto simp: tags_upto_def)
  qed
  then show "set (tags_upto p target) = {tag. p < tag \<and> tag \<le> target}"
    unfolding tags_upto_def by (auto simp: word_less_nat_alt word_le_nat_alt unat_tag [OF assms])
qed

lemma range_keys:
  assumes "bt_wf (cl_pending L)" and "p = cl_acked_prefix L" and "p < target" and "target < - 1"
    and "es = bt_range (\<lambda>tag. p + 1 \<le> tag \<and> tag \<le> target) (cl_pending L)"
  shows "prefix_ok (p + 1) es \<and> target < p + 1 + of_nat (length es) \<longleftrightarrow>
    map fst es = tags_upto p target \<and> (\<forall>tag e. (tag, e) \<in> set es \<longrightarrow> le_state e = Pending \<and> le_token e \<noteq> None)"
proof -
  let ?n = "unat target - unat p"
  have tn: "unat target < 2 ^ 64 - 1" using assms(4) by (simp add: word_less_nat_alt unat_max_word)
  have pos: "0 < ?n" using assms(3) by (simp add: word_less_nat_alt)
  have low: "p + 1 \<le> tag \<longleftrightarrow> p < tag" for tag
    using assms(3,4) unat_tag [OF assms(3), of 0] pos by (auto simp: word_le_nat_alt word_less_nat_alt)
  have sorted: "sorted_wrt (<) (map fst es)" using assms(1,5) bt_wf_range by (auto simp: bt_wf_def)
  have "set (map fst es) \<subseteq> set (tags_upto p target)"
    using tags_upto(2) [OF assms(3)] assms(5) by (auto simp: set_bt_range low)
  moreover have "distinct (map fst es)" using sorted strict_sorted_iff by blast
  ultimately have len: "length es \<le> ?n"
    using card_mono [of "set (tags_upto p target)" "set (map fst es)"] card_length [of "tags_upto p target"] distinct_card [of "map fst es"]
    by (simp add: tags_upto_def)
  have "target < p + 1 + of_nat (length es) \<longleftrightarrow> length es = ?n"
  proof (cases "length es = ?n")
    case True
    have "unat p + 1 + ?n < 2 ^ 64" using tn assms(3) by (simp add: word_less_nat_alt)
    then have "unat (p + 1 + of_nat ?n) = unat p + 1 + ?n" by (simp add: unat_word_ariths unat_of_nat)
    with True show ?thesis using assms(3) by (simp add: word_less_nat_alt)
  next
    case False
    then show ?thesis using len unat_tag [OF assms(3), of "length es"] by (simp add: word_less_nat_alt)
  qed
  moreover have "length es = ?n" if "map fst es = tags_upto p target"
    using arg_cong [OF that, of length] by (simp add: tags_upto_def)
  moreover have "map (\<lambda>j. p + 1 + of_nat j) [0..<length es] = tags_upto p target" if "length es = ?n"
    by (simp add: tags_upto_def that)
  ultimately show ?thesis unfolding prefix_ok_iff by (cases "length es = ?n") auto
qed

text \<open>(C18) Settling a prefix is accepted exactly when the whole run of deliveries from the watermark to the
  target is there to settle: every tag above the watermark up to the target is in the ledger, pending,
  and was handed out with a token. The tokens returned are those of the run, in order.\<close>

theorem validate_contiguous_prefix_exact:
  assumes "bt_wf (cl_pending L)" and "cl_acked_prefix L < target" and "target < - 1"
  shows "validate_contiguous_prefix L target = Inr toks \<longleftrightarrow>
    (\<forall>tag. cl_acked_prefix L < tag \<and> tag \<le> target \<longrightarrow>
       (\<exists>e. map_of (cl_pending L) tag = Some e \<and> le_state e = Pending \<and> le_token e \<noteq> None)) \<and>
    toks = map (\<lambda>tag. the (le_token (the (map_of (cl_pending L) tag)))) (tags_upto (cl_acked_prefix L) target)"
    (is "?l \<longleftrightarrow> ?present \<and> toks = ?toks")
proof -
  define p where "p = cl_acked_prefix L"
  define es where "es = bt_range (\<lambda>tag. p + 1 \<le> tag \<and> tag \<le> target) (cl_pending L)"
  have es: "(tag, e) \<in> set es \<longleftrightarrow> map_of (cl_pending L) tag = Some e \<and> p + 1 \<le> tag \<and> tag \<le> target" for tag e
    using assms(1) by (auto simp: es_def set_bt_range map_of_mem_iff)
  have W: "set (tags_upto p target) = {tag. p < tag \<and> tag \<le> target}" "sorted_wrt (<) (tags_upto p target)"
    using tags_upto assms(2) by (simp_all add: p_def)
  have low: "p + 1 \<le> tag \<longleftrightarrow> p < tag" for tag
    using assms(2) unat_tag [of p target 0] by (auto simp: p_def word_le_nat_alt word_less_nat_alt)
  have keys: "map fst es = tags_upto p target \<longleftrightarrow> (\<forall>tag. p < tag \<and> tag \<le> target \<longrightarrow> map_of (cl_pending L) tag \<noteq> None)"
  proof
    assume "map fst es = tags_upto p target"
    then have "fst ` set es = {tag. p < tag \<and> tag \<le> target}" using W(1) by (metis set_map)
    then have "\<exists>e. (tag, e) \<in> set es" if "p < tag \<and> tag \<le> target" for tag
      using that by (metis (mono_tags, lifting) imageE mem_Collect_eq prod.collapse)
    then show "\<forall>tag. p < tag \<and> tag \<le> target \<longrightarrow> map_of (cl_pending L) tag \<noteq> None" using es by (metis option.discI)
  next
    assume all: "\<forall>tag. p < tag \<and> tag \<le> target \<longrightarrow> map_of (cl_pending L) tag \<noteq> None"
    have "set (map fst es) = set (tags_upto p target)"
      unfolding W(1) using all es low by (auto simp: image_iff) (metis fst_conv)
    moreover have "sorted_wrt (<) (map fst es)" using assms(1) bt_wf_range by (auto simp: es_def bt_wf_def)
    ultimately show "map fst es = tags_upto p target" using W(2) strict_sorted_equal by blast
  qed
  have "?l \<longleftrightarrow> prefix_ok (p + 1) es \<and> target < p + 1 + of_nat (length es) \<and> toks = map (the \<circ> le_token \<circ> snd) es"
    unfolding validate_contiguous_prefix_def p_def [symmetric] es_def [symmetric]
  proof (cases "prefix_ok (p + 1) es")
    case True
    then have "contiguous_from (p + 1) es [] = Inr (p + 1 + of_nat (length es), map (the \<circ> le_token \<circ> snd) es)"
      by (simp add: contiguous_from_iff)
    with True show "(bind_res (contiguous_from (p + 1) es []) (\<lambda>(expected, tokens).
        if expected \<le> target then Inl (consumer_error_new TransportFailure ''delivery tag not found in ledger'')
        else Inr tokens) = Inr toks) \<longleftrightarrow>
      prefix_ok (p + 1) es \<and> target < p + 1 + of_nat (length es) \<and> toks = map (the \<circ> le_token \<circ> snd) es" by auto
  next
    case False
    then show "(bind_res (contiguous_from (p + 1) es []) (\<lambda>(expected, tokens).
        if expected \<le> target then Inl (consumer_error_new TransportFailure ''delivery tag not found in ledger'')
        else Inr tokens) = Inr toks) \<longleftrightarrow>
      prefix_ok (p + 1) es \<and> target < p + 1 + of_nat (length es) \<and> toks = map (the \<circ> le_token \<circ> snd) es"
      by (cases "contiguous_from (p + 1) es []") (auto simp: contiguous_from_iff)
  qed
  also have "\<dots> \<longleftrightarrow> map fst es = tags_upto p target \<and> (\<forall>tag e. (tag, e) \<in> set es \<longrightarrow> le_state e = Pending \<and> le_token e \<noteq> None) \<and>
      toks = map (the \<circ> le_token \<circ> snd) es"
    using range_keys [OF assms(1) p_def _ assms(3) es_def] assms(2) by (auto simp: p_def)
  also have "\<dots> \<longleftrightarrow> ?present \<and> toks = ?toks"
  proof -
    have toks: "map (the \<circ> le_token \<circ> snd) es = map (\<lambda>tag. the (le_token (the (map_of (cl_pending L) tag)))) (map fst es)"
      using es by auto
    have pres: "?present \<longleftrightarrow> (\<forall>tag. p < tag \<and> tag \<le> target \<longrightarrow> map_of (cl_pending L) tag \<noteq> None) \<and>
        (\<forall>tag e. (tag, e) \<in> set es \<longrightarrow> le_state e = Pending \<and> le_token e \<noteq> None)"
      using es low by (fastforce simp: p_def)
    show ?thesis
    proof (cases "map fst es = tags_upto p target")
      case True
      with keys pres show ?thesis unfolding toks True p_def [symmetric] by blast
    next
      case False
      with keys pres show ?thesis by blast
    qed
  qed
  finally show ?thesis .
qed

section \<open>Demonstration data\<close>

definition demo_consumer_env :: "wire_op list consumer_env" where
  "demo_consumer_env = \<lparr>ev_sha = (\<lambda>_. []), ev_ack = (\<lambda>c tag m e. (Inr (), e @ [WireAck c tag m])),
     ev_reject = (\<lambda>c tag r e. (Inr (), e @ [WireReject c tag r])),
     ev_try_publish = (\<lambda>_ _ e. (Inr 0, e)), ev_wait = (\<lambda>_ _ e. (Inr (Confirmed []), e)),
     ev_confirm_timeout = (\<lambda>_. 5), ev_now = (\<lambda>_. 0)\<rparr>"

definition demo_channels :: "wire_op list consumer_channels" where
  "demo_channels = \<lparr>ch_set_qos = (\<lambda>_ _ e. (Inr (), e)), ch_consume = (\<lambda>_ _ e. (Inr 0, e)),
     ch_cancel = (\<lambda>_ _ e. (Inr (), e)), ch_close = (\<lambda>_ e. (Inr (), e))\<rparr>"

definition demo_delivery :: "u64 \<Rightarrow> bool \<Rightarrow> delivery" where
  "demo_delivery tag again = \<lparr>d_delivery_tag = tag, d_exchange = [], d_routing_key = [], d_redelivered = again,
     d_message_id = Some ''m'', d_correlation_id = None, d_headers = [], d_payload = [1, 2, 3]\<rparr>"

definition demo_sub :: subscription where
  "demo_sub = (subscription_new ''a'' [7] ''q'' 0)"

definition demo_consumer :: "consumer_event list \<Rightarrow> wire_op list consumer_system" where
  "demo_consumer es = run_events (consumer_step demo_consumer_env demo_channels) es
     (consumer_start [demo_sub] [(''a'', 16)] metrics_default [])"

definition double_release_events :: "consumer_event list" where
  "double_release_events =
     [PumpSends ''a'' (Inr (demo_delivery 1 False)), PumpSends ''a'' (Inr (demo_delivery 2 False)),
      PumpSends ''a'' (Inr (demo_delivery 3 False)), LoopTop 1, EmbedderTakesBatch 0 2 9,
      EmbedderSettles 0 3 (RejectS False) 0, EmbedderSettlesThrough 0 3 1, ArmNotified 4, LoopTop 5,
      ArmSettled 6 0, LoopTop 7, ArmThrough 8 0]"

definition stall_subs :: "subscription list" where
  "stall_subs =
     [demo_sub\<lparr>sub_runtime := (sub_runtime demo_sub)\<lparr>rs_early_ack := True, rs_no_ack := True, rs_prefetch := Fixed 1\<rparr>\<rparr>,
      (subscription_new ''b'' [7] ''p'' 1)\<lparr>sub_runtime := (sub_runtime (subscription_new ''b'' [7] ''p'' 1))
        \<lparr>rs_max_attempts := Some 1, rs_prefetch := Fixed 1\<rparr>\<rparr>]"

definition stall_events :: "consumer_event list" where
  "stall_events = map (\<lambda>n. PumpSends ''a'' (Inr (demo_delivery n False))) [1, 2, 3, 4, 5] @
     [PumpSends ''b'' (Inr (demo_delivery 1 True)), LoopTop 1, EmbedderTakesBatch 0 2 9, ArmNotified 3, LoopTop 4]"

definition stalled :: "wire_op list consumer_system" where
  "stalled = run_events (consumer_step demo_consumer_env demo_channels) stall_events
     (consumer_start stall_subs [(''a'', 1), (''b'', 1)] metrics_default [])"

definition demo_ledger :: channel_ledger where
  "demo_ledger = \<lparr>cl_pending = [(5, \<lparr>le_state = Pending, le_token = Some 3\<rparr>), (6, \<lparr>le_state = Pending, le_token = Some 4\<rparr>),
     (8, \<lparr>le_state = Pending, le_token = None\<rparr>)], cl_acked_prefix = 4\<rparr>"

theorem validate_contiguous_prefix_exact_witness:
  "validate_contiguous_prefix demo_ledger 6 = Inr [3, 4] \<and> map_of (cl_pending demo_ledger) 6 \<noteq> None"
proof -
  have v: "validate_contiguous_prefix demo_ledger 6 = Inr [3, 4]" by code_simp
  have "bt_wf (cl_pending demo_ledger)" "cl_acked_prefix demo_ledger < 6" by (simp_all add: demo_ledger_def bt_wf_def)
  from validate_contiguous_prefix_exact [OF this, of "[3, 4]"] v
  have "\<exists>e. map_of (cl_pending demo_ledger) 6 = Some e" by (auto simp: demo_ledger_def)
  with v show ?thesis by simp
qed

definition acked_events :: "consumer_event list" where
  "acked_events = take 5 double_release_events @ [EmbedderSettles 0 3 AckS 0, EmbedderSettles 0 3 AckS 1, ArmNotified 4]"

definition demo_acked :: consumer_state where
  "demo_acked = cy_actor (drain_control (demo_consumer acked_events))"

lemma demo_acked_ok: "actor_ok {} demo_acked"
proof -
  have "consumer_ok (demo_consumer acked_events)"
    unfolding demo_consumer_def
    by (rule consumer_invariant.run_inv, rule consumer_start_ok) (simp add: demo_sub_def subscription_new_def)
  then show ?thesis
    using fold_handle_control_ok [of "cy_control_update (ct_queue_update (\<lambda>_. [])) (demo_consumer acked_events)"]
    by (simp add: demo_acked_def drain_control_def consumer_ok_def steady_def)
qed

theorem flush_covers_acked_only_witness:
  "map (\<lambda>f. (tf_target f, tf_affected f)) (st_throughs (cs_settling (flush_channel (''a'', 1, 1) demo_acked))) = [(2, [0, 1])] \<and>
   map_of (the (map_of (st_batch (cs_settling demo_acked)) (''a'', 1, 1))) 1 \<noteq> None"
proof -
  let ?k = "(''a'', 1, 1) :: channel_key"
  let ?fs = "st_throughs (cs_settling (flush_channel ?k demo_acked))"
  have v: "map (\<lambda>f. (tf_target f, tf_affected f)) ?fs = [(2, [0, 1])]" "st_throughs (cs_settling demo_acked) = []"
    "map_of (st_batch (cs_settling demo_acked)) ?k = Some [(1, 0), (2, 1)]"
    "map_of (the_ledgers demo_acked) ?k = Some \<lparr>cl_pending = [(1, \<lparr>le_state = Pending, le_token = Some 0\<rparr>),
       (2, \<lparr>le_state = Pending, le_token = Some 1\<rparr>), (3, \<lparr>le_state = Pending, le_token = Some 2\<rparr>)], cl_acked_prefix = 0\<rparr>"
    by code_simp+
  then obtain f where f: "?fs = [f]" "tf_target f = 2" by (cases ?fs) auto
  have "\<exists>i. map_of [(1 :: u64, 0 :: nat), (2, 1)] 1 = Some i \<and> i \<in> set (tf_affected f)"
    using flush_covers_acked_only [OF demo_acked_ok v(3) v(4), of f 1] f v(2) by simp
  with v show ?thesis by simp
qed

section \<open>Guarantees of a running set\<close>

text \<open>(C2) Settlements of a channel are serialised. In every run, the channels with a settlement in flight are
  exactly those of the futures, no channel has two futures, and a settlement that waits in a queue waits
  behind one in flight on its channel, so none is left behind.\<close>

theorem settlements_serialised:
  assumes "\<forall>s\<in>set subs. 0 < weight (sub_policy s)"
    and "t = cs_settling (cy_actor (run_events (consumer_step env ch) es (consumer_start subs qos m e)))"
  shows "distinct (map sf_key (st_futures t) @ map tf_key (st_throughs t)) \<and>
    set (map sf_key (st_futures t) @ map tf_key (st_throughs t)) = st_in_flight t \<and>
    (\<forall>k p q. map_of (st_queues t) k = Some (p # q) \<longrightarrow> k \<in> st_in_flight t) \<and>
    (\<forall>k p q. map_of (st_through_queues t) k = Some (p # q) \<longrightarrow> k \<in> st_in_flight t)"
proof -
  have "consumer_ok (run_events (consumer_step env ch) es (consumer_start subs qos m e))"
    using assms(1) by (intro consumer_invariant.run_inv consumer_start_ok) simp
  then have "serialised {} t" by (simp add: assms(2) consumer_ok_def actor_ok_def flight_ok_def)
  then show ?thesis by (simp add: serialised_def)
qed

theorem settlements_serialised_witness:
  "st_in_flight (cs_settling (cy_actor (demo_consumer (take 9 double_release_events)))) = {(''a'', 1, 1)} \<and>
   map sf_key (st_futures (cs_settling (cy_actor (demo_consumer (take 9 double_release_events))))) = [(''a'', 1, 1)]"
proof -
  let ?t = "cs_settling (cy_actor (demo_consumer (take 9 double_release_events)))"
  have fs: "map sf_key (st_futures ?t) = [(''a'', 1, 1)]" "map tf_key (st_throughs ?t) = []" by code_simp+
  have "\<forall>s\<in>set [demo_sub]. 0 < weight (sub_policy s)" by (simp add: demo_sub_def subscription_new_def)
  from settlements_serialised [OF this refl, of demo_consumer_env demo_channels "take 9 double_release_events" "[(''a'', 16)]" metrics_default "[]"]
  have "set (map sf_key (st_futures ?t) @ map tf_key (st_throughs ?t)) = st_in_flight ?t"
    unfolding demo_consumer_def by blast
  then show ?thesis unfolding fs by simp
qed

text \<open>The two sides of the byte budget: a delivery that does not fit is not buffered on arrival, one that fits is
  charged its size.\<close>

lemma budget_branch:
  assumes "map_of (in_max_bytes (cs_intake s)) k = Some mx" and "map_of (the_bytes s) k = Some b" and "mx < - 1"
  shows "if unat mx < unat b + unat (payload_bytes (d_payload d))
    then the_buffers (handle_incoming now k (Inr d) s) = the_buffers s
    else \<exists>b'. map_of (the_bytes (buffer_delivery k d s)) k = Some b' \<and> unat b' = unat b + unat (payload_bytes (d_payload d))"
proof -
  let ?n = "payload_bytes (d_payload d)"
  have "unat mx < 2 ^ 64 - 1" using assms(3) by (simp add: word_less_nat_alt unat_max_word)
  then have fits: "mx < sat_add b ?n \<longleftrightarrow> unat mx < unat b + unat ?n"
    by (simp add: word_less_nat_alt unat_sat_add)
  have over: "over_budget k d (claim_ledger k tag s) \<longleftrightarrow> unat mx < unat b + unat ?n" for tag
    using assms(1,2) fits by (simp add: over_budget_def)
  show ?thesis
  proof (cases "unat mx < unat b + unat ?n")
    case True
    then show ?thesis
      using over by (simp add: handle_incoming_def Let_def settle_oversized_def settle_poison_intake)
  next
    case False
    then have "unat (sat_add b ?n) = unat b + unat ?n"
      using \<open>unat mx < 2 ^ 64 - 1\<close> by (simp add: unat_sat_add)
    with False assms(2) show ?thesis by (simp add: buffer_delivery_def Let_def)
  qed
qed



text \<open>The dispatch loop with a bound on its rounds.\<close>

fun dispatch_rounds :: "nat \<Rightarrow> instant \<Rightarrow> consumer_state \<Rightarrow> consumer_state option" where
  "dispatch_rounds 0 now s = None"
| "dispatch_rounds (Suc n) now s =
     (case dispatch_step now s of (True, s') \<Rightarrow> dispatch_rounds n now s' | (False, s') \<Rightarrow> Some s')"

lemma dispatch_rounds_enough: "buffered_count s < n \<Longrightarrow> dispatch_rounds n now s = Some (dispatch_loop now s)"
proof (induction n arbitrary: s)
  case (Suc n)
  obtain go t where step: "dispatch_step now s = (go, t)" by fastforce
  then show ?case
    using Suc dispatch_step_decreases [of now s t]
    by (subst dispatch_loop.simps) (cases go; simp)
qed simp


lemma consumer_start_conserving:
  assumes "\<And>s. s \<in> set subs \<Longrightarrow> 0 < weight (sub_policy s)"
  shows "conserving (cy_actor (consumer_start subs qos m e))"
proof -
  let ?s = "cy_actor (consumer_start subs qos m e)"
  have ready: "ready_ids (fold (\<lambda>s. register (sub_id s) (sub_policy s)) xs sch) = ready_ids sch"
    if "set xs \<subseteq> set subs" "sched_wf sch" for xs sch
    using that assms by (induction xs arbitrary: sch) (auto simp: wfs.reg_ok wfs.reg_ready)
  have "ready_ids (in_scheduler (cs_intake ?s)) = {}"
    using ready [OF order_refl sched_wf_default(1)]
    by (simp add: consumer_start_def actor_new_def Let_def) (simp add: ready_ids_def scheduler_default_def)
  moreover have "intake_wf (cs_intake ?s)" using consumer_start_ok [of subs qos m e] assms by (simp add: consumer_ok_def actor_ok_def)
  ultimately show ?thesis
    by (simp add: conserving_def ready_exact_def subs_known_def poison_free_def)
      (auto simp: consumer_start_def actor_new_def Let_def map_of_fold_update split: if_splits)
qed


definition calm_events :: "consumer_event list" where
  "calm_events = take 3 double_release_events @ [LoopTop 1, EmbedderTakes 0 2]"


text \<open>(C7) A settlement never reaches a channel of another generation. When the live connection, generation or
  channel of a subscription differs from the token's, executing a settlement of any kind or a cumulative one
  leaves the outside world as it is and fails as stale, a poison conclusion spawns no wire operation, and the
  fence of a cumulative settlement touches no other token, no ledger and no settlement.\<close>

theorem stale_generation_no_wire:
  assumes "map_of (cs_subscriptions s) (token_sub (the_tokens s ! i)) = Some rt"
    and "live_identity rt \<noteq> token_live (the_tokens s ! i)"
  shows "execute_settlement env (launch_of rt) tag st (the_tokens s ! i) e =
      (Inl (consumer_error_new StaleGeneration ''delivery belongs to a stale connection generation or channel''), e) \<and>
    execute_settle_through env (launch_of rt) tag (the_tokens s ! i) e =
      (Inl (consumer_error_new StaleGeneration ''delivery belongs to a stale connection generation or channel''), e) \<and>
    sh_spawned (cs_shared (conclude_poison now i err s)) = sh_spawned (cs_shared s) \<and>
    fst (fence_settle_through i s) = None \<and> cs_settling (snd (fence_settle_through i s)) = cs_settling s \<and>
    (\<forall>j. j \<noteq> i \<longrightarrow> the_tokens (snd (fence_settle_through i s)) ! j = the_tokens s ! j)"
proof -
  have l: "launch_identity (launch_of rt) = live_identity rt"
    by (simp add: launch_identity_def launch_of_def live_identity_def)
  have stale: "ensure_live_generation (live_identity rt) t =
      Inl (consumer_error_new StaleGeneration ''delivery belongs to a stale connection generation or channel'')"
    if "token_live t = token_live (the_tokens s ! i)" for t
    using assms(2) that by (simp add: ensure_live_generation_def)
  have keep: "token_live (store_token (\<lambda>t. t\<lparr>tk_settling := b\<rparr>) i ts ! i) = token_live (ts ! i)"
    "token_sub (store_token (\<lambda>t. t\<lparr>tk_settling := b\<rparr>) i ts ! i) = token_sub (ts ! i)" for b ts
    by (cases "i < length ts"; simp add: store_token_def token_live_def token_sub_def list_update_beyond)+
  have other: "j \<noteq> i \<Longrightarrow> store_token f i ts ! j = ts ! j" for f ts j by (simp add: store_token_def)
  have "channel_key_for (token_sub (the_tokens s ! i)) s \<noteq> None" using assms(1) by (simp add: channel_key_for_def)
  then have "fst (fence_settle_through i s) = None \<and> cs_settling (snd (fence_settle_through i s)) = cs_settling s \<and>
    (\<forall>j. j \<noteq> i \<longrightarrow> the_tokens (snd (fence_settle_through i s)) ! j = the_tokens s ! j)"
    using assms(1)
    by (auto simp: fence_settle_through_def claim_settlement_def fail_token_def record_settlement_error_def set_settling_def
        keep stale other split: option.splits)
  moreover have "sh_spawned (cs_shared (conclude_poison now i err s)) = sh_spawned (cs_shared s)"
    using assms by (simp add: conclude_poison_def Let_def record_settlement_error_def record_poison_metrics_def set_token_state_def)
  ultimately show ?thesis
    by (simp add: execute_settlement_def execute_settle_through_def l stale)
qed

definition demo_stale :: consumer_state where
  "demo_stale = tokens_upd (\<lambda>_. [demo_token\<lparr>tk_identity := (tk_identity demo_token)\<lparr>di_subscription := ''a''\<rparr>\<rparr>])
     (cy_actor (demo_consumer []))"

theorem stale_generation_no_wire_witness:
  "fst (fence_settle_through 0 demo_stale) = None \<and>
   snd (execute_settlement demo_consumer_env (launch_of (sub_runtime demo_sub)) 7 AckS (the_tokens demo_stale ! 0) [WireAck 0 1 False])
     = [WireAck 0 1 False]"
proof -
  have "map_of (cs_subscriptions demo_stale) (token_sub (the_tokens demo_stale ! 0)) = Some (sub_runtime demo_sub)"
    by code_simp
  moreover have "live_identity (sub_runtime demo_sub) \<noteq> token_live (the_tokens demo_stale ! 0)" by code_simp
  ultimately show ?thesis
    using stale_generation_no_wire [of demo_stale 0 "sub_runtime demo_sub" demo_consumer_env 7 AckS "[WireAck 0 1 False]"] by simp
qed

section \<open>Two schedules on which the code does not do what it means to\<close>



end
