(* ===== verification/Consumer_Composite.thy ===== *)
theory Consumer_Composite
  imports Consumer_Guarantees
begin

text \<open>
  The fan-in of per-broker consumer sets (\<^verbatim>\<open>consumer/composite.rs\<close>). A composite handle owns one
  source per broker and polls them in rotation. It uses a source only through the calls of a
  consumer-set handle, so its operations take those calls as arguments; the locale
  \<open>delivery_source\<close> states what it relies on and is interpreted on the handle of
  \<^verbatim>\<open>consumer/set.rs\<close>. A shared handle is one record, each atomic or mutex one field of it.
\<close>

section \<open>State\<close>

record 's composite =
  co_sources :: "'s list"
  co_retired :: "bool list"
  co_round_robin :: u64
  co_pending_error :: "consumer_error option"
  co_pending_signal :: "consumer_error option"
  co_closed_by_caller :: bool

definition from_sources :: "'s list \<Rightarrow> 's composite" where
  "from_sources ss = \<lparr>co_sources = ss, co_retired = map (\<lambda>_. False) ss, co_round_robin = 0,
     co_pending_error = None, co_pending_signal = None, co_closed_by_caller = False\<rparr>"

definition put_source :: "nat \<Rightarrow> 's \<Rightarrow> 's composite \<Rightarrow> 's composite" where
  "put_source i s c = c\<lparr>co_sources := (co_sources c)[i := s]\<rparr>"

section \<open>Rotation and retirement\<close>

definition rotation :: "'s composite \<Rightarrow> nat list option \<times> 's composite" where
  "rotation c =
     (let len = length (co_sources c) in
      if len = 0 then (None, c)
      else let start = unat (co_round_robin c) mod len in
        (Some (map (\<lambda>offset. (start + offset) mod len) [0..<len]), c\<lparr>co_round_robin := co_round_robin c + 1\<rparr>))"

definition is_retired :: "nat \<Rightarrow> 's composite \<Rightarrow> bool" where
  "is_retired i c = co_retired c ! i"

definition all_retired :: "'s composite \<Rightarrow> bool" where
  "all_retired c = list_all (\<lambda>b. b) (co_retired c)"

definition source_replaced :: consumer_error where
  "source_replaced = consumer_error_new SourceReplaced ''broker source replaced by recovery; re-fetch consumer''"

definition retire :: "nat \<Rightarrow> 's composite \<Rightarrow> 's composite" where
  "retire i c =
     (if co_retired c ! i then c
      else let c1 = c\<lparr>co_retired := (co_retired c)[i := True]\<rparr> in
        if all_retired c1 \<or> co_closed_by_caller c1 then c1
        else if co_pending_signal c1 = None then c1\<lparr>co_pending_signal := Some source_replaced\<rparr> else c1)"

definition take_pending :: "'s composite \<Rightarrow> consumer_error option \<times> 's composite" where
  "take_pending c =
     (case co_pending_signal c of
        Some signal \<Rightarrow> (Some signal, c\<lparr>co_pending_signal := None\<rparr>)
      | None \<Rightarrow> (co_pending_error c, c\<lparr>co_pending_error := None\<rparr>))"

section \<open>Receiving\<close>

type_synonym ('s, 'd) take_one = "'s \<Rightarrow> (consumer_error + 'd option) \<times> 's"
type_synonym ('s, 'd) take_batch = "nat \<Rightarrow> 's \<Rightarrow> (consumer_error + 'd list) \<times> 's"
type_synonym ('s, 'd) await = "'s \<Rightarrow> (consumer_error + 'd) option \<times> 's"

text \<open>The polling loop of \<^verbatim>\<open>try_next\<close>; \<open>None\<close> when it ran through every source.\<close>

fun scan_next :: "('s, 'd) take_one \<Rightarrow> nat list \<Rightarrow> 's composite \<Rightarrow> (consumer_error + 'd) option \<times> 's composite" where
  "scan_next tk [] c = (None, c)"
| "scan_next tk (i # is) c =
     (if is_retired i c then scan_next tk is c
      else case tk (co_sources c ! i) of
        (Inr (Some d), s) \<Rightarrow> (Some (Inr d), put_source i s c)
      | (Inr None, s) \<Rightarrow> scan_next tk is (put_source i s c)
      | (Inl err, s) \<Rightarrow>
          if ce_kind err = ConsumerClosed then scan_next tk is (retire i (put_source i s c))
          else (Some (Inl err), put_source i s c))"

definition composite_try_next :: "('s, 'd) take_one \<Rightarrow> 's composite \<Rightarrow> (consumer_error + 'd option) \<times> 's composite" where
  "composite_try_next tk c =
     (if length (co_sources c) = 1
      then (case tk (co_sources c ! 0) of (r, s) \<Rightarrow> (r, put_source 0 s c))
      else case rotation c of
        (None, c1) \<Rightarrow> (Inl consumer_error_closed, c1)
      | (Some is, c1) \<Rightarrow>
          (case scan_next tk is c1 of
             (Some (Inr d), c2) \<Rightarrow> (Inr (Some d), c2)
           | (Some (Inl err), c2) \<Rightarrow> (Inl err, c2)
           | (None, c2) \<Rightarrow>
               if all_retired c2 then (Inl consumer_error_closed, c2)
               else (case take_pending c2 of (Some err, c3) \<Rightarrow> (Inl err, c3) | (None, c3) \<Rightarrow> (Inr None, c3))))"

text \<open>The draining loop of \<^verbatim>\<open>try_next_batch\<close>.\<close>

fun scan_batch :: "('s, 'd) take_batch \<Rightarrow> nat \<Rightarrow> nat list \<Rightarrow> 'd list \<Rightarrow> 's composite \<Rightarrow>
    (consumer_error + 'd list) \<times> 's composite" where
  "scan_batch tk mx [] batch c = (Inr batch, c)"
| "scan_batch tk mx (i # is) batch c =
     (if length batch \<ge> mx then (Inr batch, c)
      else if is_retired i c then scan_batch tk mx is batch c
      else case tk (mx - length batch) (co_sources c ! i) of
        (Inr part, s) \<Rightarrow> scan_batch tk mx is (batch @ part) (put_source i s c)
      | (Inl err, s) \<Rightarrow>
          if ce_kind err = ConsumerClosed then scan_batch tk mx is batch (retire i (put_source i s c))
          else if batch = [] then (Inl err, put_source i s c)
          else (Inr batch, (put_source i s c)\<lparr>co_pending_error := Some err\<rparr>))"

definition composite_try_next_batch :: "('s, 'd) take_batch \<Rightarrow> nat \<Rightarrow> 's composite \<Rightarrow> (consumer_error + 'd list) \<times> 's composite" where
  "composite_try_next_batch tk mx c =
     (if length (co_sources c) = 1
      then (case tk mx (co_sources c ! 0) of (r, s) \<Rightarrow> (r, put_source 0 s c))
      else case rotation c of
        (None, c1) \<Rightarrow> (Inl consumer_error_closed, c1)
      | (Some is, c1) \<Rightarrow>
          (case scan_batch tk (max 1 (min mx 256)) is [] c1 of
             (Inl err, c2) \<Rightarrow> (Inl err, c2)
           | (Inr [], c2) \<Rightarrow>
               if all_retired c2 then (Inl consumer_error_closed, c2)
               else (case take_pending c2 of (Some err, c3) \<Rightarrow> (Inl err, c3) | (None, c3) \<Rightarrow> (Inr [], c3))
           | (Inr batch, c2) \<Rightarrow> (Inr batch, c2)))"

text \<open>A call of \<^verbatim>\<open>next\<close>: with one source it is the source's own call, otherwise it awaits one
  future per source that was live when it started; \<open>Awaiting\<close> has the indices of the futures
  that have not resolved.\<close>

datatype 'd next_call = Delegated | Awaiting "nat list" | Resolved "consumer_error + 'd"

definition next_end :: "'s composite \<Rightarrow> 'd next_call \<times> 's composite" where
  "next_end c =
     (if all_retired c then (Resolved (Inl consumer_error_closed), c)
      else case take_pending c of
        (Some err, c1) \<Rightarrow> (Resolved (Inl err), c1)
      | (None, c1) \<Rightarrow> (Resolved (Inl consumer_error_closed), c1))"

definition next_begin :: "'s composite \<Rightarrow> 'd next_call \<times> 's composite" where
  "next_begin c =
     (if length (co_sources c) = 1 then (Delegated, c)
      else case rotation c of
        (None, c1) \<Rightarrow> (Resolved (Inl consumer_error_closed), c1)
      | (Some is, c1) \<Rightarrow>
          (let live = filter (\<lambda>i. \<not> is_retired i c1) is in
           if live = [] then next_end c1 else (Awaiting live, c1)))"

text \<open>The runtime polls the future of source \<open>i\<close>.\<close>

fun next_poll :: "('s, 'd) await \<Rightarrow> nat \<Rightarrow> 'd next_call \<times> 's composite \<Rightarrow> 'd next_call \<times> 's composite" where
  "next_poll await i (Delegated, c) =
     (case await (co_sources c ! 0) of
        (None, s) \<Rightarrow> (Delegated, put_source 0 s c)
      | (Some r, s) \<Rightarrow> (Resolved r, put_source 0 s c))"
| "next_poll await i (Awaiting F, c) =
     (if i \<notin> set F then (Awaiting F, c)
      else case await (co_sources c ! i) of
        (None, s) \<Rightarrow> (Awaiting F, put_source i s c)
      | (Some (Inr d), s) \<Rightarrow> (Resolved (Inr d), put_source i s c)
      | (Some (Inl err), s) \<Rightarrow>
          if ce_kind err = ConsumerClosed
          then (let c1 = retire i (put_source i s c) in
            case (if all_retired c1 then (None, c1) else take_pending c1) of
              (Some pending, c2) \<Rightarrow> (Resolved (Inl pending), c2)
            | (None, c2) \<Rightarrow> (let rest = remove1 i F in if rest = [] then next_end c2 else (Awaiting rest, c2)))
          else (Resolved (Inl err), put_source i s c))"
| "next_poll await i (Resolved r, c) = (Resolved r, c)"

section \<open>The other calls\<close>

definition composite_is_closed :: "('s \<Rightarrow> bool) \<Rightarrow> 's composite \<Rightarrow> bool" where
  "composite_is_closed is_cl c = (co_closed_by_caller c \<or> list_all is_cl (co_sources c))"

definition composite_generation :: "('s \<Rightarrow> u64) \<Rightarrow> 's composite \<Rightarrow> u64" where
  "composite_generation gen c = (case co_sources c of [] \<Rightarrow> 1 | s # _ \<Rightarrow> gen s)"

definition source_generations :: "('s \<Rightarrow> u64) \<Rightarrow> 's composite \<Rightarrow> u64 list" where
  "source_generations gen c = map gen (co_sources c)"

definition composite_drain_errors :: "('s \<Rightarrow> settlement_error list \<times> 's) \<Rightarrow> 's composite \<Rightarrow> settlement_error list \<times> 's composite" where
  "composite_drain_errors drain c =
     (concat (map (fst \<circ> drain) (co_sources c)), c\<lparr>co_sources := map (snd \<circ> drain) (co_sources c)\<rparr>)"

text \<open>The answers of the sources in order; the first error ends the call.\<close>

fun composite_prefetch_stats :: "(consumer_error + prefetch_stat list) list \<Rightarrow> consumer_error + prefetch_stat list" where
  "composite_prefetch_stats [] = Inr []"
| "composite_prefetch_stats (r # rs) =
     bind_res r (\<lambda>stats. bind_res (composite_prefetch_stats rs) (\<lambda>more. Inr (stats @ more)))"

text \<open>Closing: the flag, both slots, then every source's close. \<open>answers\<close> are the results of those
  calls, or \<open>None\<close> when the budget elapsed first; every source has its signal either way.\<close>

definition composite_close :: "('s \<Rightarrow> 's) \<Rightarrow> (consumer_error + unit) list option \<Rightarrow> 's composite \<Rightarrow> (consumer_error + unit) \<times> 's composite" where
  "composite_close close answers c =
     ((case answers of
         None \<Rightarrow> Inr ()
       | Some rs \<Rightarrow> (case find isl rs of Some r \<Rightarrow> r | None \<Rightarrow> Inr ())),
      c\<lparr>co_closed_by_caller := True, co_pending_error := None, co_pending_signal := None,
        co_sources := map close (co_sources c)\<rparr>)"

section \<open>What the composite relies on\<close>

text \<open>\<open>stock\<close> has the deliveries a source holds for the caller: a call that returns deliveries takes
  them from its front, every other call leaves it as it is.\<close>

locale delivery_source =
  fixes tk :: "'s \<Rightarrow> (consumer_error + 'd option) \<times> 's"
    and tb :: "nat \<Rightarrow> 's \<Rightarrow> (consumer_error + 'd list) \<times> 's"
    and aw :: "'s \<Rightarrow> (consumer_error + 'd) option \<times> 's"
    and stock :: "'s \<Rightarrow> 'd list"
  assumes tk_some: "tk s = (Inr (Some d), s') \<Longrightarrow> stock s = d # stock s'"
    and tk_none: "tk s = (Inr None, s') \<Longrightarrow> stock s' = stock s"
    and tk_error: "tk s = (Inl e, s') \<Longrightarrow> stock s' = stock s"
    and tb_some: "tb n s = (Inr ds, s') \<Longrightarrow> stock s = ds @ stock s'"
    and tb_error: "tb n s = (Inl e, s') \<Longrightarrow> stock s' = stock s"
    and aw_some: "aw s = (Some (Inr d), s') \<Longrightarrow> stock s = d # stock s'"
    and aw_error: "aw s = (Some (Inl e), s') \<Longrightarrow> stock s' = stock s"
    and aw_wait: "aw s = (None, s') \<Longrightarrow> stock s' = stock s"

lemma retire_sources [simp]: "co_sources (retire i c) = co_sources c"
  by (simp add: retire_def Let_def)

lemma put_source_sources [simp]: "co_sources (put_source i s c) = (co_sources c)[i := s]"
  by (simp add: put_source_def)

lemma take_pending_sources: "take_pending c = (r, c') \<Longrightarrow> co_sources c' = co_sources c"
  by (auto simp: take_pending_def split: option.splits)

lemma rotation_sources: "rotation c = (r, c') \<Longrightarrow> co_sources c' = co_sources c"
  by (auto simp: rotation_def Let_def split: if_splits)

lemma rotation_indices: "rotation c = (Some is, c') \<Longrightarrow> set is \<subseteq> {..<length (co_sources c)}"
  by (auto simp: rotation_def Let_def split: if_splits)

lemma next_end_sources: "next_end c = (r, c') \<Longrightarrow> co_sources c' = co_sources c"
  by (auto simp: next_end_def split: if_splits prod.splits option.splits dest: take_pending_sources)

context delivery_source
begin

definition total :: "'s composite \<Rightarrow> 'd multiset" where
  "total c = (\<Sum>s\<leftarrow>co_sources c. mset (stock s))"

lemma total_cong: "co_sources c' = co_sources c \<Longrightarrow> total c' = total c"
  by (simp add: total_def)

lemma total_put:
  assumes "i < length (co_sources c)" "stock (co_sources c ! i) = ds @ stock s"
  shows "total c = mset ds + total (put_source i s c)"
proof -
  have "(\<Sum>s\<leftarrow>xs. mset (stock s)) = mset ds + (\<Sum>s\<leftarrow>xs[i := s]. mset (stock s))"
    if "i < length xs" "stock (xs ! i) = ds @ stock s" for xs
    using that by (induction xs arbitrary: i) (auto split: nat.splits simp: less_Suc_eq_0_disj)
  then show ?thesis
    using assms by (simp add: total_def)
qed

lemma tk_total:
  assumes "tk (co_sources c ! i) = (r, s)" "i < length (co_sources c)"
  shows "total c = (case r of Inr (Some d) \<Rightarrow> {#d#} | _ \<Rightarrow> {#}) + total (put_source i s c)"
  using total_put [OF assms(2), of "case r of Inr (Some d) \<Rightarrow> [d] | _ \<Rightarrow> []" s] tk_some tk_none tk_error assms(1)
  by (cases r) (auto split: option.splits)

lemma tb_total:
  assumes "tb n (co_sources c ! i) = (r, s)" "i < length (co_sources c)"
  shows "total c = (case r of Inr ds \<Rightarrow> mset ds | Inl _ \<Rightarrow> {#}) + total (put_source i s c)"
  using total_put [OF assms(2), of "case r of Inr ds \<Rightarrow> ds | Inl _ \<Rightarrow> []" s] tb_some tb_error assms(1)
  by (cases r) auto

lemma aw_total:
  assumes "aw (co_sources c ! i) = (r, s)" "i < length (co_sources c)"
  shows "total c = (case r of Some (Inr d) \<Rightarrow> {#d#} | _ \<Rightarrow> {#}) + total (put_source i s c)"
  using total_put [OF assms(2), of "case r of Some (Inr d) \<Rightarrow> [d] | _ \<Rightarrow> []" s] aw_some aw_error aw_wait assms(1)
  by (cases r) (auto split: sum.splits)

lemma total_retire [simp]: "total (retire i c) = total c"
  by (simp add: total_def)

lemma scan_next_total:
  "scan_next tk is c = (r, c') \<Longrightarrow> set is \<subseteq> {..<length (co_sources c)} \<Longrightarrow>
   total c = (case r of Some (Inr d) \<Rightarrow> {#d#} | _ \<Rightarrow> {#}) + total c'"
proof (induction "is" arbitrary: c)
  case (Cons i "is")
  obtain a s where q: "tk (co_sources c ! i) = (a, s)"
    by (cases "tk (co_sources c ! i)")
  have "total c = (case a of Inr (Some d) \<Rightarrow> {#d#} | _ \<Rightarrow> {#}) + total (put_source i s c)"
    using tk_total [OF q] Cons.prems(2) by simp
  then show ?case
    using Cons.IH [of c] Cons.IH [of "put_source i s c"] Cons.IH [of "retire i (put_source i s c)"] Cons.prems q
    by (auto split: sum.splits option.splits if_splits)
qed simp

lemma scan_batch_total:
  "scan_batch tb mx is batch c = (r, c') \<Longrightarrow> set is \<subseteq> {..<length (co_sources c)} \<Longrightarrow>
   (case r of Inl _ \<Rightarrow> batch = [] \<and> total c' = total c
    | Inr ds \<Rightarrow> \<exists>new. ds = batch @ new \<and> total c = mset new + total c')"
proof (induction "is" arbitrary: batch c)
  case (Cons i "is")
  obtain a s where q: "tb (mx - length batch) (co_sources c ! i) = (a, s)"
    by (cases "tb (mx - length batch) (co_sources c ! i)")
  have tot: "total c = (case a of Inr ds \<Rightarrow> mset ds | Inl _ \<Rightarrow> {#}) + total (put_source i s c)"
    using tb_total [OF q] Cons.prems(2) by simp
  have err: "total ((put_source i s c)\<lparr>co_pending_error := x\<rparr>) = total (put_source i s c)" for x
    by (rule total_cong) simp
  show ?case
  proof (cases a)
    case (Inl e)
    then show ?thesis
      using Cons.IH [of batch c] Cons.IH [of batch "retire i (put_source i s c)"] Cons.prems q tot err
      by (auto split: if_splits sum.splits)
  next
    case (Inr part)
    then show ?thesis
      using Cons.IH [of batch c] Cons.IH [of "batch @ part" "put_source i s c"] Cons.prems q tot
      by (auto split: if_splits sum.splits)
  qed
qed auto

lemma composite_try_next_total:
  assumes "composite_try_next tk c = (r, c')"
  shows "total c = (case r of Inr (Some d) \<Rightarrow> {#d#} | _ \<Rightarrow> {#}) + total c'"
proof (cases "length (co_sources c) = 1")
  case True
  then show ?thesis
    using assms tk_total [of c 0] by (auto simp: composite_try_next_def split: prod.splits)
next
  case False
  obtain a c1 where rot: "rotation c = (a, c1)"
    by (cases "rotation c")
  have c1: "total c1 = total c"
    using rot rotation_sources total_cong by metis
  show ?thesis
  proof (cases a)
    case (Some "is")
    obtain b c2 where q: "scan_next tk is c1 = (b, c2)"
      by (cases "scan_next tk is c1")
    have "set is \<subseteq> {..<length (co_sources c1)}"
      using rot Some rotation_indices rotation_sources by metis
    then have "total c1 = (case b of Some (Inr d) \<Rightarrow> {#d#} | _ \<Rightarrow> {#}) + total c2"
      using scan_next_total q by blast
    then show ?thesis
      using assms False rot Some q c1
      by (auto simp: composite_try_next_def split: option.splits sum.splits if_splits prod.splits
          dest!: take_pending_sources total_cong)
  qed (use assms False rot c1 in \<open>auto simp: composite_try_next_def\<close>)
qed

lemma composite_try_next_batch_total:
  assumes "composite_try_next_batch tb mx c = (r, c')"
  shows "total c = (case r of Inr ds \<Rightarrow> mset ds | Inl _ \<Rightarrow> {#}) + total c'"
proof (cases "length (co_sources c) = 1")
  case True
  then show ?thesis
    using assms tb_total [of mx c 0] by (auto simp: composite_try_next_batch_def split: prod.splits)
next
  case False
  obtain a c1 where rot: "rotation c = (a, c1)"
    by (cases "rotation c")
  have c1: "total c1 = total c"
    using rot rotation_sources total_cong by metis
  show ?thesis
  proof (cases a)
    case (Some "is")
    obtain b c2 where q: "scan_batch tb (max 1 (min mx 256)) is [] c1 = (b, c2)"
      by (cases "scan_batch tb (max 1 (min mx 256)) is [] c1")
    have "set is \<subseteq> {..<length (co_sources c1)}"
      using rot Some rotation_indices rotation_sources by metis
    then have "total c1 = (case b of Inr ds \<Rightarrow> mset ds | Inl _ \<Rightarrow> {#}) + total c2"
      using scan_batch_total [OF q] by (auto split: sum.splits)
    then show ?thesis
      using assms False rot Some q c1
      by (auto simp: composite_try_next_batch_def split: option.splits sum.splits list.splits if_splits prod.splits
          dest!: take_pending_sources total_cong)
  qed (use assms False rot c1 in \<open>auto simp: composite_try_next_batch_def\<close>)
qed

lemma next_poll_total:
  assumes "next_poll aw i (Awaiting F, c) = (r, c')" "set F \<subseteq> {..<length (co_sources c)}"
  shows "total c = (case r of Resolved (Inr d) \<Rightarrow> {#d#} | _ \<Rightarrow> {#}) + total c'"
proof (cases "i \<in> set F")
  case True
  obtain a s where q: "aw (co_sources c ! i) = (a, s)"
    by (cases "aw (co_sources c ! i)")
  have tot: "total c = (case a of Some (Inr d) \<Rightarrow> {#d#} | _ \<Rightarrow> {#}) + total (put_source i s c)"
    using aw_total [OF q] assms(2) True by auto
  consider "a = None" | d where "a = Some (Inr d)" | e where "a = Some (Inl e)"
    by (metis option.exhaust sum.exhaust)
  then show ?thesis
  proof cases
    case 3
    then have "(\<forall>d. r \<noteq> Resolved (Inr d)) \<and> co_sources c' = co_sources (put_source i s c)"
      using assms True q
      by (auto simp: Let_def next_end_def split: if_splits prod.splits option.splits dest!: take_pending_sources)
    then show ?thesis
      using total_cong [of c' "put_source i s c"] tot 3 by (auto split: next_call.splits sum.splits)
  qed (use assms True q tot in auto)
qed (use assms in auto)

end

section \<open>The handle of a consumer set as a source\<close>

definition handle_stock :: "'e consumer_system \<Rightarrow> delivery_item list" where
  "handle_stock y = concat (map (case_sum (\<lambda>_. []) (\<lambda>d. [d])) (sh_flume (cs_shared (cy_actor y))))"

lemma handle_stock_simps [simp]:
  "handle_stock (notify_one y) = handle_stock y"
  "handle_stock (stamp_popped epoch now i y) = handle_stock y"
  "handle_stock (stash_error err y) = handle_stock y"
  by (simp_all add: handle_stock_def notify_one_def stamp_popped_def stash_error_def)

lemma flume_recv_stock:
  "flume_recv y = (Some (Inr d), y') \<Longrightarrow> handle_stock y = d # handle_stock y'"
  "flume_recv y = (Some (Inl err), y') \<Longrightarrow> handle_stock y' = handle_stock y"
  "flume_recv y = (None, y') \<Longrightarrow> y' = y"
  by (auto simp: flume_recv_def handle_stock_def split: list.splits)

lemma take_pending_error_stock: "take_pending_error y = (r, y') \<Longrightarrow> handle_stock y' = handle_stock y"
  by (auto simp: take_pending_error_def handle_stock_def)

lemma batch_loop_stock:
  "batch_loop epoch now n batch y = (r, y') \<Longrightarrow>
   (case r of Inl _ \<Rightarrow> batch = [] \<and> handle_stock y' = handle_stock y
    | Inr ds \<Rightarrow> \<exists>new. ds = batch @ new \<and> handle_stock y = new @ handle_stock y')"
proof (induction n arbitrary: batch y)
  case (Suc n)
  obtain a y1 where q: "flume_recv y = (a, y1)"
    by (cases "flume_recv y")
  consider "a = None" | e where "a = Some (Inl e)" | d where "a = Some (Inr d)"
    by (metis option.exhaust sum.exhaust)
  then show ?case
  proof cases
    case 3
    then show ?thesis
      using Suc.IH [of "batch @ [d]" "stamp_popped epoch now (it_token d) y1"] Suc.prems q flume_recv_stock(1) [of y d y1]
      by (auto split: sum.splits)
  qed (use Suc.prems q in \<open>auto split: if_splits dest: flume_recv_stock\<close>)
qed auto

lemma try_next_batch_stock:
  assumes "try_next_batch epoch now n y = (r, y')"
  shows "case r of Inl _ \<Rightarrow> handle_stock y' = handle_stock y | Inr ds \<Rightarrow> handle_stock y = ds @ handle_stock y'"
proof (cases "hd_closed (cy_handle y)")
  case False
  obtain a y1 where q: "batch_loop epoch now (max 1 (min n 256)) [] y = (a, y1)"
    by (cases "batch_loop epoch now (max 1 (min n 256)) [] y")
  then show ?thesis
    using batch_loop_stock [OF q] assms False
    by (auto simp: try_next_batch_def split: sum.splits list.splits prod.splits option.splits dest: take_pending_error_stock)
qed (use assms in \<open>auto simp: try_next_batch_def\<close>)

interpretation set_source: delivery_source "try_next epoch now" "try_next_batch epoch now" "next_delivery epoch now" handle_stock
proof
  fix s :: "'a consumer_system" and d s' e n ds
  show "handle_stock s = d # handle_stock s'" if "try_next epoch now s = (Inr (Some d), s')"
    using that flume_recv_stock(1) [of s]
    by (auto simp: try_next_def split: if_splits prod.splits option.splits sum.splits)
  show "handle_stock s' = handle_stock s" if "try_next epoch now s = (Inr None, s')"
    using that flume_recv_stock(3) [of s]
    by (auto simp: try_next_def split: if_splits prod.splits option.splits sum.splits dest: take_pending_error_stock)
  show "handle_stock s' = handle_stock s" if "try_next epoch now s = (Inl e, s')"
    using that flume_recv_stock(2,3) [of s]
    by (auto simp: try_next_def split: if_splits prod.splits option.splits sum.splits dest: take_pending_error_stock)
  show "handle_stock s = ds @ handle_stock s'" if "try_next_batch epoch now n s = (Inr ds, s')"
    using try_next_batch_stock [OF that] by simp
  show "handle_stock s' = handle_stock s" if "try_next_batch epoch now n s = (Inl e, s')"
    using try_next_batch_stock [OF that] by simp
  show "handle_stock s = d # handle_stock s'" if "next_delivery epoch now s = (Some (Inr d), s')"
    using that flume_recv_stock(1) [of "notify_one s"]
    by (auto simp: next_delivery_def split: if_splits prod.splits option.splits sum.splits)
  show "handle_stock s' = handle_stock s" if "next_delivery epoch now s = (Some (Inl e), s')"
    using that flume_recv_stock(2,3) [of "notify_one s"]
    by (auto simp: next_delivery_def split: if_splits prod.splits option.splits sum.splits)
  show "handle_stock s' = handle_stock s" if "next_delivery epoch now s = (None, s')"
    using that flume_recv_stock(3) [of "notify_one s"]
    by (auto simp: next_delivery_def split: if_splits prod.splits option.splits sum.splits)
qed

section \<open>Fairness\<close>

lemma rotation_reaches:
  fixes n :: nat
  assumes "i < n"
  shows "\<exists>k<n. (a + k) mod n = i"
proof (intro exI conjI)
  have "a mod n < n"
    using assms by simp
  then have "(a mod n + (i + n - a mod n)) mod n = i"
    using assms by (simp only: le_add_diff_inverse less_imp_le_nat trans_le_add2 mod_add_self2 mod_less)
  then show "(a + (i + n - a mod n) mod n) mod n = i"
    by (metis mod_add_left_eq mod_add_right_eq)
qed (use assms in simp)

text \<open>Source \<open>i\<close> is live and would hand out \<open>d\<close> when asked.\<close>

definition offers :: "('s, 'd) take_one \<Rightarrow> nat \<Rightarrow> 'd \<Rightarrow> 's composite \<Rightarrow> bool" where
  "offers tk i d c \<longleftrightarrow> i < length (co_sources c) \<and> length (co_retired c) = length (co_sources c) \<and>
     \<not> co_retired c ! i \<and> fst (tk (co_sources c ! i)) = Inr (Some d)"

fun composite_takes :: "('s, 'd) take_one \<Rightarrow> nat \<Rightarrow> 's composite \<Rightarrow> (consumer_error + 'd option) list \<times> 's composite" where
  "composite_takes tk 0 c = ([], c)"
| "composite_takes tk (Suc n) c =
     (case composite_try_next tk c of (r, c1) \<Rightarrow> (case composite_takes tk n c1 of (rs, c2) \<Rightarrow> (r # rs, c2)))"

lemma offers_put: "j \<noteq> i \<Longrightarrow> offers tk i d (put_source j s c) = offers tk i d c"
  by (simp add: offers_def put_source_def)

lemma offers_retire: "j \<noteq> i \<Longrightarrow> offers tk i d (retire j c) = offers tk i d c"
  by (simp add: offers_def retire_def Let_def)

lemma offers_slots [simp]:
  "offers tk i d (c\<lparr>co_round_robin := x\<rparr>) = offers tk i d c"
  "offers tk i d (c\<lparr>co_pending_error := y\<rparr>) = offers tk i d c"
  "offers tk i d (c\<lparr>co_pending_signal := y\<rparr>) = offers tk i d c"
  by (simp_all add: offers_def)

lemma retire_round_robin [simp]: "co_round_robin (retire i c) = co_round_robin c"
  by (simp add: retire_def Let_def)

lemma put_source_round_robin [simp]: "co_round_robin (put_source i s c) = co_round_robin c"
  by (simp add: put_source_def)

lemma scan_next_offers:
  "scan_next tk is c = (r, c') \<Longrightarrow> offers tk i d c \<Longrightarrow>
   r = Some (Inr d) \<or> i \<notin> set is \<and> r = None \<and> offers tk i d c' \<or> r \<noteq> None \<and> hd is \<noteq> i \<and> offers tk i d c'"
proof (induction "is" arbitrary: c)
  case (Cons j "is")
  obtain a s where q: "tk (co_sources c ! j) = (a, s)"
    by (cases "tk (co_sources c ! j)")
  show ?case
  proof (cases "j = i")
    case True
    then show ?thesis
      using Cons.prems q by (auto simp: offers_def is_retired_def)
  next
    case False
    then show ?thesis
      using Cons.IH [of c] Cons.IH [of "put_source j s c"] Cons.IH [of "retire j (put_source j s c)"] Cons.prems q
      by (auto simp: offers_put offers_retire split: if_splits sum.splits option.splits)
  qed
qed auto

lemma scan_next_round_robin: "scan_next tk is c = (r, c') \<Longrightarrow> co_round_robin c' = co_round_robin c"
  by (induction "is" arbitrary: c) (auto split: if_splits prod.splits sum.splits option.splits)

lemma scan_next_length: "scan_next tk is c = (r, c') \<Longrightarrow> length (co_sources c') = length (co_sources c)"
  by (induction "is" arbitrary: c) (auto split: if_splits prod.splits sum.splits option.splits)

text \<open>One call either serves the offer or keeps it and moves the rotation on; it serves the offer
  when the rotation starts there.\<close>

lemma composite_try_next_offers:
  assumes c: "composite_try_next tk c = (r, c')" and o1: "offers tk i d c"
  shows "r = Inr (Some d) \<or> offers tk i d c' \<and> co_round_robin c' = co_round_robin c + 1 \<and>
     length (co_sources c') = length (co_sources c) \<and> unat (co_round_robin c) mod length (co_sources c) \<noteq> i"
proof (cases "length (co_sources c) = 1")
  case True
  then show ?thesis
    using c o1 by (auto simp: composite_try_next_def offers_def split: prod.splits)
next
  case False
  define n where "n = length (co_sources c)"
  define c1 where "c1 = c\<lparr>co_round_robin := co_round_robin c + 1\<rparr>"
  define js where "js = map (\<lambda>offset. (unat (co_round_robin c) mod n + offset) mod n) [0..<n]"
  have n: "i < n"
    using o1 by (simp add: offers_def n_def)
  have rot: "rotation c = (Some js, c1)"
    using n by (auto simp: rotation_def n_def js_def c1_def Let_def)
  obtain b c2 where q: "scan_next tk js c1 = (b, c2)"
    by (cases "scan_next tk js c1")
  have hd: "hd js = unat (co_round_robin c) mod n"
    using n by (simp add: js_def hd_map)
  have mem: "i \<in> set js"
    using rotation_reaches [OF n, of "unat (co_round_robin c)"] by (auto simp: js_def mod_add_left_eq)
  have "offers tk i d c1"
    using o1 by (simp add: c1_def)
  then have "b = Some (Inr d) \<or> b \<noteq> None \<and> hd js \<noteq> i \<and> offers tk i d c2"
    using scan_next_offers [OF q] mem by blast
  then show ?thesis
    using c False rot q hd scan_next_round_robin [OF q] scan_next_length [OF q]
    by (auto simp: composite_try_next_def c1_def n_def split: option.splits sum.splits)
qed

lemma composite_takes_offers:
  "composite_takes tk m c = (rs, c') \<Longrightarrow> offers tk i d c \<Longrightarrow> unat (co_round_robin c) + m < 2 ^ 64 \<Longrightarrow>
   k < m \<Longrightarrow> (unat (co_round_robin c) + k) mod length (co_sources c) = i \<Longrightarrow> Inr (Some d) \<in> set rs"
proof (induction m arbitrary: c rs k)
  case (Suc m)
  obtain r c1 where q: "composite_try_next tk c = (r, c1)"
    by (cases "composite_try_next tk c")
  obtain rs1 where q1: "composite_takes tk m c1 = (rs1, c')" "rs = r # rs1"
    using Suc.prems(1) q by (auto split: prod.splits)
  have suc: "unat (co_round_robin c + 1) = Suc (unat (co_round_robin c))"
    using Suc.prems(3) by (simp add: unat_word_ariths)
  show ?case
  proof (cases "r = Inr (Some d)")
    case False
    then have o1: "offers tk i d c1" "co_round_robin c1 = co_round_robin c + 1"
        "length (co_sources c1) = length (co_sources c)" "unat (co_round_robin c) mod length (co_sources c) \<noteq> i"
      using composite_try_next_offers [OF q Suc.prems(2)] by auto
    then obtain k' where "k = Suc k'"
      using Suc.prems(5) by (cases k) auto
    then show ?thesis
      using Suc.IH [OF q1(1) o1(1), of k'] Suc.prems o1 q1(2) suc by simp
  qed (use q1 in simp)
qed simp

section \<open>Properties\<close>

text \<open>The deliveries all sources of a composite hold.\<close>

definition composite_stock :: "'e consumer_system composite \<Rightarrow> delivery_item multiset" where
  "composite_stock c = (\<Sum>y\<leftarrow>co_sources c. mset (handle_stock y))"

text \<open>(C14) The composite neither loses nor duplicates a delivery. Whatever a call returns, the deliveries the
  sources held before it are those it returned and those the sources hold after it: a batch that ends in an
  error, a retired source and the wait for a delivery discard nothing.\<close>

theorem composite_conserves_deliveries:
  assumes "set F \<subseteq> {..<length (co_sources c)}"
  shows "(case composite_try_next (try_next epoch now) c of (r, c') \<Rightarrow>
       composite_stock c = (case r of Inr (Some d) \<Rightarrow> {#d#} | _ \<Rightarrow> {#}) + composite_stock c') \<and>
     (case composite_try_next_batch (try_next_batch epoch now) mx c of (r, c') \<Rightarrow>
       composite_stock c = (case r of Inr ds \<Rightarrow> mset ds | Inl _ \<Rightarrow> {#}) + composite_stock c') \<and>
     (case next_poll (next_delivery epoch now) i (Awaiting F, c) of (r, c') \<Rightarrow>
       composite_stock c = (case r of Resolved (Inr d) \<Rightarrow> {#d#} | _ \<Rightarrow> {#}) + composite_stock c')"
proof (intro conjI)
  note stock = composite_stock_def set_source.total_def [symmetric] case_prod_unfold
  show "case composite_try_next (try_next epoch now) c of (r, c') \<Rightarrow>
      composite_stock c = (case r of Inr (Some d) \<Rightarrow> {#d#} | _ \<Rightarrow> {#}) + composite_stock c'"
    unfolding stock by (rule set_source.composite_try_next_total) (rule surjective_pairing)
  show "case composite_try_next_batch (try_next_batch epoch now) mx c of (r, c') \<Rightarrow>
      composite_stock c = (case r of Inr ds \<Rightarrow> mset ds | Inl _ \<Rightarrow> {#}) + composite_stock c'"
    unfolding stock by (rule set_source.composite_try_next_batch_total) (rule surjective_pairing)
  show "case next_poll (next_delivery epoch now) i (Awaiting F, c) of (r, c') \<Rightarrow>
      composite_stock c = (case r of Resolved (Inr d) \<Rightarrow> {#d#} | _ \<Rightarrow> {#}) + composite_stock c'"
    unfolding stock by (rule set_source.next_poll_total [OF surjective_pairing assms])
qed

text \<open>Two sources: the first was closed by its recovery, the second has one delivery.\<close>

definition demo_composite :: "wire_op list consumer_system composite" where
  "demo_composite = from_sources
     [demo_consumer [LoopTop 0, EmbedderCloses],
      demo_consumer [PumpSends ''a'' (Inr (demo_delivery 1 False)), LoopTop 1]]"

theorem composite_conserves_deliveries_witness:
  "composite_stock demo_composite = composite_stock (snd (next_poll (next_delivery 0 2) 0 (Awaiting [0, 1], demo_composite)))"
proof -
  have "length (co_sources demo_composite) = 2"
    by (simp add: demo_composite_def from_sources_def)
  moreover have "(case fst (next_poll (next_delivery 0 2) 0 (Awaiting [0, 1], demo_composite)) of
      Resolved (Inl e) \<Rightarrow> True | _ \<Rightarrow> False)"
    by code_simp
  ultimately show ?thesis
    using composite_conserves_deliveries [of "[0, 1]" demo_composite 0 2 0 0]
    by (auto split: prod.splits next_call.splits sum.splits)
qed

text \<open>(C15) No source is starved. A live source with a delivery at the front of its hand-off queue is served
  within as many calls as there are sources, whatever the other sources return meanwhile.\<close>

theorem composite_serves_every_source:
  assumes "i < length (co_sources c)" "length (co_retired c) = length (co_sources c)" "\<not> co_retired c ! i"
    and "\<not> hd_closed (cy_handle (co_sources c ! i))" "sh_flume (cs_shared (cy_actor (co_sources c ! i))) = Inr d # q"
    and "unat (co_round_robin c) + length (co_sources c) < 2 ^ 64"
  shows "Inr (Some d) \<in> set (fst (composite_takes (try_next epoch now) (length (co_sources c)) c))"
proof -
  let ?n = "length (co_sources c)"
  have o1: "offers (try_next epoch now) i d c"
    using assms by (simp add: offers_def try_next_def flume_recv_def)
  obtain rs c' where q: "composite_takes (try_next epoch now) ?n c = (rs, c')"
    by (cases "composite_takes (try_next epoch now) ?n c")
  obtain k where "k < ?n" "(unat (co_round_robin c) + k) mod ?n = i"
    using rotation_reaches [OF assms(1)] by blast
  then show ?thesis
    using composite_takes_offers [OF q o1 assms(6)] q by simp
qed

theorem composite_serves_every_source_witness:
  "\<exists>d. Inr (Some d) \<in> set (fst (composite_takes (try_next 0 2) 2 demo_composite)) \<and> it_id d = ''m''"
proof -
  have f: "(case sh_flume (cs_shared (cy_actor (co_sources demo_composite ! 1))) of Inr d # q \<Rightarrow> it_id d = ''m'' | _ \<Rightarrow> False)"
    "\<not> hd_closed (cy_handle (co_sources demo_composite ! 1))"
    by code_simp+
  have s: "length (co_sources demo_composite) = 2" "co_retired demo_composite = [False, False]" "co_round_robin demo_composite = 0"
    by (simp_all add: demo_composite_def from_sources_def)
  obtain d q where d: "sh_flume (cs_shared (cy_actor (co_sources demo_composite ! 1))) = Inr d # q" "it_id d = ''m''"
    using f(1) by (auto split: list.splits sum.splits)
  have "Inr (Some d) \<in> set (fst (composite_takes (try_next 0 2) (length (co_sources demo_composite)) demo_composite))"
    by (rule composite_serves_every_source [of 1 _ d q]) (use s f d in simp_all)
  then show ?thesis
    using d s by auto
qed


end
