(* ===== verification/Spec2Isabelle.thy ===== *)
theory Spec2Isabelle
  imports Scheduler Attempts Recovery_Policy Config Delay Topology Metrics Publisher_Recovery Connection_Actor Consumer_Composite
begin

text \<open>
  Verification of the Rust core of the RabbitMQ client (\<^verbatim>\<open>crates/rabbit-rs-core\<close>).
\<close>

end
